(* ===== verification/Vicia_Prelude.thy ===== *)
theory Vicia_Prelude
  imports Main "HOL-Library.Word" "HOL-Library.Char_ord" "HOL-Library.List_Lexorder"
    "HOL-Library.Product_Lexorder" "HOL-Library.Multiset" "HOL-Library.Sublist" "HOL-Library.AList"
begin

text \<open>
  Shared vocabulary of the development: the machine integers of the Rust sources as words,
  byte strings with their little- and big-endian integer layouts, checked slicing
  (\<open>slice::get(i..j)\<close>), in-place copies (\<open>copy_from_slice\<close>), three-way comparison
  (\<open>std::cmp::Ordering\<close>), an ordered map with the observable behaviour of
  \<open>std::collections::BTreeMap\<close> and a hash map as an association list.
  The collection \<open>bytes_simps\<close> carries the codec proofs, \<open>cmp_simps\<close> the order proofs.
\<close>

unbundle bit_operations_syntax

named_theorems bytes_simps
named_theorems cmp_simps

section \<open>Machine integers and strings\<close>

type_synonym u8 = "8 word"
type_synonym u16 = "16 word"
type_synonym u32 = "32 word"
type_synonym u64 = "64 word"
type_synonym u128 = "128 word"
type_synonym bytes = "u8 list"

text \<open>\<open>usize\<close> is a natural number below \<open>2 ^ 64\<close>; \<open>saturating_add\<close> caps at the largest one.\<close>

definition usize_MAX :: nat where
  "usize_MAX = 2 ^ 64 - 1"

definition sat_add :: "nat \<Rightarrow> nat \<Rightarrow> nat" where
  "sat_add a b = min (a + b) usize_MAX"

text \<open>A Rust \<open>String\<close> is a sequence of UTF-8 bytes compared byte by byte; a \<open>string\<close> here
  is that byte sequence, one \<open>char\<close> per byte.\<close>

definition as_bytes :: "string \<Rightarrow> bytes" where
  "as_bytes s = map (\<lambda>c. of_nat (of_char c)) s"

definition of_bytes :: "bytes \<Rightarrow> string" where
  "of_bytes bs = map (\<lambda>b. char_of (unat b)) bs"

lemma unat_lt2p: "unat (w :: 'a :: len word) < 2 ^ LENGTH('a)"
  by (rule unsigned_less)

lemma word_of_unat: "of_nat (unat w) = (w :: 'a :: len word)"
  by simp

lemma unat_of_nat_eq: "n < 2 ^ LENGTH('a) \<Longrightarrow> unat (of_nat n :: 'a :: len word) = n"
  by (simp add: unat_of_nat)

lemma unat_of_char [simp]: "unat (of_nat (of_char c) :: u8) = of_char c"
  by (rule unat_of_nat_eq) simp

lemma of_bytes_as_bytes [simp, bytes_simps]: "of_bytes (as_bytes s) = s"
  by (simp add: as_bytes_def of_bytes_def o_def)

lemma as_bytes_of_bytes [simp, bytes_simps]: "as_bytes (of_bytes bs) = bs"
proof -
  have "(of_nat (of_char (char_of (unat b) :: char)) :: u8) = b" for b :: u8
  proof -
    have "unat b < 256" using unat_lt2p [of b] by simp
    then show ?thesis by simp
  qed
  then show ?thesis by (simp add: as_bytes_def of_bytes_def o_def)
qed

lemma length_as_bytes [simp, bytes_simps]: "length (as_bytes s) = length s"
  by (simp add: as_bytes_def)

lemma as_bytes_append [simp]: "as_bytes (s @ t) = as_bytes s @ as_bytes t"
  by (simp add: as_bytes_def)

lemma as_bytes_eq_iff [simp]: "as_bytes s = as_bytes t \<longleftrightarrow> s = t"
  by (metis of_bytes_as_bytes)

lemma as_bytes_less_iff [simp, cmp_simps]: "as_bytes s < as_bytes t \<longleftrightarrow> s < t"
proof (induction s arbitrary: t)
  case Nil
  then show ?case by (cases t) (auto simp: as_bytes_def)
next
  case (Cons a s)
  have less: "(of_nat (of_char a) :: u8) < of_nat (of_char b) \<longleftrightarrow> a < b" for b :: char
    by (simp add: word_less_nat_alt less_char_def)
  have eq: "(of_nat (of_char a) :: u8) = of_nat (of_char b) \<longleftrightarrow> a = b" for b :: char
    by (metis of_char_eq_iff unat_of_char)
  show ?case
    using Cons.IH by (cases t) (auto simp: as_bytes_def less eq)
qed

section \<open>Integers as bytes\<close>

fun le_bytes :: "nat \<Rightarrow> nat \<Rightarrow> bytes" where
  "le_bytes 0 k = []"
| "le_bytes (Suc n) k = of_nat (k mod 256) # le_bytes n (k div 256)"

fun le_nat :: "bytes \<Rightarrow> nat" where
  "le_nat [] = 0"
| "le_nat (b # bs) = unat b + 256 * le_nat bs"

definition be_bytes :: "nat \<Rightarrow> nat \<Rightarrow> bytes" where
  "be_bytes n k = rev (le_bytes n k)"

definition be_nat :: "bytes \<Rightarrow> nat" where
  "be_nat bs = le_nat (rev bs)"

lemma length_le_bytes [simp, bytes_simps]: "length (le_bytes n k) = n"
  by (induction n arbitrary: k) auto

lemma length_be_bytes [simp, bytes_simps]: "length (be_bytes n k) = n"
  by (simp add: be_bytes_def)

lemma le_nat_le_bytes: "le_nat (le_bytes n k) = k mod 256 ^ n"
proof (induction n arbitrary: k)
  case 0
  then show ?case by simp
next
  case (Suc n)
  have "unat (of_nat (k mod 256) :: u8) = k mod 256"
    by (simp add: unat_of_nat)
  then show ?case
    using Suc.IH [of "k div 256"] by (simp add: mod_mult2_eq)
qed

lemma le_nat_less: "le_nat bs < 256 ^ length bs"
proof (induction bs)
  case Nil
  then show ?case by simp
next
  case (Cons b bs)
  have "unat b < 256" using unat_lt2p [of b] by simp
  moreover have "256 * le_nat bs + 256 \<le> 256 * 256 ^ length bs"
    using Cons.IH by (metis Suc_leI add.commute mult_Suc_right mult_le_mono2)
  ultimately show ?case by simp
qed

lemma le_bytes_le_nat: "length bs = n \<Longrightarrow> le_bytes n (le_nat bs) = bs"
proof (induction bs arbitrary: n)
  case Nil
  then show ?case by simp
next
  case (Cons b bs)
  have b: "unat b < 256" using unat_lt2p [of b] by simp
  then have "(unat b + 256 * le_nat bs) mod 256 = unat b"
    and "(unat b + 256 * le_nat bs) div 256 = le_nat bs"
    by auto
  with Cons show ?case by auto
qed

abbreviation u16_to_le_bytes :: "u16 \<Rightarrow> bytes" where
  "u16_to_le_bytes w \<equiv> le_bytes 2 (unat w)"
abbreviation u32_to_le_bytes :: "u32 \<Rightarrow> bytes" where
  "u32_to_le_bytes w \<equiv> le_bytes 4 (unat w)"
abbreviation u64_to_le_bytes :: "u64 \<Rightarrow> bytes" where
  "u64_to_le_bytes w \<equiv> le_bytes 8 (unat w)"
abbreviation u64_to_be_bytes :: "u64 \<Rightarrow> bytes" where
  "u64_to_be_bytes w \<equiv> be_bytes 8 (unat w)"
abbreviation u128_to_be_bytes :: "u128 \<Rightarrow> bytes" where
  "u128_to_be_bytes w \<equiv> be_bytes 16 (unat w)"

definition u16_from_le_bytes :: "bytes \<Rightarrow> u16" where
  "u16_from_le_bytes bs = of_nat (le_nat bs)"
definition u32_from_le_bytes :: "bytes \<Rightarrow> u32" where
  "u32_from_le_bytes bs = of_nat (le_nat bs)"
definition u64_from_le_bytes :: "bytes \<Rightarrow> u64" where
  "u64_from_le_bytes bs = of_nat (le_nat bs)"
definition u64_from_be_bytes :: "bytes \<Rightarrow> u64" where
  "u64_from_be_bytes bs = of_nat (be_nat bs)"
definition u128_from_be_bytes :: "bytes \<Rightarrow> u128" where
  "u128_from_be_bytes bs = of_nat (be_nat bs)"

lemma unat_mod_width:
  "unat (w :: u16) mod 256 ^ 2 = unat w" "unat (x :: u32) mod 256 ^ 4 = unat x"
  "unat (y :: u64) mod 256 ^ 8 = unat y" "unat (z :: u128) mod 256 ^ 16 = unat z"
  using unat_lt2p [of w] unat_lt2p [of x] unat_lt2p [of y] unat_lt2p [of z] by simp_all

lemma from_le_to_le [simp, bytes_simps]:
  "u16_from_le_bytes (u16_to_le_bytes w) = w"
  "u32_from_le_bytes (u32_to_le_bytes x) = x"
  "u64_from_le_bytes (u64_to_le_bytes y) = y"
  by (simp_all only: u16_from_le_bytes_def u32_from_le_bytes_def u64_from_le_bytes_def
      le_nat_le_bytes unat_mod_width word_of_unat)

lemma from_be_to_be [simp, bytes_simps]:
  "u64_from_be_bytes (u64_to_be_bytes y) = y"
  "u128_from_be_bytes (u128_to_be_bytes z) = z"
  by (simp_all only: u64_from_be_bytes_def u128_from_be_bytes_def be_nat_def be_bytes_def
      rev_rev_ident le_nat_le_bytes unat_mod_width word_of_unat)

lemma le_bytes_inj: "le_bytes n j = le_bytes n k \<Longrightarrow> j < 256 ^ n \<Longrightarrow> k < 256 ^ n \<Longrightarrow> j = k"
  by (metis le_nat_le_bytes mod_less)

lemma be_bytes_inj: "be_bytes n j = be_bytes n k \<Longrightarrow> j < 256 ^ n \<Longrightarrow> k < 256 ^ n \<Longrightarrow> j = k"
  unfolding be_bytes_def by (metis le_bytes_inj rev_rev_ident)

text \<open>Big-endian layout turns integer order into lexicographic byte order.\<close>

lemma be_bytes_Suc: "be_bytes (Suc n) k = be_bytes n (k div 256) @ [of_nat (k mod 256)]"
  by (simp add: be_bytes_def)

lemma less_append_same_length:
  fixes xs ys :: "('a :: linorder) list"
  assumes "length xs = length ys"
  shows "xs @ us < ys @ vs \<longleftrightarrow> xs < ys \<or> (xs = ys \<and> us < vs)"
  using assms by (induction xs ys rule: list_induct2) auto

lemma div_mod_less_iff:
  fixes j k m :: nat
  shows "(j div m < k div m \<or> (j div m = k div m \<and> j mod m < k mod m)) \<longleftrightarrow> j < k"
proof (cases "j div m = k div m")
  case True
  have "j = m * (j div m) + j mod m" "k = m * (k div m) + k mod m" by simp_all
  with True show ?thesis by (metis nat_add_left_cancel_less nat_neq_iff)
next
  case False
  then show ?thesis using div_le_mono [of j k m] div_le_mono [of k j m] by linarith
qed

lemma be_bytes_less_iff [cmp_simps]:
  assumes "j < 256 ^ n" "k < 256 ^ n"
  shows "be_bytes n j < be_bytes n k \<longleftrightarrow> j < k"
  using assms
proof (induction n arbitrary: j k)
  case 0
  then show ?case by (simp add: be_bytes_def)
next
  case (Suc n)
  let ?j = "j div 256" and ?k = "k div 256"
  have bnd: "?j < 256 ^ n" "?k < 256 ^ n"
    using Suc.prems by (simp_all add: div_less_iff_less_mult mult.commute)
  have digit: "(of_nat (j mod 256) :: u8) < of_nat (k mod 256) \<longleftrightarrow> j mod 256 < k mod 256"
    by (simp add: word_less_nat_alt unat_of_nat)
  have eq: "be_bytes n ?j = be_bytes n ?k \<longleftrightarrow> ?j = ?k"
    using be_bytes_inj [OF _ bnd] by auto
  have "be_bytes (Suc n) j < be_bytes (Suc n) k \<longleftrightarrow>
      ?j < ?k \<or> (?j = ?k \<and> j mod 256 < k mod 256)"
    by (simp add: be_bytes_Suc less_append_same_length Suc.IH [OF bnd] eq digit)
  also have "\<dots> \<longleftrightarrow> j < k"
    by (rule div_mod_less_iff)
  finally show ?case .
qed

lemma unat_less_width [simp]:
  "unat (w :: u16) < 256 ^ 2" "unat (x :: u32) < 256 ^ 4"
  "unat (y :: u64) < 256 ^ 8" "unat (z :: u128) < 256 ^ 16"
  using unat_lt2p [of w] unat_lt2p [of x] unat_lt2p [of y] unat_lt2p [of z] by simp_all

lemma to_be_bytes_less_iff [cmp_simps]:
  "u64_to_be_bytes y < u64_to_be_bytes y' \<longleftrightarrow> y < y'"
  "u128_to_be_bytes z < u128_to_be_bytes z' \<longleftrightarrow> z < z'"
  by (simp_all only: be_bytes_less_iff unat_less_width word_less_nat_alt)

lemma to_be_bytes_eq_iff [cmp_simps]:
  "u64_to_be_bytes y = u64_to_be_bytes y' \<longleftrightarrow> y = y'"
  "u128_to_be_bytes z = u128_to_be_bytes z' \<longleftrightarrow> z = z'"
  by (metis from_be_to_be)+

section \<open>Flipping bits of a 64-bit word\<close>

lemma bit63_iff: "bit (w :: u64) 63 \<longleftrightarrow> 2 ^ 63 \<le> unat w"
proof -
  have "unat w div 2 ^ 63 < 2"
    using unat_lt2p [of w] by (simp add: div_less_iff_less_mult)
  then have "odd (unat w div 2 ^ 63) \<longleftrightarrow> unat w div 2 ^ 63 \<noteq> 0"
    by (metis One_nat_def even_zero less_2_cases odd_one)
  moreover have "bit w 63 \<longleftrightarrow> bit (unat w) 63"
    by (simp add: bit_unsigned_iff)
  ultimately show ?thesis
    by (auto simp: bit_iff_odd div_eq_0_iff)
qed

lemma xor_top_bit: "w XOR 0x8000000000000000 = w + (0x8000000000000000 :: u64)"
proof -
  have clear: "v XOR 2 ^ 63 = v + (2 ^ 63 :: u64)" if "\<not> bit v 63" for v :: u64
  proof -
    from that have "v AND 2 ^ 63 = 0" by (simp only: and_exp_eq_0_iff_not_bit not_False_eq_True)
    then have "v + 2 ^ 63 = v XOR 2 ^ 63" by (rule disjunctive_add_eq_xor)
    then show ?thesis by (rule sym)
  qed
  have "w XOR 2 ^ 63 = w + (2 ^ 63 :: u64)"
  proof (cases "bit w 63")
    case True
    define m where "m = w XOR 2 ^ 63"
    have "\<not> bit m 63" using True by (simp add: m_def bit_simps)
    then have "m XOR 2 ^ 63 = m + 2 ^ 63" by (rule clear)
    moreover have "m XOR 2 ^ 63 = w" by (simp only: m_def xor.assoc xor_self_eq xor.right_neutral)
    ultimately have "w + 2 ^ 63 = m + (2 ^ 63 + 2 ^ 63)" by (simp only: add.assoc)
    also have "(2 ^ 63 + 2 ^ 63 :: u64) = 0" by simp
    finally show ?thesis by (simp add: m_def)
  qed (rule clear)
  then show ?thesis by simp
qed

lemma unat_xor_top_bit:
  "unat (w XOR 0x8000000000000000 :: u64) =
     (if 2 ^ 63 \<le> unat w then unat w - 2 ^ 63 else unat w + 2 ^ 63)"
  using unat_lt2p [of w] by (auto simp: xor_top_bit unat_plus_if')

lemma minus_one_word_64: "(- 1 :: u64) = 0xFFFFFFFFFFFFFFFF"
  by simp

lemma unat_not64: "unat (NOT w :: u64) = 2 ^ 64 - 1 - unat w"
proof -
  have "NOT w = 0xFFFFFFFFFFFFFFFF - w"
    by (simp add: not_eq_complement)
  moreover have "w \<le> 0xFFFFFFFFFFFFFFFF"
    using word_order.extremum [of w] unfolding minus_one_word_64 .
  ultimately show ?thesis by (simp add: unat_sub)
qed

section \<open>Checked slices and copies\<close>

text \<open>\<open>bytes.get(i..j)\<close>: the slice, or \<open>None\<close> when the range is not inside the buffer.\<close>

definition slice_get :: "'a list \<Rightarrow> nat \<Rightarrow> nat \<Rightarrow> 'a list option" where
  "slice_get bs i j = (if i \<le> j \<and> j \<le> length bs then Some (take (j - i) (drop i bs)) else None)"

text \<open>\<open>bytes[i..i + xs.len()].copy_from_slice(xs)\<close> for a range inside the buffer.\<close>

definition put_slice :: "'a list \<Rightarrow> nat \<Rightarrow> 'a list \<Rightarrow> 'a list" where
  "put_slice bs i xs = take i bs @ xs @ drop (i + length xs) bs"

lemma length_put_slice [simp, bytes_simps]:
  "i + length xs \<le> length bs \<Longrightarrow> length (put_slice bs i xs) = length bs"
  by (simp add: put_slice_def)

lemma slice_get_put_same [bytes_simps]:
  "i + length xs \<le> length bs \<Longrightarrow> slice_get (put_slice bs i xs) i (i + length xs) = Some xs"
  by (simp add: put_slice_def slice_get_def)

lemma put_slice_nth:
  assumes "i + length xs \<le> length bs" "k < length bs"
  shows "put_slice bs i xs ! k = (if i \<le> k \<and> k < i + length xs then xs ! (k - i) else bs ! k)"
  using assms by (auto simp: put_slice_def nth_append)

lemma slice_get_nthI:
  assumes "i \<le> j" "j \<le> length bs" "length bs = length cs"
    and "\<And>k. i \<le> k \<Longrightarrow> k < j \<Longrightarrow> bs ! k = cs ! k"
  shows "slice_get bs i j = slice_get cs i j"
  using assms by (auto simp: slice_get_def intro!: nth_equalityI)

lemma slice_get_put_other [bytes_simps]:
  assumes "j + length xs \<le> length bs" and "b \<le> j \<or> j + length xs \<le> a"
  shows "slice_get (put_slice bs j xs) a b = slice_get bs a b"
proof (cases "a \<le> b \<and> b \<le> length bs")
  case True
  then show ?thesis
    using assms by (intro slice_get_nthI) (auto simp: put_slice_nth)
next
  case False
  then show ?thesis using assms by (auto simp: slice_get_def)
qed

lemma slice_get_append1 [bytes_simps]:
  "j \<le> length xs \<Longrightarrow> slice_get (xs @ ys) i j = slice_get xs i j"
  by (auto simp: slice_get_def)

lemma slice_get_append2:
  "length xs = n \<Longrightarrow> slice_get (xs @ ys) (n + i) (n + j) = slice_get ys i j"
  by (auto simp: slice_get_def)

lemma slice_get_exact [bytes_simps]:
  "length xs = n \<Longrightarrow> n + length ys = m \<Longrightarrow> slice_get (xs @ ys @ zs) n m = Some ys"
  by (auto simp: slice_get_def)

lemma slice_get_length: "slice_get bs i j = Some xs \<Longrightarrow> length xs = j - i \<and> i \<le> j \<and> j \<le> length bs"
  by (auto simp: slice_get_def split: if_splits)

lemma slice_get_None_iff: "slice_get bs i j = None \<longleftrightarrow> j < i \<or> length bs < j"
  by (auto simp: slice_get_def)

text \<open>\<open>xs.get(i)\<close>.\<close>

definition list_get :: "'a list \<Rightarrow> nat \<Rightarrow> 'a option" where
  "list_get xs i = (if i < length xs then Some (xs ! i) else None)"

lemma list_get_Some_iff [bytes_simps]: "list_get bs i = Some b \<longleftrightarrow> i < length bs \<and> bs ! i = b"
  by (auto simp: list_get_def)

section \<open>Three-way comparison\<close>

datatype ordering = Less | Equal | Greater

definition cmp :: "'a :: linorder \<Rightarrow> 'a \<Rightarrow> ordering" where
  "cmp x y = (if x < y then Less else if x = y then Equal else Greater)"

fun then_with :: "ordering \<Rightarrow> ordering \<Rightarrow> ordering" where
  "then_with Equal d = d"
| "then_with c d = c"

lemma cmp_iff [simp, cmp_simps]:
  "cmp x y = Less \<longleftrightarrow> x < y" "cmp x y = Equal \<longleftrightarrow> x = y" "cmp x y = Greater \<longleftrightarrow> y < x"
  by (auto simp: cmp_def)

lemma then_with_iff [simp, cmp_simps]:
  "then_with c d = Less \<longleftrightarrow> c = Less \<or> (c = Equal \<and> d = Less)"
  "then_with c d = Equal \<longleftrightarrow> c = Equal \<and> d = Equal"
  "then_with c d = Greater \<longleftrightarrow> c = Greater \<or> (c = Equal \<and> d = Greater)"
  by (cases c; simp)+

text \<open>Comparing field by field is comparing the tuples of the fields.\<close>

lemma then_with_cmp_pair [cmp_simps]: "then_with (cmp a b) (cmp c d) = cmp (a, c) (b, d)"
  by (auto simp: cmp_def less_prod_def)

text \<open>The contract of Rust's \<open>Ord\<close>: a total order up to the equivalence \<open>Equal\<close>.\<close>

locale total_cmp =
  fixes ord :: "'a \<Rightarrow> 'a \<Rightarrow> ordering"
  assumes ord_refl: "ord x x = Equal"
    and ord_sym: "ord x y = Less \<longleftrightarrow> ord y x = Greater"
    and ord_trans: "ord x y \<noteq> Greater \<Longrightarrow> ord y z \<noteq> Greater \<Longrightarrow> ord x z \<noteq> Greater"
begin

lemma not_greater_total: "ord x y \<noteq> Greater \<or> ord y x \<noteq> Greater"
  by (metis ord_sym ordering.distinct(3))

lemma greater_not_greater: "ord x y = Greater \<Longrightarrow> ord y x \<noteq> Greater"
  by (metis ord_sym ordering.distinct(3))

lemma less_le_trans: "ord x y = Less \<Longrightarrow> ord y z \<noteq> Greater \<Longrightarrow> ord x z = Less"
  by (metis ord_sym ord_trans ordering.exhaust ordering.distinct)

lemma le_less_trans: "ord x y \<noteq> Greater \<Longrightarrow> ord y z = Less \<Longrightarrow> ord x z = Less"
  by (metis ord_sym ord_trans ordering.exhaust ordering.distinct)

end

interpretation linorder_cmp: total_cmp "cmp :: 'a :: linorder \<Rightarrow> 'a \<Rightarrow> ordering"
  by unfold_locales (auto simp: cmp_def split: if_splits)

section \<open>Ordered maps\<close>

text \<open>\<open>BTreeMap\<close> as the ascending list of its entries: \<open>insert\<close> replaces the value of a
  present key, \<open>range\<close> lists the entries of an interval in key order.\<close>

type_synonym ('k, 'v) btree_map = "('k \<times> 'v) list"

fun btm_insert :: "'k :: linorder \<Rightarrow> 'v \<Rightarrow> ('k, 'v) btree_map \<Rightarrow> ('k, 'v) btree_map" where
  "btm_insert k v [] = [(k, v)]"
| "btm_insert k v ((k', v') # m) =
     (if k < k' then (k, v) # (k', v') # m
      else if k = k' then (k, v) # m else (k', v') # btm_insert k v m)"

definition btm_range :: "('k :: linorder \<Rightarrow> bool) \<Rightarrow> ('k, 'v) btree_map \<Rightarrow> ('k \<times> 'v) list" where
  "btm_range P m = filter (\<lambda>(k, v). P k) m"

abbreviation btm_wf :: "('k :: linorder, 'v) btree_map \<Rightarrow> bool" where
  "btm_wf m \<equiv> sorted_wrt (<) (map fst m)"

lemma btm_insert_keys: "set (map fst (btm_insert k v m)) = insert k (set (map fst m))"
proof (induction m)
  case (Cons e m)
  then show ?case by (cases e) auto
qed simp

lemma btm_insert_wf [simp, intro]: "btm_wf m \<Longrightarrow> btm_wf (btm_insert k v m)"
proof (induction m)
  case Nil
  then show ?case by simp
next
  case (Cons e m)
  obtain k' v' where e: "e = (k', v')" by (cases e)
  consider "k < k'" | "k = k'" | "k' < k" by (rule linorder_cases)
  then show ?case
  proof cases
    case 1
    with Cons.prems e show ?thesis by (auto intro: less_trans)
  next
    case 2
    with Cons.prems e show ?thesis by auto
  next
    case 3
    with Cons e show ?thesis
      using btm_insert_keys [of k v m] by auto
  qed
qed

lemma map_of_btm_insert [simp]:
  "btm_wf m \<Longrightarrow> map_of (btm_insert k v m) = (map_of m)(k \<mapsto> v)"
  by (induction m) (auto simp: fun_eq_iff)

lemma btm_wf_distinct: "btm_wf m \<Longrightarrow> distinct (map fst m)"
  by (induction m) auto

lemma btm_wf_set_iff: "btm_wf m \<Longrightarrow> (k, v) \<in> set m \<longleftrightarrow> map_of m k = Some v"
  using btm_wf_distinct map_of_eq_Some_iff by fastforce

lemma btm_range_wf: "btm_wf m \<Longrightarrow> btm_wf (btm_range P m)"
  unfolding btm_range_def by (induction m) (auto simp: case_prod_unfold)

section \<open>Hash maps\<close>

text \<open>\<open>HashMap\<close> as an association list without duplicate keys.  Its iteration order is one of those
  the Rust type may show; the results of the operations modelled on it do not depend on it.\<close>

type_synonym ('k, 'v) hash_map = "('k \<times> 'v) list"

abbreviation hm_get :: "('k, 'v) hash_map \<Rightarrow> 'k \<Rightarrow> 'v option" where
  "hm_get m k \<equiv> map_of m k"

abbreviation hm_insert :: "'k \<Rightarrow> 'v \<Rightarrow> ('k, 'v) hash_map \<Rightarrow> ('k, 'v) hash_map" where
  "hm_insert k v m \<equiv> AList.update k v m"

text \<open>\<open>entry(k).and_modify(f).or_insert(v)\<close>.\<close>

definition hm_modify_or_insert ::
    "'k \<Rightarrow> ('v \<Rightarrow> 'v) \<Rightarrow> 'v \<Rightarrow> ('k, 'v) hash_map \<Rightarrow> ('k, 'v) hash_map" where
  "hm_modify_or_insert k f v m =
     (case hm_get m k of Some old \<Rightarrow> hm_insert k (f old) m | None \<Rightarrow> hm_insert k v m)"

abbreviation hm_wf :: "('k, 'v) hash_map \<Rightarrow> bool" where
  "hm_wf m \<equiv> distinct (map fst m)"

definition get_or :: "'v \<Rightarrow> 'v option \<Rightarrow> 'v" where
  "get_or d o' = (case o' of Some v \<Rightarrow> v | None \<Rightarrow> d)"

lemma get_or_simps [simp]: "get_or d None = d" "get_or d (Some v) = v"
  by (simp_all add: get_or_def)

lemma hm_insert_get [simp]: "hm_get (hm_insert k v m) k' = (if k' = k then Some v else hm_get m k')"
  by (simp add: update_conv')

lemma hm_insert_wf [simp, intro]: "hm_wf m \<Longrightarrow> hm_wf (hm_insert k v m)"
  by (rule distinct_update)

lemma hm_modify_get [simp]:
  "hm_get (hm_modify_or_insert k f v m) k' =
     (if k' = k then Some (case hm_get m k of Some old \<Rightarrow> f old | None \<Rightarrow> v) else hm_get m k')"
  by (simp add: hm_modify_or_insert_def split: option.splits)

lemma hm_modify_wf [simp, intro]: "hm_wf m \<Longrightarrow> hm_wf (hm_modify_or_insert k f v m)"
  by (simp add: hm_modify_or_insert_def split: option.splits)

lemma hm_values: "hm_wf m \<Longrightarrow> v \<in> snd ` set m \<longleftrightarrow> (\<exists>k. hm_get m k = Some v)"
  by (force simp: map_of_eq_Some_iff image_iff)

section \<open>Selecting list elements by position\<close>

lemma filter_zip_nths:
  assumes "length keep = length xs"
  shows "map fst (filter snd (zip xs keep)) = nths xs {i. i < length xs \<and> keep ! i}"
  using assms
proof (induction keep xs rule: list_induct2)
  case (Cons k ks x xs)
  have "{j. Suc j < length (x # xs) \<and> (k # ks) ! Suc j} = {j. j < length xs \<and> ks ! j}" by auto
  then show ?case using Cons by (simp add: nths_Cons)
qed simp

lemma nth_fold_list_update:
  assumes "i < length ks"
  shows "fold (\<lambda>j ks. ks[j := p j]) js ks ! i = (if i \<in> set js then p i else ks ! i)"
  using assms by (induction js arbitrary: ks) (auto simp: nth_list_update)

lemma length_fold_list_update [simp]:
  "length (fold (\<lambda>j ks. ks[j := p j]) js ks) = length ks"
  by (induction js arbitrary: ks) auto

lemma nths_alt: "nths xs A = map ((!) xs) (filter (\<lambda>i. i \<in> A) [0..<length xs])"
proof (induction xs rule: rev_induct)
  case (snoc x xs)
  have "map ((!) (xs @ [x])) (filter (\<lambda>i. i \<in> A) [0..<length xs]) =
      map ((!) xs) (filter (\<lambda>i. i \<in> A) [0..<length xs])"
    by (auto simp: nth_append)
  then show ?case using snoc by (simp add: nths_append nths_Cons)
qed simp

lemma set_nths_iff: "x \<in> set (nths xs A) \<longleftrightarrow> (\<exists>i<length xs. i \<in> A \<and> xs ! i = x)"
  by (auto simp: set_nths)

lemma distinct_map_nths:
  assumes "\<And>i j. i \<in> A \<Longrightarrow> j \<in> A \<Longrightarrow> i < length xs \<Longrightarrow> j < length xs \<Longrightarrow> f (xs ! i) = f (xs ! j) \<Longrightarrow> i = j"
  shows "distinct (map f (nths xs A))"
  using assms by (auto simp: nths_alt distinct_map inj_on_def comp_def)

lemma subseq_nths: "subseq (nths xs A) xs"
  unfolding nths_def
  by (metis (no_types, lifting) subseq_filter_left subseq_map map_fst_zip length_upt minus_nat.diff_0)

end
