(* ===== verification/Rust_Std.thy ===== *)
theory Rust_Std
  imports Vicia_Prelude
begin

text \<open>
  The parts of Rust's standard library that the storage layer uses: results as a sum whose left
  summand is the error, with the combinators behind \<open>?\<close>, \<open>ok_or_else\<close> and \<open>bail!\<close>; checked and
  saturating arithmetic on \<open>u64\<close>; little-endian fields read at an offset; and \<open>std::fs::File\<close> as a
  byte sequence with a position.
\<close>

section \<open>Results\<close>

fun res_bind :: "'e + 'a \<Rightarrow> ('a \<Rightarrow> 'e + 'b) \<Rightarrow> 'e + 'b" where
  "res_bind (Inl e) k = Inl e"
| "res_bind (Inr x) k = k x"

definition ok_or :: "'e \<Rightarrow> 'a option \<Rightarrow> 'e + 'a" where
  "ok_or e r = (case r of None \<Rightarrow> Inl e | Some x \<Rightarrow> Inr x)"

definition bail_if :: "bool \<Rightarrow> 'e \<Rightarrow> ('e + 'a) \<Rightarrow> 'e + 'a" where
  "bail_if c e k = (if c then Inl e else k)"

definition map_err :: "('e \<Rightarrow> 'f) \<Rightarrow> 'e + 'a \<Rightarrow> 'f + 'a" where
  "map_err g r = (case r of Inl e \<Rightarrow> Inl (g e) | Inr x \<Rightarrow> Inr x)"

definition is_ok :: "'e + 'a \<Rightarrow> bool" where
  "is_ok r = (case r of Inl _ \<Rightarrow> False | Inr _ \<Rightarrow> True)"

lemma ok_or_simps [simp]: "ok_or e None = Inl e" "ok_or e (Some x) = Inr x"
  by (simp_all add: ok_or_def)

lemma ok_or_eq [simp]: "ok_or e r = Inr x \<longleftrightarrow> r = Some x" "ok_or e r = Inl e' \<longleftrightarrow> r = None \<and> e' = e"
  by (auto simp: ok_or_def split: option.splits)

lemma map_err_simps [simp]: "map_err g (Inl e) = Inl (g e)" "map_err g (Inr x) = Inr x"
  by (simp_all add: map_err_def)

lemma map_err_Inr [simp]: "map_err g r = Inr x \<longleftrightarrow> r = Inr x"
  by (cases r) simp_all

lemma is_ok_simps [simp]: "is_ok (Inl e) = False" "is_ok (Inr x) = True"
  by (simp_all add: is_ok_def)

lemma bail_if_simps [simp]: "bail_if False e k = k" "bail_if True e k = Inl e"
  by (simp_all add: bail_if_def)

lemma bail_if_Inr: "bail_if c e k = Inr x \<longleftrightarrow> \<not> c \<and> k = Inr x"
  by (simp add: bail_if_def)

lemma res_bind_Inr: "res_bind r k = Inr y \<longleftrightarrow> (\<exists>x. r = Inr x \<and> k x = Inr y)"
  by (cases r) simp_all

lemma res_bind_ok [simp]: "res_bind r Inr = r"
  by (cases r) simp_all

lemmas res_Inr = res_bind_Inr bail_if_Inr

fun res_fold :: "('a \<Rightarrow> 's \<Rightarrow> 'e + 's) \<Rightarrow> 'a list \<Rightarrow> 's \<Rightarrow> 'e + 's" where
  "res_fold f [] s = Inr s"
| "res_fold f (x # xs) s = res_bind (f x s) (res_fold f xs)"

lemma res_fold_append [simp]: "res_fold f (xs @ ys) s = res_bind (res_fold f xs s) (res_fold f ys)"
proof (induction xs arbitrary: s)
  case (Cons x xs)
  then show ?case by (cases "f x s") simp_all
qed simp

lemma res_fold_map: "res_fold f (map g xs) = res_fold (\<lambda>x. f (g x)) xs"
proof (induction xs)
  case Nil
  show ?case by (rule ext) simp
next
  case (Cons x xs)
  show ?case by (rule ext) (simp add: Cons)
qed

lemma res_fold_collect:
  assumes "\<And>i s. i < length xss \<Longrightarrow> step i s = Inr (s @ xss ! i)"
  shows "res_fold step [0..<length xss] s = Inr (s @ concat xss)"
  using assms
proof (induction xss arbitrary: s rule: rev_induct)
  case (snoc xs xss)
  then have "res_fold step [0..<length xss] s = Inr (s @ concat xss)"
    by (metis length_append_singleton less_Suc_eq nth_append snoc.IH)
  then show ?case using snoc.prems [of "length xss"] by simp
qed simp

fun res_map :: "('a \<Rightarrow> 'e + 'b) \<Rightarrow> 'a list \<Rightarrow> 'e + 'b list" where
  "res_map f [] = Inr []"
| "res_map f (x # xs) = res_bind (f x) (\<lambda>y. res_bind (res_map f xs) (\<lambda>ys. Inr (y # ys)))"

lemma res_map_Inr_iff: "res_map f xs = Inr ys \<longleftrightarrow> map f xs = map Inr ys"
  by (induction xs arbitrary: ys) (auto simp: res_bind_Inr map_eq_Cons_conv Cons_eq_map_conv)

lemma res_map_length: "res_map f xs = Inr ys \<Longrightarrow> length ys = length xs"
proof -
  assume "res_map f xs = Inr ys"
  then have "map f xs = map Inr ys" by (simp add: res_map_Inr_iff)
  from arg_cong [OF this, of length] show ?thesis by simp
qed

lemma res_map_Inr [simp]: "res_map (\<lambda>x. Inr (g x)) xs = Inr (map g xs)"
  by (induction xs) simp_all

section \<open>Arithmetic on \<open>u64\<close>\<close>

definition u64_checked_add :: "u64 \<Rightarrow> u64 \<Rightarrow> u64 option" where
  "u64_checked_add a b = (if unat a + unat b < 2 ^ 64 then Some (a + b) else None)"

definition u64_checked_sub :: "u64 \<Rightarrow> u64 \<Rightarrow> u64 option" where
  "u64_checked_sub a b = (if b \<le> a then Some (a - b) else None)"

definition u64_checked_mul :: "u64 \<Rightarrow> u64 \<Rightarrow> u64 option" where
  "u64_checked_mul a b = (if unat a * unat b < 2 ^ 64 then Some (a * b) else None)"

definition u64_saturating_add :: "u64 \<Rightarrow> u64 \<Rightarrow> u64" where
  "u64_saturating_add a b = (if unat a + unat b < 2 ^ 64 then a + b else - 1)"

definition u64_saturating_sub :: "u64 \<Rightarrow> u64 \<Rightarrow> u64" where
  "u64_saturating_sub a b = (if b \<le> a then a - b else 0)"

lemma unat_add64: "unat a + unat b < 2 ^ 64 \<Longrightarrow> unat (a + b :: u64) = unat a + unat b"
  by (simp add: unat_word_ariths)

lemma unat_mul64: "unat a * unat b < 2 ^ 64 \<Longrightarrow> unat (a * b :: u64) = unat a * unat b"
  by (simp add: unat_word_ariths)

lemma unat_sub_word: "b \<le> a \<Longrightarrow> unat (a - b) = unat a - unat (b :: 'a :: len word)"
  by (simp add: unat_sub_if' word_le_nat_alt)

lemma u64_checked_add_Some: "u64_checked_add a b = Some c \<longleftrightarrow> unat c = unat a + unat b"
proof
  assume "u64_checked_add a b = Some c"
  then show "unat c = unat a + unat b" by (auto simp: u64_checked_add_def unat_add64 split: if_splits)
next
  assume c: "unat c = unat a + unat b"
  have lt: "unat a + unat b < 2 ^ 64" using unat_lt2p [of c] c by simp
  then have "unat (a + b) = unat c" using c by (simp add: unat_add64)
  then have "a + b = c" by (rule word_unat_eq_iff [THEN iffD2])
  with lt show "u64_checked_add a b = Some c" by (simp add: u64_checked_add_def)
qed

lemma u64_checked_mul_Some: "u64_checked_mul a b = Some c \<longleftrightarrow> unat c = unat a * unat b"
proof
  assume "u64_checked_mul a b = Some c"
  then show "unat c = unat a * unat b" by (auto simp: u64_checked_mul_def unat_mul64 split: if_splits)
next
  assume c: "unat c = unat a * unat b"
  have lt: "unat a * unat b < 2 ^ 64" using unat_lt2p [of c] c by simp
  then have "unat (a * b) = unat c" using c by (simp add: unat_mul64)
  then have "a * b = c" by (rule word_unat_eq_iff [THEN iffD2])
  with lt show "u64_checked_mul a b = Some c" by (simp add: u64_checked_mul_def)
qed

lemma u64_checked_sub_Some: "u64_checked_sub a b = Some c \<longleftrightarrow> b \<le> a \<and> c = a - b"
  by (auto simp: u64_checked_sub_def)

section \<open>Little-endian fields\<close>

text \<open>\<open>read_u32_le\<close> and \<open>read_u64_le\<close> of the storage modules: \<open>None\<close> when the slice is out of bounds.\<close>

definition read_u16_le :: "bytes \<Rightarrow> nat \<Rightarrow> u16 option" where
  "read_u16_le bs i = map_option u16_from_le_bytes (slice_get bs i (i + 2))"

definition read_u32_le :: "bytes \<Rightarrow> nat \<Rightarrow> u32 option" where
  "read_u32_le bs i = map_option u32_from_le_bytes (slice_get bs i (i + 4))"

definition read_u64_le :: "bytes \<Rightarrow> nat \<Rightarrow> u64 option" where
  "read_u64_le bs i = map_option u64_from_le_bytes (slice_get bs i (i + 8))"

text \<open>Reading a field of a concatenation of fields: skip what lies before it, then take it.\<close>

named_theorems le_field

lemma slice_get_skip [le_field]:
  "length xs \<le> i \<Longrightarrow> i \<le> j \<Longrightarrow> slice_get (xs @ ys) i j = slice_get ys (i - length xs) (j - length xs)"
  by (auto simp: slice_get_def)

lemma slice_get_here [le_field]:
  "length xs = n \<Longrightarrow> slice_get (xs @ ys) 0 n = Some xs" "length xs = n \<Longrightarrow> slice_get xs 0 n = Some xs"
  by (auto simp: slice_get_def)

lemma list_get_skip [le_field]:
  "length xs \<le> i \<Longrightarrow> list_get (xs @ ys) i = list_get ys (i - length xs)"
  "0 < i \<Longrightarrow> list_get (x # ys) i = list_get ys (i - 1)"
  "list_get (x # ys) 0 = Some x"
  "i < length xs \<Longrightarrow> list_get (xs @ ys) i = Some (xs ! i)"
  by (auto simp: list_get_def nth_append)

lemma read_le_skip [le_field]:
  "length xs \<le> i \<Longrightarrow> read_u16_le (xs @ ys) i = read_u16_le ys (i - length xs)"
  "length xs \<le> i \<Longrightarrow> read_u32_le (xs @ ys) i = read_u32_le ys (i - length xs)"
  "length xs \<le> i \<Longrightarrow> read_u64_le (xs @ ys) i = read_u64_le ys (i - length xs)"
  by (auto simp: read_u16_le_def read_u32_le_def read_u64_le_def slice_get_skip Suc_diff_le)

lemma read_le_skip_Cons [le_field]:
  "0 < i \<Longrightarrow> read_u16_le (x # ys) i = read_u16_le ys (i - 1)"
  "0 < i \<Longrightarrow> read_u32_le (x # ys) i = read_u32_le ys (i - 1)"
  "0 < i \<Longrightarrow> read_u64_le (x # ys) i = read_u64_le ys (i - 1)"
  using read_le_skip [of "[x]" i ys] by simp_all

lemma read_le_here [le_field]:
  "read_u16_le (u16_to_le_bytes a @ ys) 0 = Some a" "read_u16_le (u16_to_le_bytes a) 0 = Some a"
  "read_u32_le (u32_to_le_bytes b @ ys) 0 = Some b" "read_u32_le (u32_to_le_bytes b) 0 = Some b"
  "read_u64_le (u64_to_le_bytes c @ ys) 0 = Some c" "read_u64_le (u64_to_le_bytes c) 0 = Some c"
  by (simp_all add: read_u16_le_def read_u32_le_def read_u64_le_def slice_get_here)

lemma read_le_Some:
  "i + 2 \<le> length bs \<Longrightarrow> \<exists>a. read_u16_le bs i = Some a"
  "i + 4 \<le> length bs \<Longrightarrow> \<exists>b. read_u32_le bs i = Some b"
  "i + 8 \<le> length bs \<Longrightarrow> \<exists>c. read_u64_le bs i = Some c"
  by (auto simp: read_u16_le_def read_u32_le_def read_u64_le_def slice_get_def)

text \<open>A field determines the bytes it was read from.\<close>

lemma u32_to_from_le: "length bs = 4 \<Longrightarrow> u32_to_le_bytes (u32_from_le_bytes bs) = bs"
proof -
  assume l: "length bs = 4"
  have "le_nat bs < 2 ^ 32" using le_nat_less [of bs] l by simp
  then have "unat (u32_from_le_bytes bs) = le_nat bs" by (simp add: u32_from_le_bytes_def unat_of_nat_eq)
  then show ?thesis using le_bytes_le_nat [OF l] by simp
qed

lemma u64_to_from_le: "length bs = 8 \<Longrightarrow> u64_to_le_bytes (u64_from_le_bytes bs) = bs"
proof -
  assume l: "length bs = 8"
  have "le_nat bs < 2 ^ 64" using le_nat_less [of bs] l by simp
  then have "unat (u64_from_le_bytes bs) = le_nat bs" by (simp add: u64_from_le_bytes_def unat_of_nat_eq)
  then show ?thesis using le_bytes_le_nat [OF l] by simp
qed

lemma read_le_bytes:
  "read_u32_le bs i = Some a \<Longrightarrow> drop i bs = u32_to_le_bytes a @ drop (i + 4) bs"
  "read_u64_le bs i = Some b \<Longrightarrow> drop i bs = u64_to_le_bytes b @ drop (i + 8) bs"
proof -
  assume "read_u32_le bs i = Some a"
  then have "i + 4 \<le> length bs" "a = u32_from_le_bytes (take 4 (drop i bs))"
    by (auto simp: read_u32_le_def slice_get_def split: if_splits)
  then have "u32_to_le_bytes a = take 4 (drop i bs)" by (simp add: u32_to_from_le)
  then show "drop i bs = u32_to_le_bytes a @ drop (i + 4) bs"
    using append_take_drop_id [of 4 "drop i bs"] by (simp add: add.commute)
next
  assume "read_u64_le bs i = Some b"
  then have "i + 8 \<le> length bs" "b = u64_from_le_bytes (take 8 (drop i bs))"
    by (auto simp: read_u64_le_def slice_get_def split: if_splits)
  then have "u64_to_le_bytes b = take 8 (drop i bs)" by (simp add: u64_to_from_le)
  then show "drop i bs = u64_to_le_bytes b @ drop (i + 8) bs"
    using append_take_drop_id [of 8 "drop i bs"] by (simp add: add.commute)
qed

text \<open>An array of \<open>u32\<close> fields.\<close>

lemma length_concat_u32 [simp]: "length (concat (map u32_to_le_bytes cs)) = 4 * length cs"
  by (induction cs) simp_all

lemma read_u32_array:
  "i < length cs \<Longrightarrow> read_u32_le (concat (map u32_to_le_bytes cs)) (i * 4) = Some (cs ! i)"
proof (induction cs arbitrary: i)
  case (Cons c cs)
  then show ?case by (cases i) (simp_all add: le_field)
qed simp

lemma u32_array_bytes:
  assumes "length bs = 4 * length cs" "\<And>i. i < length cs \<Longrightarrow> read_u32_le bs (i * 4) = Some (cs ! i)"
  shows "bs = concat (map u32_to_le_bytes cs)"
  using assms
proof (induction cs arbitrary: bs)
  case (Cons c cs)
  have bs: "bs = u32_to_le_bytes c @ drop 4 bs"
    using read_le_bytes(1) [of bs 0 c] Cons.prems(2) [of 0] by simp
  have "drop 4 bs = concat (map u32_to_le_bytes cs)"
  proof (rule Cons.IH)
    show "length (drop 4 bs) = 4 * length cs" using Cons.prems(1) by simp
    show "read_u32_le (drop 4 bs) (i * 4) = Some (cs ! i)" if "i < length cs" for i
    proof -
      have "read_u32_le (u32_to_le_bytes c @ drop 4 bs) (Suc i * 4) = Some ((c # cs) ! Suc i)"
        using Cons.prems(2) [of "Suc i"] that bs by simp
      then show ?thesis by (simp add: read_le_skip)
    qed
  qed
  then show ?case using bs by simp
qed simp

section \<open>Files\<close>

text \<open>\<open>seek\<close> may leave the position past the end; the gap reads as zeros once something is written
  behind it.\<close>

record os_file =
  fl_data :: bytes
  fl_pos :: nat

definition file_of :: "bytes \<Rightarrow> os_file" where
  "file_of bs = \<lparr> fl_data = bs, fl_pos = 0 \<rparr>"

definition file_write_all :: "bytes \<Rightarrow> os_file \<Rightarrow> os_file" where
  "file_write_all bs f =
     \<lparr> fl_data = take (fl_pos f) (fl_data f) @ replicate (fl_pos f - length (fl_data f)) 0
                 @ bs @ drop (fl_pos f + length bs) (fl_data f),
       fl_pos = fl_pos f + length bs \<rparr>"

definition file_seek :: "nat \<Rightarrow> os_file \<Rightarrow> os_file" where
  "file_seek p f = f\<lparr> fl_pos := p \<rparr>"

definition file_seek_end :: "os_file \<Rightarrow> os_file" where
  "file_seek_end f = f\<lparr> fl_pos := length (fl_data f) \<rparr>"

definition file_read_exact :: "nat \<Rightarrow> os_file \<Rightarrow> (bytes \<times> os_file) option" where
  "file_read_exact n f =
     (case slice_get (fl_data f) (fl_pos f) (fl_pos f + n) of
        None \<Rightarrow> None
      | Some bs \<Rightarrow> Some (bs, f\<lparr> fl_pos := fl_pos f + n \<rparr>))"

lemma file_read_exact_Some:
  "file_read_exact n f = Some (bs, f') \<longleftrightarrow>
     fl_pos f + n \<le> length (fl_data f) \<and> bs = take n (drop (fl_pos f) (fl_data f)) \<and>
     f' = f\<lparr> fl_pos := fl_pos f + n \<rparr>"
  by (auto simp: file_read_exact_def slice_get_def split: option.splits if_splits)

lemma file_write_all_end:
  assumes "fl_pos f = length (fl_data f)"
  shows "file_write_all bs f = \<lparr> fl_data = fl_data f @ bs, fl_pos = length (fl_data f @ bs) \<rparr>"
  using assms by (simp add: file_write_all_def)

lemma file_write_all_length:
  "length (fl_data (file_write_all bs f)) = max (length (fl_data f)) (fl_pos f + length bs)"
  by (auto simp: file_write_all_def)

lemma slice_get_write_same:
  "slice_get (fl_data (file_write_all bs f)) (fl_pos f) (fl_pos f + length bs) = Some bs"
  by (auto simp: file_write_all_def slice_get_def)

lemma file_write_all_nth:
  assumes "i < length (fl_data f)" "i < fl_pos f \<or> fl_pos f + length bs \<le> i"
  shows "fl_data (file_write_all bs f) ! i = fl_data f ! i"
  using assms by (auto simp: file_write_all_def nth_append min_def)

lemma slice_get_write_other:
  assumes "slice_get (fl_data f) i j = Some xs" "j \<le> fl_pos f \<or> fl_pos f + length bs \<le> i"
  shows "slice_get (fl_data (file_write_all bs f)) i j = Some xs"
proof -
  have ij: "i \<le> j" "j \<le> length (fl_data f)" and len: "length xs = j - i"
    using slice_get_length [OF assms(1)] by auto
  have nth: "xs ! k = fl_data f ! (i + k)" if "k < j - i" for k
    using assms(1) that by (auto simp: slice_get_def split: if_splits)
  have "take (j - i) (drop i (fl_data (file_write_all bs f))) = xs"
  proof (rule nth_equalityI)
    show "length (take (j - i) (drop i (fl_data (file_write_all bs f)))) = length xs"
      using ij len by (auto simp: file_write_all_length)
    fix k assume "k < length (take (j - i) (drop i (fl_data (file_write_all bs f))))"
    then have k: "k < j - i" by simp
    have "i + k < length (fl_data f)" using k ij by simp
    moreover have "i + k < fl_pos f \<or> fl_pos f + length bs \<le> i + k" using assms(2) k by auto
    ultimately show "take (j - i) (drop i (fl_data (file_write_all bs f))) ! k = xs ! k"
      using nth [OF k] k ij by (simp add: file_write_all_nth file_write_all_length)
  qed
  then show ?thesis using ij by (simp add: slice_get_def file_write_all_length)
qed

end
