(* ===== verification/File_Header.thy ===== *)
theory File_Header
  imports Rust_Std
begin

text \<open>
  The page size, the format versions and the file header of \<open>src/src/storage/mod.rs\<close>, with the
  classification of storage failures.  The lemmas show that a header is read back from its bytes
  up to the fields its format version has, and which headers \<open>validate\<close> accepts.
\<close>

section \<open>Constants\<close>

definition PAGE_SIZE :: nat where
  "PAGE_SIZE = 4096"

definition PAGE_SIZE_u64 :: u64 where
  "PAGE_SIZE_u64 = 4096"

definition MAGIC_NUMBER :: bytes where
  "MAGIC_NUMBER = [0x4D, 0x47, 0x52, 0x46]"

definition FORMAT_VERSION :: u32 where
  "FORMAT_VERSION = 12"

definition MAX_READABLE_FORMAT_VERSION :: u32 where
  "MAX_READABLE_FORMAT_VERSION = 13"

definition FACT_PAGE_FORMAT_ONE_PER_PAGE :: u8 where
  "FACT_PAGE_FORMAT_ONE_PER_PAGE = 1"

definition FACT_PAGE_FORMAT_PACKED :: u8 where
  "FACT_PAGE_FORMAT_PACKED = 2"

section \<open>Storage failures\<close>

text \<open>An \<open>anyhow::Error\<close> either carries a disposition or not; marking keeps an existing one.\<close>

datatype storage_failure_disposition = Recoverable | Fatal

datatype 'e storage_error = Plain 'e | StorageFailure storage_failure_disposition 'e

fun mark_storage_failure ::
    "'e storage_error \<Rightarrow> storage_failure_disposition \<Rightarrow> 'e storage_error" where
  "mark_storage_failure (Plain e) d = StorageFailure d e"
| "mark_storage_failure (StorageFailure d' e) d = StorageFailure d' e"

fun storage_failure_disposition_of :: "'e storage_error \<Rightarrow> storage_failure_disposition option" where
  "storage_failure_disposition_of (Plain e) = None"
| "storage_failure_disposition_of (StorageFailure d e) = Some d"

fun storage_error_text :: "'e storage_error \<Rightarrow> 'e" where
  "storage_error_text (Plain e) = e"
| "storage_error_text (StorageFailure d e) = e"

lemma mark_storage_failure_first:
  "storage_failure_disposition_of (mark_storage_failure (mark_storage_failure e d) d') =
     storage_failure_disposition_of (mark_storage_failure e d)"
  "storage_error_text (mark_storage_failure e d) = storage_error_text e"
  by (cases e; simp)+

section \<open>The header\<close>

datatype header_error = HeaderTooShort nat nat | InvalidMagic | UnsupportedVersion u32
  | ZeroPageCount | RootOutOfRange u64 u64 | FactPagesExceedPages u64 u64

record file_header =
  fh_magic :: bytes
  fh_version :: u32
  fh_page_count :: u64
  fh_node_count :: u64
  fh_last_checkpointed_tx_count :: u64
  fh_eavt_root_page :: u64
  fh_aevt_root_page :: u64
  fh_avet_root_page :: u64
  fh_vaet_root_page :: u64
  fh_index_checksum :: u32
  fh_fact_page_format :: u8
  fh_padding :: bytes
  fh_fact_page_count :: u64
  fh_header_checksum :: u32

definition file_header_new :: file_header where
  "file_header_new = \<lparr> fh_magic = MAGIC_NUMBER, fh_version = FORMAT_VERSION, fh_page_count = 1,
     fh_node_count = 0, fh_last_checkpointed_tx_count = 0, fh_eavt_root_page = 0,
     fh_aevt_root_page = 0, fh_avet_root_page = 0, fh_vaet_root_page = 0, fh_index_checksum = 0,
     fh_fact_page_format = FACT_PAGE_FORMAT_PACKED, fh_padding = [0, 0, 0],
     fh_fact_page_count = 0, fh_header_checksum = 0 \<rparr>"

definition file_header_to_bytes :: "file_header \<Rightarrow> bytes" where
  "file_header_to_bytes h =
     fh_magic h @ u32_to_le_bytes (fh_version h) @ u64_to_le_bytes (fh_page_count h)
     @ u64_to_le_bytes (fh_node_count h) @ u64_to_le_bytes (fh_last_checkpointed_tx_count h)
     @ u64_to_le_bytes (fh_eavt_root_page h) @ u64_to_le_bytes (fh_aevt_root_page h)
     @ u64_to_le_bytes (fh_avet_root_page h) @ u64_to_le_bytes (fh_vaet_root_page h)
     @ u32_to_le_bytes (fh_index_checksum h) @ [fh_fact_page_format h] @ fh_padding h
     @ u64_to_le_bytes (fh_fact_page_count h) @ u32_to_le_bytes (fh_header_checksum h)"

abbreviation header_u32 :: "bytes \<Rightarrow> nat \<Rightarrow> header_error + u32" where
  "header_u32 bs i \<equiv> ok_or (HeaderTooShort (i + 4) (length bs)) (read_u32_le bs i)"

abbreviation header_u64 :: "bytes \<Rightarrow> nat \<Rightarrow> header_error + u64" where
  "header_u64 bs i \<equiv> ok_or (HeaderTooShort (i + 8) (length bs)) (read_u64_le bs i)"

abbreviation header_u8 :: "bytes \<Rightarrow> nat \<Rightarrow> header_error + u8" where
  "header_u8 bs i \<equiv> ok_or (HeaderTooShort (i + 1) (length bs)) (list_get bs i)"

definition file_header_from_bytes :: "bytes \<Rightarrow> header_error + file_header" where
  "file_header_from_bytes bs =
     bail_if (length bs < 64) (HeaderTooShort 64 (length bs)) (
     res_bind (ok_or (HeaderTooShort 4 (length bs)) (slice_get bs 0 4)) (\<lambda>magic.
     bail_if (magic \<noteq> MAGIC_NUMBER) InvalidMagic (
     res_bind (header_u32 bs 4) (\<lambda>version.
     res_bind (header_u64 bs 8) (\<lambda>page_count.
     res_bind (header_u64 bs 16) (\<lambda>node_count.
     res_bind (header_u64 bs 24) (\<lambda>last_checkpointed.
     if version \<le> 3 then
       Inr \<lparr> fh_magic = magic, fh_version = version, fh_page_count = page_count,
         fh_node_count = node_count, fh_last_checkpointed_tx_count = last_checkpointed,
         fh_eavt_root_page = 0, fh_aevt_root_page = 0, fh_avet_root_page = 0,
         fh_vaet_root_page = 0, fh_index_checksum = 0, fh_fact_page_format = 0,
         fh_padding = [0, 0, 0], fh_fact_page_count = 0, fh_header_checksum = 0 \<rparr>
     else bail_if (length bs < 72) (HeaderTooShort 72 (length bs)) (
     res_bind (if version \<ge> 6
               then bail_if (length bs < 80) (HeaderTooShort 80 (length bs)) (header_u64 bs 72)
               else Inr 0) (\<lambda>fact_page_count.
     res_bind (if version \<ge> 7
               then bail_if (length bs < 84) (HeaderTooShort 84 (length bs)) (header_u32 bs 80)
               else Inr 0) (\<lambda>header_checksum.
     res_bind (header_u64 bs 32) (\<lambda>eavt.
     res_bind (header_u64 bs 40) (\<lambda>aevt.
     res_bind (header_u64 bs 48) (\<lambda>avet.
     res_bind (header_u64 bs 56) (\<lambda>vaet.
     res_bind (header_u32 bs 64) (\<lambda>index_checksum.
     res_bind (header_u8 bs 68) (\<lambda>fact_page_format.
     res_bind (header_u8 bs 69) (\<lambda>p0.
     res_bind (header_u8 bs 70) (\<lambda>p1.
     res_bind (header_u8 bs 71) (\<lambda>p2.
       Inr \<lparr> fh_magic = magic, fh_version = version, fh_page_count = page_count,
         fh_node_count = node_count, fh_last_checkpointed_tx_count = last_checkpointed,
         fh_eavt_root_page = eavt, fh_aevt_root_page = aevt, fh_avet_root_page = avet,
         fh_vaet_root_page = vaet, fh_index_checksum = index_checksum,
         fh_fact_page_format = fact_page_format, fh_padding = [p0, p1, p2],
         fh_fact_page_count = fact_page_count, fh_header_checksum = header_checksum \<rparr>)))))))))))))))))))"

definition file_header_validate :: "file_header \<Rightarrow> header_error + unit" where
  "file_header_validate h =
     bail_if (fh_magic h \<noteq> MAGIC_NUMBER) InvalidMagic (
     bail_if (fh_version h < 1 \<or> fh_version h > MAX_READABLE_FORMAT_VERSION)
       (UnsupportedVersion (fh_version h)) (
     bail_if (fh_page_count h = 0) ZeroPageCount (
     bail_if (fh_eavt_root_page h \<noteq> 0 \<and> fh_eavt_root_page h \<ge> fh_page_count h)
       (RootOutOfRange (fh_eavt_root_page h) (fh_page_count h)) (
     bail_if (fh_fact_page_count h > fh_page_count h)
       (FactPagesExceedPages (fh_fact_page_count h) (fh_page_count h)) (
     Inr ())))))"

section \<open>Round trip\<close>

text \<open>The arrays of the record have their Rust lengths.\<close>

definition header_wf :: "file_header \<Rightarrow> bool" where
  "header_wf h \<longleftrightarrow> length (fh_magic h) = 4 \<and> length (fh_padding h) = 3"

text \<open>The fields that a header of an older format version does not have.\<close>

definition header_at_version :: "file_header \<Rightarrow> file_header" where
  "header_at_version h =
     (if fh_version h \<le> 3 then
        h\<lparr> fh_eavt_root_page := 0, fh_aevt_root_page := 0, fh_avet_root_page := 0,
           fh_vaet_root_page := 0, fh_index_checksum := 0, fh_fact_page_format := 0,
           fh_padding := [0, 0, 0], fh_fact_page_count := 0, fh_header_checksum := 0 \<rparr>
      else if fh_version h < 6 then h\<lparr> fh_fact_page_count := 0, fh_header_checksum := 0 \<rparr>
      else if fh_version h < 7 then h\<lparr> fh_header_checksum := 0 \<rparr> else h)"

lemma length_file_header_to_bytes [simp]:
  "header_wf h \<Longrightarrow> length (file_header_to_bytes h) = 84"
  by (simp add: header_wf_def file_header_to_bytes_def)

lemma list3_get: "length xs = 3 \<Longrightarrow> [xs ! 0, xs ! 1, xs ! 2] = xs"
  by (auto simp: length_Suc_conv numeral_3_eq_3)

lemma file_header_magic_roundtrip:
  assumes "header_wf h" "fh_magic h = MAGIC_NUMBER"
  shows "file_header_from_bytes (file_header_to_bytes h @ rest) = Inr (header_at_version h)"
proof -
  have wf: "length (fh_magic h) = 4" "length (fh_padding h) = 3" using assms(1) by (auto simp: header_wf_def)
  let ?bs = "file_header_to_bytes h @ rest"
  note le = file_header_to_bytes_def wf le_field append_assoc
  have fields:
    "slice_get ?bs 0 4 = Some (fh_magic h)" "read_u32_le ?bs 4 = Some (fh_version h)"
    "read_u64_le ?bs 8 = Some (fh_page_count h)" "read_u64_le ?bs 16 = Some (fh_node_count h)"
    "read_u64_le ?bs 24 = Some (fh_last_checkpointed_tx_count h)"
    "read_u64_le ?bs 32 = Some (fh_eavt_root_page h)" "read_u64_le ?bs 40 = Some (fh_aevt_root_page h)"
    "read_u64_le ?bs 48 = Some (fh_avet_root_page h)" "read_u64_le ?bs 56 = Some (fh_vaet_root_page h)"
    "read_u32_le ?bs 64 = Some (fh_index_checksum h)" "list_get ?bs 68 = Some (fh_fact_page_format h)"
    "list_get ?bs 69 = Some (fh_padding h ! 0)" "list_get ?bs 70 = Some (fh_padding h ! 1)"
    "list_get ?bs 71 = Some (fh_padding h ! 2)" "read_u64_le ?bs 72 = Some (fh_fact_page_count h)"
    "read_u32_le ?bs 80 = Some (fh_header_checksum h)"
    by (simp_all add: le del: le_bytes.simps)
  have v: "6 \<le> fh_version h" if "7 \<le> fh_version h" using that by (rule order.trans [rotated]) simp
  have "\<not> length ?bs < 84" using assms(1) by simp
  then show ?thesis
    using assms(2) list3_get [OF wf(2)] v
    by (simp add: file_header_from_bytes_def fields header_at_version_def del: length_append)
       (auto)
qed

text \<open>A header written with \<open>to_bytes\<close>, possibly followed by the rest of its page, is read
  back by \<open>from_bytes\<close> with every field that its format version has; the fields introduced by later
  versions read as zero.\<close>

theorem file_header_roundtrip:
  assumes "header_wf h" "fh_magic h = MAGIC_NUMBER"
  shows "file_header_from_bytes (file_header_to_bytes h @ rest) = Inr (header_at_version h)"
  using assms by (rule file_header_magic_roundtrip)

theorem file_header_roundtrip_witness:
  "file_header_from_bytes (file_header_to_bytes file_header_new @ replicate 4012 0) =
     Inr (header_at_version file_header_new)"
  by (rule file_header_roundtrip) (simp_all add: header_wf_def file_header_new_def MAGIC_NUMBER_def)

lemma file_header_validate_ok:
  "file_header_validate h = Inr () \<longleftrightarrow> fh_magic h = MAGIC_NUMBER \<and> fh_version h \<noteq> 0 \<and>
     fh_version h \<le> MAX_READABLE_FORMAT_VERSION \<and> fh_page_count h \<noteq> 0 \<and>
     (fh_eavt_root_page h = 0 \<or> fh_eavt_root_page h < fh_page_count h) \<and>
     fh_fact_page_count h \<le> fh_page_count h"
  by (auto simp: file_header_validate_def bail_if_def)

end
