(* ===== verification/Page_Integrity.thy ===== *)
theory Page_Integrity
  imports File_Header
begin

text \<open>
  The base-page integrity catalog of \<open>src/src/storage/page_integrity.rs\<close>: one checksum per page of a
  published base, bound to the generation of the base and to the page number.  The checksum function
  (\<open>crc32fast\<close>) is the parameter \<open>crc\<close>; feeding a hasher several slices hashes their concatenation.
  Encoding and decoding are inverse to each other in both directions.
\<close>

section \<open>Definitions\<close>

definition PAGE_INTEGRITY_CATALOG_MAGIC :: bytes where
  "PAGE_INTEGRITY_CATALOG_MAGIC = as_bytes ''MGPGC001''"

definition PAGE_INTEGRITY_CATALOG_CODEC_VERSION :: u32 where
  "PAGE_INTEGRITY_CATALOG_CODEC_VERSION = 1"

definition PAGE_INTEGRITY_CATALOG_RESERVED :: u32 where
  "PAGE_INTEGRITY_CATALOG_RESERVED = 0"

definition PAGE_CHECKSUM_DOMAIN :: bytes where
  "PAGE_CHECKSUM_DOMAIN = as_bytes ''MGPGC001:base-page:v1'' @ [0]"

definition CATALOG_HEADER_LEN :: nat where
  "CATALOG_HEADER_LEN = 8 + 4 + 4 + 8 + 8 + 8"

definition MAX_BASE_INTEGRITY_CATALOG_BYTES :: nat where
  "MAX_BASE_INTEGRITY_CATALOG_BYTES = 64 * 1024 * 1024"

definition MAX_BASE_INTEGRITY_COVERED_PAGES :: u64 where
  "MAX_BASE_INTEGRITY_COVERED_PAGES = 16777206"

datatype integrity_error = EmptyLayoutNotCanonical | NonEmptyZeroGeneration | CatalogCoversHeaderPage
  | CatalogRangeOverflow | CatalogTooLarge | PageNotCovered u64 | ChecksumMismatch u64
  | ChecksumZeroGeneration | ChecksumHeaderPage | ChecksumPageSize nat | CatalogTruncated nat
  | CatalogMagicMismatch | CatalogCodecVersion u32 | CatalogReservedNotZero | CatalogLengthMismatch nat nat

record integrity_catalog =
  ic_base_generation :: u64
  ic_covered_start :: u64
  ic_covered_count :: u64
  ic_page_checksums :: "u32 list"

definition validate_catalog_layout :: "u64 \<Rightarrow> u64 \<Rightarrow> u64 \<Rightarrow> integrity_error + unit" where
  "validate_catalog_layout gen start pages =
     (if pages = 0 then bail_if (gen \<noteq> 0 \<or> start \<noteq> 1) EmptyLayoutNotCanonical (Inr ())
      else bail_if (gen = 0) NonEmptyZeroGeneration (
           bail_if (start = 0) CatalogCoversHeaderPage (
           res_bind (ok_or CatalogRangeOverflow (u64_checked_add start pages)) (\<lambda>_. Inr ()))))"

text \<open>A vector has fewer than \<open>2 ^ 64\<close> elements, so its length fits in \<open>u64\<close>.\<close>

definition catalog_build :: "u64 \<Rightarrow> u64 \<Rightarrow> u32 list \<Rightarrow> integrity_error + integrity_catalog" where
  "catalog_build gen start checksums =
     res_bind (validate_catalog_layout gen start (of_nat (length checksums))) (\<lambda>_.
       Inr \<lparr> ic_base_generation = gen, ic_covered_start = start,
             ic_covered_count = of_nat (length checksums), ic_page_checksums = checksums \<rparr>)"

definition encoded_len_for_count :: "u64 \<Rightarrow> integrity_error + nat" where
  "encoded_len_for_count pages =
     bail_if (pages > MAX_BASE_INTEGRITY_COVERED_PAGES) CatalogTooLarge (
     res_bind (ok_or CatalogRangeOverflow (u64_checked_mul pages 4)) (\<lambda>checksum_bytes.
     res_bind (ok_or CatalogRangeOverflow (u64_checked_add (of_nat CATALOG_HEADER_LEN) checksum_bytes)) (\<lambda>len.
     bail_if (unat len > MAX_BASE_INTEGRITY_CATALOG_BYTES) CatalogTooLarge (Inr (unat len)))))"

definition compute_page_checksum :: "(bytes \<Rightarrow> u32) \<Rightarrow> u64 \<Rightarrow> u64 \<Rightarrow> bytes \<Rightarrow> integrity_error + u32" where
  "compute_page_checksum crc gen page_id page =
     bail_if (gen = 0) ChecksumZeroGeneration (
     bail_if (page_id = 0) ChecksumHeaderPage (
     bail_if (length page \<noteq> PAGE_SIZE) (ChecksumPageSize (length page)) (
     Inr (crc (PAGE_CHECKSUM_DOMAIN @ u64_to_le_bytes gen @ u64_to_le_bytes page_id @ page)))))"

definition checksum_for_page :: "integrity_catalog \<Rightarrow> u64 \<Rightarrow> integrity_error + u32" where
  "checksum_for_page c page_id =
     res_bind (ok_or (PageNotCovered page_id) (u64_checked_sub page_id (ic_covered_start c))) (\<lambda>offset.
       ok_or (PageNotCovered page_id) (list_get (ic_page_checksums c) (unat offset)))"

definition verify_page :: "(bytes \<Rightarrow> u32) \<Rightarrow> integrity_catalog \<Rightarrow> u64 \<Rightarrow> bytes \<Rightarrow> integrity_error + unit" where
  "verify_page crc c page_id page =
     res_bind (checksum_for_page c page_id) (\<lambda>expected.
     res_bind (compute_page_checksum crc (ic_base_generation c) page_id page) (\<lambda>actual.
     bail_if (actual \<noteq> expected) (ChecksumMismatch page_id) (Inr ())))"

definition catalog_encode :: "integrity_catalog \<Rightarrow> integrity_error + bytes" where
  "catalog_encode c =
     res_bind (validate_catalog_layout (ic_base_generation c) (ic_covered_start c) (ic_covered_count c)) (\<lambda>_.
     res_bind (encoded_len_for_count (ic_covered_count c)) (\<lambda>_.
     Inr (PAGE_INTEGRITY_CATALOG_MAGIC @ u32_to_le_bytes PAGE_INTEGRITY_CATALOG_CODEC_VERSION
          @ u32_to_le_bytes PAGE_INTEGRITY_CATALOG_RESERVED @ u64_to_le_bytes (ic_base_generation c)
          @ u64_to_le_bytes (ic_covered_start c) @ u64_to_le_bytes (ic_covered_count c)
          @ concat (map u32_to_le_bytes (ic_page_checksums c)))))"

definition catalog_decode :: "bytes \<Rightarrow> integrity_error + integrity_catalog" where
  "catalog_decode bs =
     bail_if (length bs < CATALOG_HEADER_LEN) (CatalogTruncated (length bs)) (
     bail_if (slice_get bs 0 8 \<noteq> Some PAGE_INTEGRITY_CATALOG_MAGIC) CatalogMagicMismatch (
     res_bind (ok_or (CatalogTruncated 8) (read_u32_le bs 8)) (\<lambda>version.
     bail_if (version \<noteq> PAGE_INTEGRITY_CATALOG_CODEC_VERSION) (CatalogCodecVersion version) (
     res_bind (ok_or (CatalogTruncated 12) (read_u32_le bs 12)) (\<lambda>reserved.
     bail_if (reserved \<noteq> PAGE_INTEGRITY_CATALOG_RESERVED) CatalogReservedNotZero (
     res_bind (ok_or (CatalogTruncated 16) (read_u64_le bs 16)) (\<lambda>gen.
     res_bind (ok_or (CatalogTruncated 24) (read_u64_le bs 24)) (\<lambda>start.
     res_bind (ok_or (CatalogTruncated 32) (read_u64_le bs 32)) (\<lambda>pages.
     res_bind (validate_catalog_layout gen start pages) (\<lambda>_.
     res_bind (encoded_len_for_count pages) (\<lambda>expected_len.
     bail_if (length bs \<noteq> expected_len) (CatalogLengthMismatch expected_len (length bs)) (
     res_bind (res_map (\<lambda>i. ok_or (CatalogTruncated (CATALOG_HEADER_LEN + i * 4))
                 (read_u32_le bs (CATALOG_HEADER_LEN + i * 4))) [0..<unat pages]) (\<lambda>checksums.
     catalog_build gen start checksums)))))))))))))"

section \<open>Lemmas\<close>

text \<open>The count field is the number of checksums, as \<open>build\<close> sets it.\<close>

definition catalog_wf :: "integrity_catalog \<Rightarrow> bool" where
  "catalog_wf c \<longleftrightarrow> unat (ic_covered_count c) = length (ic_page_checksums c)"

lemma catalog_build_wf:
  assumes "catalog_build gen start checksums = Inr c" "length checksums < 2 ^ 64"
  shows "catalog_wf c"
  using assms by (auto simp: catalog_build_def res_Inr catalog_wf_def unat_of_nat_eq)

lemma encoded_len_for_count_eq:
  "encoded_len_for_count pages = Inr n \<longleftrightarrow> unat pages \<le> 16777206 \<and> n = 40 + 4 * unat pages"
proof -
  have max: "unat MAX_BASE_INTEGRITY_COVERED_PAGES = 16777206"
    by (simp add: MAX_BASE_INTEGRITY_COVERED_PAGES_def)
  have le: "pages > MAX_BASE_INTEGRITY_COVERED_PAGES \<longleftrightarrow> unat pages > 16777206"
    unfolding word_less_nat_alt max ..
  show ?thesis
  proof (cases "unat pages \<le> 16777206")
    case True
    have m: "unat pages * unat (4 :: u64) < 2 ^ 64" using True by simp
    have mul: "u64_checked_mul pages 4 = Some (pages * 4)" "unat (pages * 4) = unat pages * 4"
      using m unat_mul64 [OF m] by (simp_all add: u64_checked_mul_def)
    have a: "unat (of_nat CATALOG_HEADER_LEN :: u64) + unat (pages * 4) < 2 ^ 64"
      using True by (simp add: mul CATALOG_HEADER_LEN_def)
    have add: "u64_checked_add (of_nat CATALOG_HEADER_LEN) (pages * 4) = Some (of_nat CATALOG_HEADER_LEN + pages * 4)"
      "unat (of_nat CATALOG_HEADER_LEN + pages * 4) = 40 + 4 * unat pages"
      using a unat_add64 [OF a] mul(2) by (simp_all add: u64_checked_add_def CATALOG_HEADER_LEN_def)
    show ?thesis
      using True by (auto simp: encoded_len_for_count_def le mul(1) add bail_if_def
          MAX_BASE_INTEGRITY_CATALOG_BYTES_def)
  next
    case False
    then show ?thesis by (simp add: encoded_len_for_count_def le)
  qed
qed

abbreviation catalog_header :: "integrity_catalog \<Rightarrow> bytes" where
  "catalog_header c \<equiv> PAGE_INTEGRITY_CATALOG_MAGIC @ u32_to_le_bytes PAGE_INTEGRITY_CATALOG_CODEC_VERSION
     @ u32_to_le_bytes PAGE_INTEGRITY_CATALOG_RESERVED @ u64_to_le_bytes (ic_base_generation c)
     @ u64_to_le_bytes (ic_covered_start c) @ u64_to_le_bytes (ic_covered_count c)"

lemma length_catalog_magic [simp]: "length PAGE_INTEGRITY_CATALOG_MAGIC = 8"
  by (simp add: PAGE_INTEGRITY_CATALOG_MAGIC_def)

lemma catalog_encode_eq:
  "catalog_encode c = Inr bs \<longleftrightarrow>
     validate_catalog_layout (ic_base_generation c) (ic_covered_start c) (ic_covered_count c) = Inr () \<and>
     unat (ic_covered_count c) \<le> 16777206 \<and>
     bs = catalog_header c @ concat (map u32_to_le_bytes (ic_page_checksums c))"
  by (auto simp: catalog_encode_def res_Inr encoded_len_for_count_eq)

lemma catalog_checksums_read:
  assumes "length bs = CATALOG_HEADER_LEN + 4 * length cs"
  shows "res_map (\<lambda>i. ok_or (CatalogTruncated (CATALOG_HEADER_LEN + i * 4))
      (read_u32_le bs (CATALOG_HEADER_LEN + i * 4))) [0..<length cs] = Inr cs \<longleftrightarrow>
    drop CATALOG_HEADER_LEN bs = concat (map u32_to_le_bytes cs)"
    (is "?l \<longleftrightarrow> ?r")
proof -
  let ?H = CATALOG_HEADER_LEN
  have split: "bs = take ?H bs @ drop ?H bs" "length (take ?H bs) = ?H" using assms by simp_all
  have read: "read_u32_le bs (?H + i * 4) = read_u32_le (drop ?H bs) (i * 4)" for i
    using read_le_skip(2) [of "take ?H bs" "?H + i * 4" "drop ?H bs"] split by simp
  have "?l \<longleftrightarrow> (\<forall>i < length cs. read_u32_le (drop ?H bs) (i * 4) = Some (cs ! i))"
    unfolding res_map_Inr_iff read list_eq_iff_nth_eq by (auto simp: nth_map)
  also have "\<dots> \<longleftrightarrow> ?r"
    using u32_array_bytes [of "drop ?H bs" cs] read_u32_array [of _ cs] assms by auto
  finally show ?thesis .
qed

lemma catalog_decode_encode:
  assumes "catalog_encode c = Inr bs" "catalog_wf c"
  shows "catalog_decode bs = Inr c"
proof -
  have lay: "validate_catalog_layout (ic_base_generation c) (ic_covered_start c) (ic_covered_count c) = Inr ()"
    and n: "unat (ic_covered_count c) \<le> 16777206" "unat (ic_covered_count c) = length (ic_page_checksums c)"
    and bs: "bs = catalog_header c @ concat (map u32_to_le_bytes (ic_page_checksums c))"
    using assms by (auto simp: catalog_encode_eq catalog_wf_def)
  have H: "CATALOG_HEADER_LEN = 40" by (simp add: CATALOG_HEADER_LEN_def)
  have len: "length bs = CATALOG_HEADER_LEN + 4 * length (ic_page_checksums c)" by (simp add: bs H)
  have "drop CATALOG_HEADER_LEN bs = concat (map u32_to_le_bytes (ic_page_checksums c))"
    by (simp add: bs H)
  then have cs: "res_map (\<lambda>i. ok_or (CatalogTruncated (CATALOG_HEADER_LEN + i * 4))
      (read_u32_le bs (CATALOG_HEADER_LEN + i * 4))) [0..<length (ic_page_checksums c)] = Inr (ic_page_checksums c)"
    using catalog_checksums_read [OF len] by blast
  have fields: "slice_get bs 0 8 = Some PAGE_INTEGRITY_CATALOG_MAGIC"
    "read_u32_le bs 8 = Some PAGE_INTEGRITY_CATALOG_CODEC_VERSION" "read_u32_le bs 12 = Some PAGE_INTEGRITY_CATALOG_RESERVED"
    "read_u64_le bs 16 = Some (ic_base_generation c)" "read_u64_le bs 24 = Some (ic_covered_start c)"
    "read_u64_le bs 32 = Some (ic_covered_count c)"
    by (simp_all add: bs le_field)
  have count: "of_nat (length (ic_page_checksums c)) = ic_covered_count c" using n(2) by (metis word_of_unat)
  have "encoded_len_for_count (ic_covered_count c) = Inr (length bs)"
    using n len by (simp add: encoded_len_for_count_eq H)
  then show ?thesis
    using lay cs len by (simp add: catalog_decode_def fields n(2) catalog_build_def count)
qed

lemma catalog_encode_decode:
  assumes "catalog_decode bs = Inr c"
  shows "catalog_encode c = Inr bs \<and> catalog_wf c"
proof -
  obtain gen start pages cs where fields: "slice_get bs 0 8 = Some PAGE_INTEGRITY_CATALOG_MAGIC"
      "read_u32_le bs 8 = Some PAGE_INTEGRITY_CATALOG_CODEC_VERSION" "read_u32_le bs 12 = Some PAGE_INTEGRITY_CATALOG_RESERVED"
      "read_u64_le bs 16 = Some gen" "read_u64_le bs 24 = Some start" "read_u64_le bs 32 = Some pages"
    and lay: "validate_catalog_layout gen start pages = Inr ()"
    and len: "unat pages \<le> 16777206" "length bs = 40 + 4 * unat pages"
    and cs: "res_map (\<lambda>i. ok_or (CatalogTruncated (CATALOG_HEADER_LEN + i * 4))
      (read_u32_le bs (CATALOG_HEADER_LEN + i * 4))) [0..<unat pages] = Inr cs"
    and build: "catalog_build gen start cs = Inr c"
    using assms by (auto simp: catalog_decode_def res_Inr encoded_len_for_count_eq)
  have H: "CATALOG_HEADER_LEN = 40" by (simp add: CATALOG_HEADER_LEN_def)
  have n: "length cs = unat pages" using res_map_length [OF cs] by simp
  have count: "of_nat (length cs) = pages" by (simp add: n)
  have c: "c = \<lparr> ic_base_generation = gen, ic_covered_start = start, ic_covered_count = pages, ic_page_checksums = cs \<rparr>"
    using build by (auto simp: catalog_build_def res_Inr count)
  have d40: "drop 40 bs = concat (map u32_to_le_bytes cs)"
    using catalog_checksums_read [of bs cs] cs len n by (simp add: H)
  have d8: "drop 8 bs = u32_to_le_bytes PAGE_INTEGRITY_CATALOG_CODEC_VERSION @
      u32_to_le_bytes PAGE_INTEGRITY_CATALOG_RESERVED @ u64_to_le_bytes gen @ u64_to_le_bytes start @
      u64_to_le_bytes pages @ drop 40 bs"
    using read_le_bytes(1) [OF fields(2)] read_le_bytes(1) [OF fields(3)] read_le_bytes(2) [OF fields(4)]
      read_le_bytes(2) [OF fields(5)] read_le_bytes(2) [OF fields(6)] by simp
  have "take 8 bs = PAGE_INTEGRITY_CATALOG_MAGIC" using fields(1) by (simp add: slice_get_def split: if_splits)
  then have "bs = PAGE_INTEGRITY_CATALOG_MAGIC @ drop 8 bs" using append_take_drop_id [of 8 bs] by simp
  also have "\<dots> = catalog_header c @ concat (map u32_to_le_bytes (ic_page_checksums c))"
    unfolding d8 d40 by (simp add: c)
  finally have "bs = catalog_header c @ concat (map u32_to_le_bytes (ic_page_checksums c))" .
  then show ?thesis
    using lay len(1) n by (simp add: catalog_encode_eq catalog_wf_def c)
qed

text \<open>C29: the catalog encoding is canonical: a byte string decodes to a catalog exactly when it is the
  encoding of that catalog and the catalog's count matches its checksums.  So nothing is lost in a
  round trip, and no second byte string decodes to the same catalog.\<close>

theorem catalog_decode_iff_encode:
  "catalog_decode bs = Inr c \<longleftrightarrow> catalog_encode c = Inr bs \<and> catalog_wf c"
  using catalog_decode_encode catalog_encode_decode by blast

text \<open>Verification accepts a page at a position exactly when the catalog covers the position and
  the page, hashed together with the base generation and that very position, gives the recorded
  checksum; in particular header page 0 and short pages are always refused.\<close>

theorem verify_page_iff:
  "verify_page crc c page_id page = Inr () \<longleftrightarrow>
     ic_base_generation c \<noteq> 0 \<and> page_id \<noteq> 0 \<and> length page = PAGE_SIZE \<and>
     ic_covered_start c \<le> page_id \<and>
     unat page_id - unat (ic_covered_start c) < length (ic_page_checksums c) \<and>
     ic_page_checksums c ! (unat page_id - unat (ic_covered_start c)) =
       crc (PAGE_CHECKSUM_DOMAIN @ u64_to_le_bytes (ic_base_generation c) @ u64_to_le_bytes page_id @ page)"
  by (auto simp: verify_page_def checksum_for_page_def compute_page_checksum_def res_Inr
      u64_checked_sub_Some list_get_Some_iff unat_sub_word)

end
