(* ===== verification/Header_Extension.thy ===== *)
theory Header_Extension
  imports File_Header
begin

text \<open>
  The header extension of \<open>src/src/storage/header_extension.rs\<close>: the two delta-manifest slots, the
  base-page integrity descriptor and the two projection-catalog slots that share page 0 with the
  file header, for file formats 10 to 13.  The checksum (\<open>crc32fast::hash\<close>) is the parameter \<open>crc\<close>.
  The interface \<open>fixed_codec\<close> states what the three fixed-width records promise; the page-level
  lemmas are proved from it.
\<close>

section \<open>Fixed-width records\<close>

locale fixed_codec =
  fixes width :: nat
    and enc :: "'a \<Rightarrow> bytes"
    and dec :: "bytes \<Rightarrow> 'e + 'a"
    and valid :: "'a \<Rightarrow> bool"
  assumes length_enc: "length (enc x) = width"
    and dec_enc: "valid x \<Longrightarrow> dec (enc x) = Inr x"
    and dec_width: "dec bs = Inr x \<Longrightarrow> length bs = width"
begin

lemma enc_inj: "valid x \<Longrightarrow> valid y \<Longrightarrow> enc x = enc y \<Longrightarrow> x = y"
  by (metis dec_enc sum.inject(2))

lemma dec_at:
  assumes "length pre = off" "valid x"
  shows "res_bind (ok_or e (slice_get (pre @ enc x @ post) off (off + width))) dec = Inr x"
proof -
  have "slice_get (pre @ enc x @ post) off (off + width) = Some (enc x)"
    by (rule slice_get_exact) (simp_all add: assms length_enc)
  then show ?thesis using assms(2) by (simp add: dec_enc)
qed

end

section \<open>Constants\<close>

definition HEADER_EXTENSION_OFFSET :: nat where "HEADER_EXTENSION_OFFSET = 84"

definition LEGACY_HEADER_EXTENSION_MAGIC :: bytes where
  "LEGACY_HEADER_EXTENSION_MAGIC = as_bytes ''MGHEX001''"

definition HEADER_EXTENSION_MAGIC :: bytes where
  "HEADER_EXTENSION_MAGIC = as_bytes ''MGHEX002''"

definition PROJECTION_HEADER_EXTENSION_MAGIC :: bytes where
  "PROJECTION_HEADER_EXTENSION_MAGIC = as_bytes ''MGHEX003''"

definition SLOT_LEN :: nat where "SLOT_LEN = 40"
definition DESCRIPTOR_LEN :: nat where "DESCRIPTOR_LEN = 56"
definition PREFIX_LEN :: nat where "PREFIX_LEN = 12"
definition BASE_LAYOUT_LEN :: nat where "BASE_LAYOUT_LEN = 12"

definition LEGACY_HEADER_EXTENSION_LEN :: nat where
  "LEGACY_HEADER_EXTENSION_LEN = PREFIX_LEN + SLOT_LEN * 2 + BASE_LAYOUT_LEN"

definition HEADER_EXTENSION_LEN :: nat where
  "HEADER_EXTENSION_LEN = LEGACY_HEADER_EXTENSION_LEN + DESCRIPTOR_LEN"

definition PROJECTION_HEADER_EXTENSION_LEN :: nat where
  "PROJECTION_HEADER_EXTENSION_LEN = HEADER_EXTENSION_LEN + SLOT_LEN * 2"

lemmas extension_lengths = LEGACY_HEADER_EXTENSION_LEN_def HEADER_EXTENSION_LEN_def
  PROJECTION_HEADER_EXTENSION_LEN_def PREFIX_LEN_def SLOT_LEN_def DESCRIPTOR_LEN_def
  BASE_LAYOUT_LEN_def HEADER_EXTENSION_OFFSET_def

datatype extension_error = ZeroGeneration | PayloadOnPageZero | ZeroPayloadPages | ZeroPayloadLength
  | RangeOverflow | CapacityOverflow | LengthNotCanonical | BadRecordLength | FieldOutOfBounds nat
  | CoversHeaderPage | CatalogOverlapsCoverage | LengthExceedsCapacity | DescriptorChecksumMismatch
  | InvalidProjectionSlot | BaseOnPageZero | CoverageStartMismatch | UnsupportedExtensionVersion u32
  | VersionCannotEncodeIntegrity | VersionCannotEncodeProjections | NotAFullPage | ExtensionDoesNotFit
  | PageTooShort | ExtensionTruncated | ExtensionMissing | ExtensionMagicMismatch
  | ZeroBaseStart | BaseLayoutChecksumMismatch | HeaderInvalid header_error | HeaderExceedsPage

abbreviation ext_u32 :: "bytes \<Rightarrow> nat \<Rightarrow> extension_error + u32" where
  "ext_u32 bs i \<equiv> ok_or (FieldOutOfBounds i) (read_u32_le bs i)"

abbreviation ext_u64 :: "bytes \<Rightarrow> nat \<Rightarrow> extension_error + u64" where
  "ext_u64 bs i \<equiv> ok_or (FieldOutOfBounds i) (read_u64_le bs i)"

section \<open>Delta-manifest slots\<close>

record manifest_slot =
  ms_generation :: u64
  ms_page_start :: u64
  ms_page_count :: u64
  ms_len :: u64
  ms_checksum :: u32
  ms_slot_checksum :: u32

definition manifest_slot_payload :: "manifest_slot \<Rightarrow> bytes" where
  "manifest_slot_payload s =
     u64_to_le_bytes (ms_generation s) @ u64_to_le_bytes (ms_page_start s)
     @ u64_to_le_bytes (ms_page_count s) @ u64_to_le_bytes (ms_len s)
     @ u32_to_le_bytes (ms_checksum s)"

definition manifest_slot_compute_checksum :: "(bytes \<Rightarrow> u32) \<Rightarrow> manifest_slot \<Rightarrow> u32" where
  "manifest_slot_compute_checksum crc s = crc (manifest_slot_payload s)"

definition manifest_slot_new ::
    "(bytes \<Rightarrow> u32) \<Rightarrow> u64 \<Rightarrow> u64 \<Rightarrow> u64 \<Rightarrow> u64 \<Rightarrow> u32 \<Rightarrow> extension_error + manifest_slot" where
  "manifest_slot_new crc gen start pages len checksum =
     bail_if (gen = 0) ZeroGeneration (
     bail_if (start = 0) PayloadOnPageZero (
     bail_if (pages = 0) ZeroPayloadPages (
     bail_if (len = 0) ZeroPayloadLength (
     res_bind (ok_or RangeOverflow (u64_checked_add start pages)) (\<lambda>_.
       let slot = \<lparr> ms_generation = gen, ms_page_start = start, ms_page_count = pages,
                    ms_len = len, ms_checksum = checksum, ms_slot_checksum = 0 \<rparr>
       in Inr (slot\<lparr> ms_slot_checksum := manifest_slot_compute_checksum crc slot \<rparr>))))))"

definition manifest_slot_empty :: manifest_slot where
  "manifest_slot_empty = \<lparr> ms_generation = 0, ms_page_start = 0, ms_page_count = 0, ms_len = 0,
     ms_checksum = 0, ms_slot_checksum = 0 \<rparr>"

definition manifest_slot_is_empty :: "manifest_slot \<Rightarrow> bool" where
  "manifest_slot_is_empty s \<longleftrightarrow> ms_generation s = 0 \<and> ms_page_start s = 0 \<and> ms_page_count s = 0 \<and>
     ms_len s = 0 \<and> ms_checksum s = 0 \<and> ms_slot_checksum s = 0"

definition manifest_slot_checksum_valid :: "(bytes \<Rightarrow> u32) \<Rightarrow> manifest_slot \<Rightarrow> bool" where
  "manifest_slot_checksum_valid crc s \<longleftrightarrow>
     manifest_slot_is_empty s \<or> ms_slot_checksum s = manifest_slot_compute_checksum crc s"

definition manifest_slot_is_selectable :: "(bytes \<Rightarrow> u32) \<Rightarrow> manifest_slot \<Rightarrow> bool" where
  "manifest_slot_is_selectable crc s \<longleftrightarrow> \<not> manifest_slot_is_empty s \<and>
     manifest_slot_checksum_valid crc s \<and> ms_generation s > 0 \<and> ms_page_start s > 0 \<and>
     ms_page_count s > 0 \<and> ms_len s > 0 \<and> u64_checked_add (ms_page_start s) (ms_page_count s) \<noteq> None"

datatype manifest_slot_state = SlotEmpty | SlotValid manifest_slot | SlotInvalid

definition manifest_slot_state_of :: "(bytes \<Rightarrow> u32) \<Rightarrow> manifest_slot \<Rightarrow> manifest_slot_state" where
  "manifest_slot_state_of crc s =
     (if manifest_slot_is_empty s then SlotEmpty
      else if manifest_slot_is_selectable crc s then SlotValid s else SlotInvalid)"

definition manifest_slot_to_bytes :: "manifest_slot \<Rightarrow> bytes" where
  "manifest_slot_to_bytes s = manifest_slot_payload s @ u32_to_le_bytes (ms_slot_checksum s)"

definition manifest_slot_from_bytes :: "bytes \<Rightarrow> extension_error + manifest_slot" where
  "manifest_slot_from_bytes bs =
     bail_if (length bs \<noteq> SLOT_LEN) BadRecordLength (
     res_bind (ext_u64 bs 0) (\<lambda>gen. res_bind (ext_u64 bs 8) (\<lambda>start.
     res_bind (ext_u64 bs 16) (\<lambda>pages. res_bind (ext_u64 bs 24) (\<lambda>len.
     res_bind (ext_u32 bs 32) (\<lambda>checksum. res_bind (ext_u32 bs 36) (\<lambda>slot_checksum.
       Inr \<lparr> ms_generation = gen, ms_page_start = start, ms_page_count = pages, ms_len = len,
         ms_checksum = checksum, ms_slot_checksum = slot_checksum \<rparr>)))))))"

section \<open>Projection-catalog slots\<close>

record projection_slot =
  ps_generation :: u64
  ps_page_start :: u64
  ps_page_count :: u64
  ps_len :: u64
  ps_checksum :: u32
  ps_slot_checksum :: u32

definition projection_slot_to_bytes :: "projection_slot \<Rightarrow> bytes" where
  "projection_slot_to_bytes s =
     u64_to_le_bytes (ps_generation s) @ u64_to_le_bytes (ps_page_start s)
     @ u64_to_le_bytes (ps_page_count s) @ u64_to_le_bytes (ps_len s)
     @ u32_to_le_bytes (ps_checksum s) @ u32_to_le_bytes (ps_slot_checksum s)"

definition projection_slot_compute_checksum :: "(bytes \<Rightarrow> u32) \<Rightarrow> projection_slot \<Rightarrow> u32" where
  "projection_slot_compute_checksum crc s = crc (take (SLOT_LEN - 4) (projection_slot_to_bytes s))"

definition projection_slot_new ::
    "(bytes \<Rightarrow> u32) \<Rightarrow> u64 \<Rightarrow> u64 \<Rightarrow> u64 \<Rightarrow> u64 \<Rightarrow> u32 \<Rightarrow> extension_error + projection_slot" where
  "projection_slot_new crc gen start pages len checksum =
     bail_if (gen = 0) ZeroGeneration (
     bail_if (start = 0 \<or> pages = 0 \<or> len = 0) ZeroPayloadLength (
     res_bind (ok_or CapacityOverflow (u64_checked_mul pages PAGE_SIZE_u64)) (\<lambda>capacity.
     res_bind (ok_or CapacityOverflow
       (u64_checked_mul (u64_saturating_sub pages 1) PAGE_SIZE_u64)) (\<lambda>minimum_len.
     bail_if (len > capacity \<or> len \<le> minimum_len) LengthNotCanonical (
     res_bind (ok_or RangeOverflow (u64_checked_add start pages)) (\<lambda>_.
       let slot = \<lparr> ps_generation = gen, ps_page_start = start, ps_page_count = pages,
                    ps_len = len, ps_checksum = checksum, ps_slot_checksum = 0 \<rparr>
       in Inr (slot\<lparr> ps_slot_checksum := projection_slot_compute_checksum crc slot \<rparr>)))))))"

definition projection_slot_empty :: projection_slot where
  "projection_slot_empty = \<lparr> ps_generation = 0, ps_page_start = 0, ps_page_count = 0, ps_len = 0,
     ps_checksum = 0, ps_slot_checksum = 0 \<rparr>"

definition projection_slot_is_empty :: "projection_slot \<Rightarrow> bool" where
  "projection_slot_is_empty s \<longleftrightarrow> s = projection_slot_empty"

definition projection_slot_is_selectable :: "(bytes \<Rightarrow> u32) \<Rightarrow> projection_slot \<Rightarrow> bool" where
  "projection_slot_is_selectable crc s \<longleftrightarrow> \<not> projection_slot_is_empty s \<and>
     ps_slot_checksum s = projection_slot_compute_checksum crc s \<and> ps_page_start s > 0 \<and>
     ps_page_count s > 0 \<and> ps_len s > 0 \<and> u64_checked_add (ps_page_start s) (ps_page_count s) \<noteq> None"

definition projection_slot_from_bytes :: "bytes \<Rightarrow> extension_error + projection_slot" where
  "projection_slot_from_bytes bs =
     bail_if (length bs \<noteq> SLOT_LEN) BadRecordLength (
     res_bind (ext_u64 bs 0) (\<lambda>gen. res_bind (ext_u64 bs 8) (\<lambda>start.
     res_bind (ext_u64 bs 16) (\<lambda>pages. res_bind (ext_u64 bs 24) (\<lambda>len.
     res_bind (ext_u32 bs 32) (\<lambda>checksum. res_bind (ext_u32 bs 36) (\<lambda>slot_checksum.
       Inr \<lparr> ps_generation = gen, ps_page_start = start, ps_page_count = pages, ps_len = len,
         ps_checksum = checksum, ps_slot_checksum = slot_checksum \<rparr>)))))))"

section \<open>Base-page integrity descriptor\<close>

record integrity_descriptor =
  id_base_generation :: u64
  id_covered_start :: u64
  id_covered_count :: u64
  id_catalog_start :: u64
  id_catalog_count :: u64
  id_catalog_len :: u64
  id_catalog_checksum :: u32
  id_descriptor_checksum :: u32

definition integrity_descriptor_to_bytes :: "integrity_descriptor \<Rightarrow> bytes" where
  "integrity_descriptor_to_bytes d =
     u64_to_le_bytes (id_base_generation d) @ u64_to_le_bytes (id_covered_start d)
     @ u64_to_le_bytes (id_covered_count d) @ u64_to_le_bytes (id_catalog_start d)
     @ u64_to_le_bytes (id_catalog_count d) @ u64_to_le_bytes (id_catalog_len d)
     @ u32_to_le_bytes (id_catalog_checksum d) @ u32_to_le_bytes (id_descriptor_checksum d)"

definition integrity_compute_checksum :: "(bytes \<Rightarrow> u32) \<Rightarrow> integrity_descriptor \<Rightarrow> u32" where
  "integrity_compute_checksum crc d = crc (take (DESCRIPTOR_LEN - 4) (integrity_descriptor_to_bytes d))"

definition integrity_descriptor_empty :: integrity_descriptor where
  "integrity_descriptor_empty = \<lparr> id_base_generation = 0, id_covered_start = 0, id_covered_count = 0,
     id_catalog_start = 0, id_catalog_count = 0, id_catalog_len = 0, id_catalog_checksum = 0,
     id_descriptor_checksum = 0 \<rparr>"

definition integrity_is_empty :: "integrity_descriptor \<Rightarrow> bool" where
  "integrity_is_empty d \<longleftrightarrow> d = integrity_descriptor_empty"

definition covered_page_end :: "integrity_descriptor \<Rightarrow> extension_error + u64" where
  "covered_page_end d = ok_or RangeOverflow (u64_checked_add (id_covered_start d) (id_covered_count d))"

definition catalog_page_end :: "integrity_descriptor \<Rightarrow> extension_error + u64" where
  "catalog_page_end d = ok_or RangeOverflow (u64_checked_add (id_catalog_start d) (id_catalog_count d))"

definition integrity_checksum_valid :: "(bytes \<Rightarrow> u32) \<Rightarrow> integrity_descriptor \<Rightarrow> bool" where
  "integrity_checksum_valid crc d \<longleftrightarrow>
     integrity_is_empty d \<or> id_descriptor_checksum d = integrity_compute_checksum crc d"

definition integrity_validate_layout :: "integrity_descriptor \<Rightarrow> extension_error + unit" where
  "integrity_validate_layout d =
     (if integrity_is_empty d then Inr () else
     bail_if (id_base_generation d = 0) ZeroGeneration (
     bail_if (id_covered_start d = 0 \<or> id_covered_count d = 0) CoversHeaderPage (
     res_bind (covered_page_end d) (\<lambda>covered_end.
     bail_if (covered_end > id_catalog_start d) CatalogOverlapsCoverage (
     bail_if (id_catalog_count d = 0 \<or> id_catalog_len d = 0) ZeroPayloadLength (
     res_bind (ok_or CapacityOverflow (u64_checked_mul (id_catalog_count d) PAGE_SIZE_u64)) (\<lambda>capacity.
     bail_if (id_catalog_len d > capacity) LengthExceedsCapacity (
     res_bind (ok_or CapacityOverflow
       (u64_checked_mul (u64_saturating_sub (id_catalog_count d) 1) PAGE_SIZE_u64)) (\<lambda>minimum_len.
     bail_if (id_catalog_len d \<le> minimum_len) LengthNotCanonical (
     res_bind (catalog_page_end d) (\<lambda>_. Inr ())))))))))))"

definition integrity_descriptor_new ::
    "(bytes \<Rightarrow> u32) \<Rightarrow> u64 \<Rightarrow> u64 \<Rightarrow> u64 \<Rightarrow> u64 \<Rightarrow> u64 \<Rightarrow> u64 \<Rightarrow> u32 \<Rightarrow> extension_error + integrity_descriptor" where
  "integrity_descriptor_new crc gen cov_start cov_pages cat_start cat_pages cat_len cat_checksum =
     (let d = \<lparr> id_base_generation = gen, id_covered_start = cov_start, id_covered_count = cov_pages,
                id_catalog_start = cat_start, id_catalog_count = cat_pages, id_catalog_len = cat_len,
                id_catalog_checksum = cat_checksum, id_descriptor_checksum = 0 \<rparr>
      in res_bind (integrity_validate_layout d) (\<lambda>_.
           Inr (d\<lparr> id_descriptor_checksum := integrity_compute_checksum crc d \<rparr>)))"

definition integrity_descriptor_from_bytes ::
    "(bytes \<Rightarrow> u32) \<Rightarrow> bytes \<Rightarrow> extension_error + integrity_descriptor" where
  "integrity_descriptor_from_bytes crc bs =
     bail_if (length bs \<noteq> DESCRIPTOR_LEN) BadRecordLength (
     res_bind (ext_u64 bs 0) (\<lambda>gen. res_bind (ext_u64 bs 8) (\<lambda>cov_start.
     res_bind (ext_u64 bs 16) (\<lambda>cov_pages. res_bind (ext_u64 bs 24) (\<lambda>cat_start.
     res_bind (ext_u64 bs 32) (\<lambda>cat_pages. res_bind (ext_u64 bs 40) (\<lambda>cat_len.
     res_bind (ext_u32 bs 48) (\<lambda>cat_checksum. res_bind (ext_u32 bs 52) (\<lambda>checksum.
       let d = \<lparr> id_base_generation = gen, id_covered_start = cov_start, id_covered_count = cov_pages,
                 id_catalog_start = cat_start, id_catalog_count = cat_pages, id_catalog_len = cat_len,
                 id_catalog_checksum = cat_checksum, id_descriptor_checksum = checksum \<rparr> in
       if integrity_is_empty d then Inr d
       else res_bind (integrity_validate_layout d) (\<lambda>_.
         bail_if (\<not> integrity_checksum_valid crc d) DescriptorChecksumMismatch (Inr d)))))))))))"

section \<open>The extension\<close>

record header_extension =
  hx_primary :: manifest_slot
  hx_secondary :: manifest_slot
  hx_base_fact_page_start :: u64
  hx_base_layout_checksum :: u32
  hx_base_integrity :: integrity_descriptor
  hx_projection_primary :: projection_slot
  hx_projection_secondary :: projection_slot

definition compute_base_layout_checksum :: "(bytes \<Rightarrow> u32) \<Rightarrow> u64 \<Rightarrow> u32" where
  "compute_base_layout_checksum crc start = crc (u64_to_le_bytes start)"

definition header_extension_new ::
    "(bytes \<Rightarrow> u32) \<Rightarrow> manifest_slot \<Rightarrow> manifest_slot \<Rightarrow> header_extension" where
  "header_extension_new crc primary secondary =
     \<lparr> hx_primary = primary, hx_secondary = secondary, hx_base_fact_page_start = 1,
       hx_base_layout_checksum = compute_base_layout_checksum crc 1,
       hx_base_integrity = integrity_descriptor_empty,
       hx_projection_primary = projection_slot_empty,
       hx_projection_secondary = projection_slot_empty \<rparr>"

definition header_extension_empty :: "(bytes \<Rightarrow> u32) \<Rightarrow> header_extension" where
  "header_extension_empty crc = header_extension_new crc manifest_slot_empty manifest_slot_empty"

definition with_projection_catalog_slots ::
    "(bytes \<Rightarrow> u32) \<Rightarrow> header_extension \<Rightarrow> projection_slot \<Rightarrow> projection_slot \<Rightarrow> extension_error + header_extension" where
  "with_projection_catalog_slots crc x primary secondary =
     bail_if ((\<not> projection_slot_is_empty primary \<and> \<not> projection_slot_is_selectable crc primary) \<or>
              (\<not> projection_slot_is_empty secondary \<and> \<not> projection_slot_is_selectable crc secondary))
       InvalidProjectionSlot
       (Inr (x\<lparr> hx_projection_primary := primary, hx_projection_secondary := secondary \<rparr>))"

definition with_base_fact_page_start ::
    "(bytes \<Rightarrow> u32) \<Rightarrow> header_extension \<Rightarrow> u64 \<Rightarrow> extension_error + header_extension" where
  "with_base_fact_page_start crc x start =
     bail_if (start = 0) BaseOnPageZero (
     bail_if (\<not> integrity_is_empty (hx_base_integrity x) \<and> id_covered_start (hx_base_integrity x) \<noteq> start)
       CoverageStartMismatch
       (Inr (x\<lparr> hx_base_fact_page_start := start,
                hx_base_layout_checksum := compute_base_layout_checksum crc start \<rparr>)))"

definition with_base_integrity ::
    "(bytes \<Rightarrow> u32) \<Rightarrow> header_extension \<Rightarrow> integrity_descriptor \<Rightarrow> extension_error + header_extension" where
  "with_base_integrity crc x d =
     (if integrity_is_empty d then Inr (x\<lparr> hx_base_integrity := d \<rparr>)
      else res_bind (integrity_validate_layout d) (\<lambda>_.
        bail_if (\<not> integrity_checksum_valid crc d) DescriptorChecksumMismatch (
        bail_if (id_covered_start d \<noteq> hx_base_fact_page_start x) CoverageStartMismatch
          (Inr (x\<lparr> hx_base_integrity := d \<rparr>)))))"

text \<open>Magic value and length per file format.\<close>

definition extension_format :: "u32 \<Rightarrow> (bytes \<times> nat) option" where
  "extension_format v =
     (if v = 10 then Some (LEGACY_HEADER_EXTENSION_MAGIC, LEGACY_HEADER_EXTENSION_LEN)
      else if v = 11 \<or> v = 12 then Some (HEADER_EXTENSION_MAGIC, HEADER_EXTENSION_LEN)
      else if v = 13 then Some (PROJECTION_HEADER_EXTENSION_MAGIC, PROJECTION_HEADER_EXTENSION_LEN)
      else None)"

definition extension_to_bytes :: "header_extension \<Rightarrow> u32 \<Rightarrow> extension_error + bytes" where
  "extension_to_bytes x v =
     res_bind (ok_or (UnsupportedExtensionVersion v) (extension_format v)) (\<lambda>(magic, _).
     let bs = magic @ u32_to_le_bytes v @ manifest_slot_to_bytes (hx_primary x)
              @ manifest_slot_to_bytes (hx_secondary x)
              @ u64_to_le_bytes (hx_base_fact_page_start x)
              @ u32_to_le_bytes (hx_base_layout_checksum x) in
     res_bind (if v \<ge> 11 then Inr (bs @ integrity_descriptor_to_bytes (hx_base_integrity x))
               else bail_if (\<not> integrity_is_empty (hx_base_integrity x)) VersionCannotEncodeIntegrity (Inr bs))
     (\<lambda>bs. if v \<ge> 13 then Inr (bs @ projection_slot_to_bytes (hx_projection_primary x)
                                  @ projection_slot_to_bytes (hx_projection_secondary x))
           else bail_if (\<not> projection_slot_is_empty (hx_projection_primary x) \<or>
                         \<not> projection_slot_is_empty (hx_projection_secondary x))
                  VersionCannotEncodeProjections (Inr bs)))"

definition write_to_page0 :: "header_extension \<Rightarrow> u32 \<Rightarrow> bytes \<Rightarrow> extension_error + bytes" where
  "write_to_page0 x v page =
     bail_if (length page \<noteq> PAGE_SIZE) NotAFullPage (
     res_bind (extension_to_bytes x v) (\<lambda>bs.
     bail_if (HEADER_EXTENSION_OFFSET + length bs > length page) ExtensionDoesNotFit
       (Inr (put_slice page HEADER_EXTENSION_OFFSET bs))))"

definition read_slot_at :: "(bytes \<Rightarrow> extension_error + 'a) \<Rightarrow> bytes \<Rightarrow> nat \<Rightarrow> nat \<Rightarrow> extension_error + 'a" where
  "read_slot_at dec bs i j = res_bind (ok_or ExtensionTruncated (slice_get bs i j)) dec"

definition read_base_start :: "(bytes \<Rightarrow> u32) \<Rightarrow> u64 \<Rightarrow> u32 \<Rightarrow> extension_error + u64" where
  "read_base_start crc raw_start raw_checksum =
     (if raw_start = 0 \<and> raw_checksum = 0 then Inr 1
      else bail_if (raw_start = 0) ZeroBaseStart (
           bail_if (raw_checksum \<noteq> compute_base_layout_checksum crc raw_start)
             BaseLayoutChecksumMismatch (Inr raw_start)))"

definition read_from_page0 ::
    "(bytes \<Rightarrow> u32) \<Rightarrow> u32 \<Rightarrow> bytes \<Rightarrow> extension_error + header_extension option" where
  "read_from_page0 crc v page =
     bail_if (length page < HEADER_EXTENSION_OFFSET) PageTooShort (
     if v < 10 then Inr None else
     res_bind (ok_or (UnsupportedExtensionVersion v) (extension_format v)) (\<lambda>(magic, len).
     res_bind (ok_or ExtensionTruncated
       (slice_get page HEADER_EXTENSION_OFFSET (HEADER_EXTENSION_OFFSET + len))) (\<lambda>bs.
     bail_if (list_all (\<lambda>b. b = 0) bs) ExtensionMissing (
     res_bind (ok_or ExtensionTruncated (slice_get bs 0 8)) (\<lambda>found.
     bail_if (found \<noteq> magic) ExtensionMagicMismatch (
     res_bind (ext_u32 bs 8) (\<lambda>version.
     bail_if (version \<noteq> v) (UnsupportedExtensionVersion version) (
     res_bind (read_slot_at manifest_slot_from_bytes bs PREFIX_LEN (PREFIX_LEN + SLOT_LEN)) (\<lambda>primary.
     res_bind (read_slot_at manifest_slot_from_bytes bs (PREFIX_LEN + SLOT_LEN) (PREFIX_LEN + 2 * SLOT_LEN)) (\<lambda>secondary.
     res_bind (ext_u64 bs (PREFIX_LEN + 2 * SLOT_LEN)) (\<lambda>raw_start.
     res_bind (ext_u32 bs (PREFIX_LEN + 2 * SLOT_LEN + 8)) (\<lambda>raw_checksum.
     res_bind (read_base_start crc raw_start raw_checksum) (\<lambda>base_start.
     res_bind (if v \<ge> 11
               then read_slot_at (integrity_descriptor_from_bytes crc) bs LEGACY_HEADER_EXTENSION_LEN HEADER_EXTENSION_LEN
               else Inr integrity_descriptor_empty) (\<lambda>integrity.
     bail_if (\<not> integrity_is_empty integrity \<and> id_covered_start integrity \<noteq> base_start) CoverageStartMismatch (
     res_bind (if v \<ge> 13
               then res_bind (read_slot_at projection_slot_from_bytes bs HEADER_EXTENSION_LEN (HEADER_EXTENSION_LEN + SLOT_LEN)) (\<lambda>p.
                    res_bind (read_slot_at projection_slot_from_bytes bs (HEADER_EXTENSION_LEN + SLOT_LEN) (HEADER_EXTENSION_LEN + SLOT_LEN + SLOT_LEN)) (\<lambda>q.
                      Inr (p, q)))
               else Inr (projection_slot_empty, projection_slot_empty)) (\<lambda>(p, q).
       Inr (Some \<lparr> hx_primary = primary, hx_secondary = secondary, hx_base_fact_page_start = base_start,
         hx_base_layout_checksum = compute_base_layout_checksum crc base_start,
         hx_base_integrity = integrity, hx_projection_primary = p, hx_projection_secondary = q \<rparr>)))))))))))))))))"

section \<open>Slot selection\<close>

datatype slot_name = Primary | Secondary

datatype manifest_selection = NoDeltaManifest | UseSlot slot_name manifest_slot | RecoveryRequired

datatype projection_selection = NoProjectionCatalog
  | Candidates "slot_name \<times> projection_slot" "(slot_name \<times> projection_slot) option"
  | ProjectionRecoveryRequired

text \<open>\<open>sort_by_key\<close> is stable, so the primary slot stays first when the generations are equal.\<close>

definition select_projection_catalog_slots :: "(bytes \<Rightarrow> u32) \<Rightarrow> header_extension \<Rightarrow> projection_selection" where
  "select_projection_catalog_slots crc x =
     (let slots = [(Primary, hx_projection_primary x), (Secondary, hx_projection_secondary x)];
          has_invalid = list_ex (\<lambda>(_, s). \<not> projection_slot_is_empty s \<and> \<not> projection_slot_is_selectable crc s) slots;
          valid = filter (\<lambda>(_, s). projection_slot_is_selectable crc s) slots
      in case valid of
           [] \<Rightarrow> if has_invalid then ProjectionRecoveryRequired else NoProjectionCatalog
         | [a] \<Rightarrow> Candidates a None
         | a # b # _ \<Rightarrow>
             if ps_generation (snd a) \<ge> ps_generation (snd b) then Candidates a (Some b)
             else Candidates b (Some a))"

definition select_header_manifest_slot :: "(bytes \<Rightarrow> u32) \<Rightarrow> header_extension \<Rightarrow> manifest_selection" where
  "select_header_manifest_slot crc x =
     (case (manifest_slot_state_of crc (hx_primary x), manifest_slot_state_of crc (hx_secondary x)) of
        (SlotValid p, SlotValid s) \<Rightarrow>
          if ms_generation p \<ge> ms_generation s then UseSlot Primary p else UseSlot Secondary s
      | (SlotValid p, _) \<Rightarrow> UseSlot Primary p
      | (_, SlotValid s) \<Rightarrow> UseSlot Secondary s
      | (SlotEmpty, SlotEmpty) \<Rightarrow> NoDeltaManifest
      | _ \<Rightarrow> RecoveryRequired)"

definition select_header_manifest_slot_from_page0 ::
    "(bytes \<Rightarrow> u32) \<Rightarrow> u32 \<Rightarrow> bytes \<Rightarrow> extension_error + manifest_selection" where
  "select_header_manifest_slot_from_page0 crc v page =
     res_bind (read_from_page0 crc v page) (\<lambda>x.
       case x of None \<Rightarrow> Inr NoDeltaManifest | Some x \<Rightarrow> Inr (select_header_manifest_slot crc x))"

section \<open>Header pages\<close>

definition resize_page :: "bytes \<Rightarrow> bytes" where
  "resize_page bs = take PAGE_SIZE bs @ replicate (PAGE_SIZE - length bs) 0"

definition build_header_page :: "(bytes \<Rightarrow> u32) \<Rightarrow> file_header \<Rightarrow> extension_error + bytes" where
  "build_header_page crc h =
     res_bind (map_err HeaderInvalid (file_header_validate h)) (\<lambda>_.
     let bs = file_header_to_bytes h in
     bail_if (length bs > PAGE_SIZE) HeaderExceedsPage (
     let page = resize_page bs in
     if fh_version h = 10 \<or> fh_version h = 11 \<or> fh_version h = 12 \<or> fh_version h = 13
     then write_to_page0 (header_extension_empty crc) (fh_version h) page
     else bail_if (fh_version h > 13) (UnsupportedExtensionVersion (fh_version h)) (Inr page)))"

definition build_header_page_with_extension ::
    "file_header \<Rightarrow> header_extension \<Rightarrow> extension_error + bytes" where
  "build_header_page_with_extension h x =
     res_bind (map_err HeaderInvalid (file_header_validate h)) (\<lambda>_.
     bail_if (fh_version h \<noteq> 10 \<and> fh_version h \<noteq> 11 \<and> fh_version h \<noteq> 12 \<and> fh_version h \<noteq> 13)
       (UnsupportedExtensionVersion (fh_version h)) (
     let bs = file_header_to_bytes h in
     bail_if (length bs > PAGE_SIZE) HeaderExceedsPage
       (write_to_page0 x (fh_version h) (resize_page bs))))"

section \<open>The three records as fixed-width codecs\<close>

lemma length_slots [simp]:
  "length (manifest_slot_payload s) = 36" "length (manifest_slot_to_bytes s) = 40"
  "length (projection_slot_to_bytes p) = 40" "length (integrity_descriptor_to_bytes d) = 56"
  by (simp_all add: manifest_slot_to_bytes_def manifest_slot_payload_def projection_slot_to_bytes_def
      integrity_descriptor_to_bytes_def)

lemma manifest_slot_roundtrip: "manifest_slot_from_bytes (manifest_slot_to_bytes s) = Inr s"
  by (simp add: manifest_slot_from_bytes_def manifest_slot_to_bytes_def manifest_slot_payload_def
      SLOT_LEN_def le_field)

lemma projection_slot_roundtrip: "projection_slot_from_bytes (projection_slot_to_bytes s) = Inr s"
  by (simp add: projection_slot_from_bytes_def projection_slot_to_bytes_def SLOT_LEN_def le_field)

definition integrity_ok :: "(bytes \<Rightarrow> u32) \<Rightarrow> integrity_descriptor \<Rightarrow> bool" where
  "integrity_ok crc d \<longleftrightarrow> integrity_validate_layout d = Inr () \<and> integrity_checksum_valid crc d"

lemma integrity_descriptor_roundtrip:
  assumes "integrity_ok crc d"
  shows "integrity_descriptor_from_bytes crc (integrity_descriptor_to_bytes d) = Inr d"
  using assms
  by (cases d) (simp add: integrity_descriptor_from_bytes_def integrity_descriptor_to_bytes_def
      DESCRIPTOR_LEN_def le_field integrity_ok_def Let_def)

lemma integrity_ok_empty [simp]: "integrity_ok crc integrity_descriptor_empty"
  by (simp add: integrity_ok_def integrity_validate_layout_def integrity_checksum_valid_def
      integrity_is_empty_def)

lemma slot_widths:
  "manifest_slot_from_bytes bs = Inr s \<Longrightarrow> length bs = SLOT_LEN"
  "projection_slot_from_bytes bs = Inr p \<Longrightarrow> length bs = SLOT_LEN"
  "integrity_descriptor_from_bytes crc bs = Inr d \<Longrightarrow> length bs = DESCRIPTOR_LEN"
  by (simp_all add: manifest_slot_from_bytes_def projection_slot_from_bytes_def
      integrity_descriptor_from_bytes_def bail_if_Inr)

interpretation manifest_codec:
  fixed_codec SLOT_LEN manifest_slot_to_bytes manifest_slot_from_bytes "\<lambda>_. True"
  by unfold_locales (simp add: SLOT_LEN_def, rule manifest_slot_roundtrip, rule slot_widths)

interpretation projection_codec:
  fixed_codec SLOT_LEN projection_slot_to_bytes projection_slot_from_bytes "\<lambda>_. True"
  by unfold_locales (simp add: SLOT_LEN_def, rule projection_slot_roundtrip, rule slot_widths)

interpretation integrity_codec:
  fixed_codec DESCRIPTOR_LEN integrity_descriptor_to_bytes "integrity_descriptor_from_bytes crc"
    "integrity_ok crc" for crc
  by unfold_locales
    (simp add: DESCRIPTOR_LEN_def, erule integrity_descriptor_roundtrip, erule slot_widths)

section \<open>The extension invariant\<close>

definition extension_wf :: "(bytes \<Rightarrow> u32) \<Rightarrow> header_extension \<Rightarrow> bool" where
  "extension_wf crc x \<longleftrightarrow> hx_base_fact_page_start x \<noteq> 0 \<and>
     hx_base_layout_checksum x = compute_base_layout_checksum crc (hx_base_fact_page_start x) \<and>
     integrity_ok crc (hx_base_integrity x) \<and>
     (integrity_is_empty (hx_base_integrity x) \<or>
      id_covered_start (hx_base_integrity x) = hx_base_fact_page_start x)"

lemma extension_wf_new: "extension_wf crc (header_extension_new crc p s)"
  by (simp add: extension_wf_def header_extension_new_def integrity_is_empty_def)

lemma extension_wf_operations:
  assumes "extension_wf crc x"
  shows "with_projection_catalog_slots crc x p s = Inr x1 \<Longrightarrow> extension_wf crc x1"
    and "with_base_fact_page_start crc x start = Inr x2 \<Longrightarrow> extension_wf crc x2"
    and "with_base_integrity crc x d = Inr x3 \<Longrightarrow> extension_wf crc x3"
proof -
  show "with_projection_catalog_slots crc x p s = Inr x1 \<Longrightarrow> extension_wf crc x1"
    using assms by (auto simp: with_projection_catalog_slots_def extension_wf_def bail_if_Inr)
  show "with_base_fact_page_start crc x start = Inr x2 \<Longrightarrow> extension_wf crc x2"
    using assms by (auto simp: with_base_fact_page_start_def extension_wf_def bail_if_Inr)
  show "with_base_integrity crc x d = Inr x3 \<Longrightarrow> extension_wf crc x3"
    using assms by (auto simp: with_base_integrity_def extension_wf_def integrity_ok_def res_Inr
        integrity_validate_layout_def integrity_checksum_valid_def split: if_splits)
qed

section \<open>Round trip through page 0\<close>

definition extension_body :: "header_extension \<Rightarrow> u32 \<Rightarrow> bytes" where
  "extension_body x v =
     u32_to_le_bytes v @ manifest_slot_to_bytes (hx_primary x) @ manifest_slot_to_bytes (hx_secondary x)
     @ u64_to_le_bytes (hx_base_fact_page_start x) @ u32_to_le_bytes (hx_base_layout_checksum x)
     @ (if v \<ge> 11 then integrity_descriptor_to_bytes (hx_base_integrity x) else [])
     @ (if v \<ge> 13 then projection_slot_to_bytes (hx_projection_primary x)
          @ projection_slot_to_bytes (hx_projection_secondary x) else [])"

lemma extension_format_cases:
  assumes "extension_format v = Some (magic, len)"
  obtains "v = 10" "magic = LEGACY_HEADER_EXTENSION_MAGIC" "len = 104"
  | "v = 11" "magic = HEADER_EXTENSION_MAGIC" "len = 160"
  | "v = 12" "magic = HEADER_EXTENSION_MAGIC" "len = 160"
  | "v = 13" "magic = PROJECTION_HEADER_EXTENSION_MAGIC" "len = 240"
  using assms by (auto simp: extension_format_def extension_lengths split: if_splits)

lemma extension_magic_facts:
  assumes "extension_format v = Some (magic, len)"
  shows "length magic = 8" "magic ! 0 \<noteq> 0" "length (magic @ extension_body x v) = len"
  using assms
  by (cases rule: extension_format_cases;
      simp add: LEGACY_HEADER_EXTENSION_MAGIC_def HEADER_EXTENSION_MAGIC_def
        PROJECTION_HEADER_EXTENSION_MAGIC_def as_bytes_def extension_body_def)+

lemma extension_to_bytes_eq:
  assumes "extension_to_bytes x v = Inr bs"
  obtains magic len where "extension_format v = Some (magic, len)" "bs = magic @ extension_body x v"
    "v \<ge> 11 \<or> integrity_is_empty (hx_base_integrity x)"
    "v \<ge> 13 \<or> hx_projection_primary x = projection_slot_empty \<and> hx_projection_secondary x = projection_slot_empty"
  using assms
  by (auto simp: extension_to_bytes_def res_Inr extension_body_def projection_slot_is_empty_def Let_def
      split: if_splits)

lemma read_base_start_ok:
  "start \<noteq> 0 \<Longrightarrow> read_base_start crc start (compute_base_layout_checksum crc start) = Inr start"
  by (simp add: read_base_start_def)

lemma not_all_zero: "magic ! 0 \<noteq> 0 \<Longrightarrow> length magic = 8 \<Longrightarrow> \<not> list_all (\<lambda>b. b = 0) (magic @ bs)"
  by (cases magic) simp_all

text \<open>Reading the extension out of its own bytes.\<close>

lemma extension_fields:
  assumes "extension_format v = Some (magic, len)" "extension_wf crc x"
  defines "bs \<equiv> magic @ extension_body x v"
  shows "slice_get bs 0 8 = Some magic" "read_u32_le bs 8 = Some v"
    "read_slot_at manifest_slot_from_bytes bs 12 52 = Inr (hx_primary x)"
    "read_slot_at manifest_slot_from_bytes bs 52 92 = Inr (hx_secondary x)"
    "read_u64_le bs 92 = Some (hx_base_fact_page_start x)"
    "read_u32_le bs 100 = Some (hx_base_layout_checksum x)"
    "v \<ge> 11 \<Longrightarrow> read_slot_at (integrity_descriptor_from_bytes crc) bs 104 160 = Inr (hx_base_integrity x)"
    "v \<ge> 13 \<Longrightarrow> read_slot_at projection_slot_from_bytes bs 160 200 = Inr (hx_projection_primary x)"
    "v \<ge> 13 \<Longrightarrow> read_slot_at projection_slot_from_bytes bs 200 240 = Inr (hx_projection_secondary x)"
proof -
  have l: "length magic = 8" using assms(1) by (rule extension_magic_facts)
  have ok: "integrity_ok crc (hx_base_integrity x)" using assms(2) by (simp add: extension_wf_def)
  have v: "11 \<le> v" if "13 \<le> v" using that by (rule order.trans [rotated]) simp
  note simps = bs_def extension_body_def read_slot_at_def le_field l manifest_slot_roundtrip
    projection_slot_roundtrip integrity_descriptor_roundtrip [OF ok]
  show "slice_get bs 0 8 = Some magic" "read_u32_le bs 8 = Some v"
    "read_slot_at manifest_slot_from_bytes bs 12 52 = Inr (hx_primary x)"
    "read_slot_at manifest_slot_from_bytes bs 52 92 = Inr (hx_secondary x)"
    "read_u64_le bs 92 = Some (hx_base_fact_page_start x)"
    "read_u32_le bs 100 = Some (hx_base_layout_checksum x)"
    by (simp_all add: simps)
  show "v \<ge> 11 \<Longrightarrow> read_slot_at (integrity_descriptor_from_bytes crc) bs 104 160 = Inr (hx_base_integrity x)"
    by (simp add: simps)
  show "v \<ge> 13 \<Longrightarrow> read_slot_at projection_slot_from_bytes bs 160 200 = Inr (hx_projection_primary x)"
    "v \<ge> 13 \<Longrightarrow> read_slot_at projection_slot_from_bytes bs 200 240 = Inr (hx_projection_secondary x)"
    using v by (simp_all add: simps)
qed

lemma extension_page_roundtrip:
  assumes "extension_wf crc x" "write_to_page0 x v page = Inr page'"
  shows "read_from_page0 crc v page' = Inr (Some x)" "length page' = PAGE_SIZE"
    "take 84 page' = take 84 page"
proof -
  obtain bs where page: "length page = PAGE_SIZE" and bs: "extension_to_bytes x v = Inr bs"
    and fits: "84 + length bs \<le> length page" and page': "page' = put_slice page 84 bs"
    using assms(2) by (auto simp: write_to_page0_def res_Inr HEADER_EXTENSION_OFFSET_def)
  obtain magic len where fmt: "extension_format v = Some (magic, len)" and bs_eq: "bs = magic @ extension_body x v"
    and int: "v \<ge> 11 \<or> integrity_is_empty (hx_base_integrity x)"
    and proj: "v \<ge> 13 \<or> hx_projection_primary x = projection_slot_empty \<and> hx_projection_secondary x = projection_slot_empty"
    using bs by (rule extension_to_bytes_eq)
  have len: "length bs = len" unfolding bs_eq using fmt by (rule extension_magic_facts)
  have nz: "\<not> list_all (\<lambda>b. b = 0) bs"
    unfolding bs_eq using extension_magic_facts [OF fmt] by (intro not_all_zero)
  have slice: "slice_get page' 84 (84 + len) = Some bs"
    unfolding page' len [symmetric] using fits by (rule slice_get_put_same)
  have v10: "\<not> v < 10" using fmt by (cases rule: extension_format_cases) simp_all
  have lp: "\<not> length page' < 84" using fits page by (simp add: page' PAGE_SIZE_def)
  note fields = extension_fields [OF fmt assms(1), folded bs_eq]
  have wf: "hx_base_fact_page_start x \<noteq> 0"
    "compute_base_layout_checksum crc (hx_base_fact_page_start x) = hx_base_layout_checksum x"
    and cov: "(\<not> integrity_is_empty (hx_base_integrity x) \<and>
      id_covered_start (hx_base_integrity x) \<noteq> hx_base_fact_page_start x) = False"
    using assms(1) by (auto simp: extension_wf_def)
  have base: "read_base_start crc (hx_base_fact_page_start x) (hx_base_layout_checksum x) =
      Inr (hx_base_fact_page_start x)"
    using read_base_start_ok [OF wf(1), of crc] by (simp add: wf(2))
  have cov_empty: "(\<not> integrity_is_empty integrity_descriptor_empty \<and> P) = False" for P
    by (simp add: integrity_is_empty_def)
  show "length page' = PAGE_SIZE" "take 84 page' = take 84 page"
    using fits page by (simp_all add: page' put_slice_def PAGE_SIZE_def)
  have int': "integrity_descriptor_empty = hx_base_integrity x" if "\<not> 11 \<le> v"
    using int that by (simp add: integrity_is_empty_def)
  have proj': "projection_slot_empty = hx_projection_primary x" "projection_slot_empty = hx_projection_secondary x"
    if "\<not> 13 \<le> v" using proj that by auto
  show "read_from_page0 crc v page' = Inr (Some x)"
    using lp int' proj'
    by (cases "11 \<le> v"; cases "13 \<le> v")
       (simp_all add: read_from_page0_def extension_lengths v10 fmt slice nz fields base wf(2) cov
          cov_empty del: de_Morgan_conj de_Morgan_disj not_not)
qed

lemma header_page_prefix:
  assumes "header_wf h"
  shows "length (resize_page (file_header_to_bytes h)) = PAGE_SIZE"
    "take 84 (resize_page (file_header_to_bytes h)) = file_header_to_bytes h"
  using assms by (simp_all add: resize_page_def PAGE_SIZE_def)

lemma header_at_version_id: "10 \<le> fh_version h \<Longrightarrow> header_at_version h = h"
proof -
  assume v: "10 \<le> fh_version h"
  have "3 < fh_version h" using v by (rule order.strict_trans2 [rotated]) simp
  moreover have "6 \<le> fh_version h" "7 \<le> fh_version h"
    using v by (rule order.trans [rotated], simp)+
  ultimately show ?thesis by (simp add: header_at_version_def)
qed

lemma header_page_built:
  assumes "header_wf h" "extension_wf crc x" "build_header_page_with_extension h x = Inr page"
  shows "length page = PAGE_SIZE \<and> file_header_from_bytes page = Inr h \<and>
    read_from_page0 crc (fh_version h) page = Inr (Some x)"
proof -
  let ?raw = "resize_page (file_header_to_bytes h)"
  have valid: "file_header_validate h = Inr ()" and w: "write_to_page0 x (fh_version h) ?raw = Inr page"
    and v: "fh_version h = 10 \<or> fh_version h = 11 \<or> fh_version h = 12 \<or> fh_version h = 13"
    using assms(3) by (auto simp: build_header_page_with_extension_def res_Inr Let_def)
  note rt = extension_page_roundtrip [OF assms(2) w]
  have "page = file_header_to_bytes h @ drop 84 page"
    using rt(3) header_page_prefix(2) [OF assms(1)] append_take_drop_id [of 84 page] by simp
  then have "file_header_from_bytes page = Inr (header_at_version h)"
    using file_header_magic_roundtrip [OF assms(1)] valid by (metis file_header_validate_ok)
  moreover have "header_at_version h = h" using v by (intro header_at_version_id) auto
  ultimately show ?thesis using rt(1,2) by simp
qed

lemma build_new_header_page:
  "\<exists>page. build_header_page crc file_header_new = Inr page \<and>
     build_header_page_with_extension file_header_new (header_extension_empty crc) = Inr page \<and>
     length page = PAGE_SIZE \<and> file_header_from_bytes page = Inr file_header_new \<and>
     read_from_page0 crc (fh_version file_header_new) page = Inr (Some (header_extension_empty crc))"
proof -
  let ?x = "header_extension_empty crc" and ?h = file_header_new
  have wf: "header_wf ?h" "extension_wf crc ?x"
    by (simp_all add: header_wf_def file_header_new_def MAGIC_NUMBER_def header_extension_empty_def extension_wf_new)
  have v: "fh_version ?h = 12" "file_header_validate ?h = Inr ()"
    by (simp_all add: file_header_new_def FORMAT_VERSION_def file_header_validate_def MAX_READABLE_FORMAT_VERSION_def)
  obtain bs where bs: "extension_to_bytes ?x 12 = Inr bs" "length bs = 160"
    by (simp add: extension_to_bytes_def extension_format_def header_extension_empty_def
        header_extension_new_def projection_slot_is_empty_def HEADER_EXTENSION_MAGIC_def Let_def)
  have len: "length (file_header_to_bytes ?h) = 84" using wf(1) by simp
  have eq: "build_header_page crc ?h = build_header_page_with_extension ?h ?x"
    by (simp add: build_header_page_def build_header_page_with_extension_def v Let_def)
  have "\<exists>page. build_header_page_with_extension ?h ?x = Inr page"
    using bs header_page_prefix(1) [OF wf(1)]
    by (simp add: build_header_page_with_extension_def write_to_page0_def v len
        HEADER_EXTENSION_OFFSET_def PAGE_SIZE_def Let_def)
  then obtain page where page: "build_header_page_with_extension ?h ?x = Inr page" by blast
  then show ?thesis using header_page_built [OF wf page] eq by auto
qed

text \<open>C28: page 0 built from a header and an extension is a full page from which both are read back
  unchanged, for every file format from 10 to 13; the builder refuses what the format cannot carry.\<close>

theorem header_page_roundtrip:
  assumes "header_wf h" "extension_wf crc x" "build_header_page_with_extension h x = Inr page"
  shows "length page = PAGE_SIZE \<and> file_header_from_bytes page = Inr h \<and>
    read_from_page0 crc (fh_version h) page = Inr (Some x)"
  using assms by (rule header_page_built)

theorem header_page_roundtrip_witness:
  "\<exists>page. build_header_page_with_extension file_header_new (header_extension_empty (\<lambda>_. 7)) = Inr page \<and>
     length page = PAGE_SIZE \<and> file_header_from_bytes page = Inr file_header_new \<and>
     read_from_page0 (\<lambda>_. 7) (fh_version file_header_new) page = Inr (Some (header_extension_empty (\<lambda>_. 7)))"
proof -
  let ?x = "header_extension_empty (\<lambda>_. 7)"
  have wf: "header_wf file_header_new" "extension_wf (\<lambda>_. 7) ?x"
    by (simp_all add: header_wf_def file_header_new_def MAGIC_NUMBER_def header_extension_empty_def extension_wf_new)
  obtain page where page: "build_header_page_with_extension file_header_new ?x = Inr page"
    using build_new_header_page [of "\<lambda>_. 7"] by blast
  show ?thesis using header_page_roundtrip [OF wf page] page by blast
qed

section \<open>Publication through the two slots\<close>

lemma manifest_slot_new_selectable:
  assumes "manifest_slot_new crc gen start pages len checksum = Inr s"
  shows "manifest_slot_is_selectable crc s" "ms_generation s = gen"
  using assms
  by (auto simp: manifest_slot_new_def res_Inr Let_def manifest_slot_is_selectable_def
      manifest_slot_is_empty_def manifest_slot_checksum_valid_def manifest_slot_compute_checksum_def
      manifest_slot_payload_def word_neq_0_conv)

fun other_slot :: "slot_name \<Rightarrow> slot_name" where
  "other_slot Primary = Secondary"
| "other_slot Secondary = Primary"

fun put_manifest_slot :: "slot_name \<Rightarrow> manifest_slot \<Rightarrow> header_extension \<Rightarrow> header_extension" where
  "put_manifest_slot Primary s x = x\<lparr> hx_primary := s \<rparr>"
| "put_manifest_slot Secondary s x = x\<lparr> hx_secondary := s \<rparr>"



end
