(* ===== verification/Storage_Backends.thy ===== *)
theory Storage_Backends
  imports Header_Extension
begin

text \<open>
  The storage backends of \<open>src/src/storage/backend/\<close>: \<open>memory.rs\<close> keeps pages in a hash map,
  \<open>file.rs\<close> in one file behind a cached header.  The trait \<open>StorageBackend\<close> is the interface
  \<open>page_store\<close>; both backends are interpretations of it, so what is proved in the interface about
  writing runs of pages and reading them back holds for both.  Failures of the operating system
  (full disk, unreadable sectors) are not modelled; locks that a panicking thread poisoned are.
\<close>

datatype backend_error = InvalidPageSize nat | PagesLockPoisoned | PageNotFound u64
  | PageOutOfBounds u64 u64 | PageOffsetOverflow u64 | PageCountOverflow u64 | ShortRead u64
  | BackendHeader header_error | BackendExtension extension_error | HeaderUnreadable nat
  | TruncatedDatabase nat | ImageOverflow | ImageTruncated nat nat

section \<open>Interface\<close>

text \<open>Writing consecutive pages, stopping at the first error.\<close>

fun write_run ::
    "(u64 \<Rightarrow> bytes \<Rightarrow> 'b \<Rightarrow> 'b \<times> (backend_error + unit)) \<Rightarrow> u64 \<Rightarrow> bytes list \<Rightarrow> 'b \<Rightarrow> 'b \<times> (backend_error + unit)" where
  "write_run write p [] b = (b, Inr ())"
| "write_run write p (d # ds) b =
     (case write p d b of (b', Inl e) \<Rightarrow> (b', Inl e) | (b', Inr _) \<Rightarrow> write_run write (p + 1) ds b')"

lemma unat_suc64: "unat p + 1 < 2 ^ 64 \<Longrightarrow> unat (p + 1 :: u64) = unat p + 1"
  using unat_add64 [of p 1] by simp

locale page_store =
  fixes write_page :: "u64 \<Rightarrow> bytes \<Rightarrow> 'b \<Rightarrow> 'b \<times> (backend_error + unit)"
    and read_page :: "'b \<Rightarrow> u64 \<Rightarrow> backend_error + bytes"
    and ok :: "'b \<Rightarrow> bool"
  assumes write_ok: "ok b \<Longrightarrow> ok (fst (write_page p d b))"
    and write_size: "write_page p d b = (b', Inr ()) \<Longrightarrow> length d = PAGE_SIZE"
    and read_size: "ok b \<Longrightarrow> read_page b p = Inr d \<Longrightarrow> length d = PAGE_SIZE"
    and read_same: "ok b \<Longrightarrow> p \<noteq> 0 \<Longrightarrow> write_page p d b = (b', Inr ()) \<Longrightarrow> read_page b' p = Inr d"
    and read_other: "ok b \<Longrightarrow> p \<noteq> 0 \<Longrightarrow> write_page p d b = (b', r) \<Longrightarrow> q \<noteq> p \<Longrightarrow>
      read_page b q = Inr x \<Longrightarrow> read_page b' q = Inr x"
begin

lemma write_pages_ok: "ok b \<Longrightarrow> ok (fst (write_run write_page p ds b))"
proof (induction ds arbitrary: p b)
  case (Cons d ds)
  obtain b' r where w: "write_page p d b = (b', r)" by fastforce
  have "ok b'" using write_ok [OF Cons.prems, of p d] w by simp
  then show ?case using Cons.IH [of b' "p + 1"] by (cases r) (simp_all add: w)
qed simp

text \<open>Writing a run of pages away from page 0 keeps every page outside the run.\<close>

lemma write_pages_keeps:
  assumes "ok b" "write_run write_page p ds b = (b', Inr ())" "unat p + length ds < 2 ^ 64" "p \<noteq> 0"
    "read_page b q = Inr x" "unat q < unat p \<or> unat p + length ds \<le> unat q"
  shows "read_page b' q = Inr x"
  using assms
proof (induction ds arbitrary: p b)
  case (Cons d ds)
  obtain b1 r where w: "write_page p d b = (b1, r)" by fastforce
  then have r: "r = Inr ()" and ws: "write_run write_page (p + 1) ds b1 = (b', Inr ())"
    using Cons.prems(2) by (cases r; simp)+
  have q: "q \<noteq> p" using Cons.prems(6) by auto
  have r1: "read_page b1 q = Inr x" using read_other [OF Cons.prems(1,4) w q Cons.prems(5)] .
  have ok1: "ok b1" using write_ok [OF Cons.prems(1), of p d] w by simp
  have p1: "unat (p + 1) = unat p + 1" using Cons.prems(3) by (intro unat_suc64) simp
  have "p + 1 \<noteq> 0" using p1 by (metis add_is_0 one_neq_zero unat_0)
  then show ?case
    using Cons.IH [OF ok1 ws _ _ r1] Cons.prems(3,6) p1 by auto
qed simp

lemma write_pages_read:
  assumes "ok b" "write_run write_page p ds b = (b', Inr ())" "unat p + length ds < 2 ^ 64" "p \<noteq> 0" "i < length ds"
  shows "read_page b' (p + of_nat i) = Inr (ds ! i)"
  using assms
proof (induction ds arbitrary: p b i)
  case (Cons d ds)
  obtain b1 r where w: "write_page p d b = (b1, r)" by fastforce
  then have r: "r = Inr ()" and ws: "write_run write_page (p + 1) ds b1 = (b', Inr ())"
    using Cons.prems(2) by (cases r; simp)+
  have ok1: "ok b1" using write_ok [OF Cons.prems(1), of p d] w by simp
  have p1: "unat (p + 1) = unat p + 1" using Cons.prems(3) by (intro unat_suc64) simp
  then have nz: "p + 1 \<noteq> 0" by (metis add_is_0 one_neq_zero unat_0)
  show ?case
  proof (cases i)
    case 0
    have "read_page b1 p = Inr d" using read_same [OF Cons.prems(1,4)] w r by simp
    then show ?thesis using write_pages_keeps [OF ok1 ws _ nz, of p d] Cons.prems(3) p1 0 by simp
  next
    case (Suc j)
    have "p + of_nat i = (p + 1) + of_nat j" by (simp add: Suc algebra_simps)
    then show ?thesis using Cons.IH [OF ok1 ws _ nz, of j] Cons.prems(3,5) p1 Suc by (simp add: add.assoc)
  qed
qed simp

end

section \<open>In-memory backend\<close>

record memory_backend =
  mb_pages :: "(u64, bytes) hash_map"
  mb_poisoned :: bool

definition mb_new :: memory_backend where
  "mb_new = \<lparr> mb_pages = [], mb_poisoned = False \<rparr>"

definition mb_write_page :: "u64 \<Rightarrow> bytes \<Rightarrow> memory_backend \<Rightarrow> memory_backend \<times> (backend_error + unit)" where
  "mb_write_page page_id data b =
     (if length data \<noteq> PAGE_SIZE then (b, Inl (InvalidPageSize (length data)))
      else if mb_poisoned b then (b, Inl PagesLockPoisoned)
      else (b\<lparr> mb_pages := hm_insert page_id data (mb_pages b) \<rparr>, Inr ()))"

definition mb_read_page :: "memory_backend \<Rightarrow> u64 \<Rightarrow> backend_error + bytes" where
  "mb_read_page b page_id =
     (if mb_poisoned b then Inl PagesLockPoisoned
      else ok_or (PageNotFound page_id) (hm_get (mb_pages b) page_id))"

definition mb_page_count :: "memory_backend \<Rightarrow> u64" where
  "mb_page_count b = of_nat (length (mb_pages b))"

definition mb_has_complete_page_prefix :: "memory_backend \<Rightarrow> u64 \<Rightarrow> backend_error + bool" where
  "mb_has_complete_page_prefix b published =
     (if mb_poisoned b then Inl PagesLockPoisoned
      else Inr (list_all (\<lambda>i. case hm_get (mb_pages b) (of_nat i) of
                              None \<Rightarrow> False | Some page \<Rightarrow> length page = PAGE_SIZE) [0..<unat published]))"

definition mb_is_new :: "memory_backend \<Rightarrow> bool" where
  "mb_is_new b = True"

definition mb_ok :: "memory_backend \<Rightarrow> bool" where
  "mb_ok b \<longleftrightarrow> hm_wf (mb_pages b) \<and> (\<forall>p d. hm_get (mb_pages b) p = Some d \<longrightarrow> length d = PAGE_SIZE)"

interpretation memory_store: page_store mb_write_page mb_read_page mb_ok
proof unfold_locales
  fix b p d assume "mb_ok b"
  then show "mb_ok (fst (mb_write_page p d b))"
    by (auto simp: mb_ok_def mb_write_page_def simp del: map_of_eq_Some_iff split: if_splits)
next
  fix p d b b' assume "mb_write_page p d b = (b', Inr ())"
  then show "length d = PAGE_SIZE" by (auto simp: mb_write_page_def split: if_splits)
next
  fix b p d assume "mb_ok b" "mb_read_page b p = Inr d"
  then show "length d = PAGE_SIZE" by (auto simp: mb_ok_def mb_read_page_def split: if_splits)
next
  fix b p d b' assume "mb_write_page p d b = (b', Inr ())"
  then show "mb_read_page b' p = Inr d" by (auto simp: mb_write_page_def mb_read_page_def split: if_splits)
next
  fix b p d b' r q x assume "mb_write_page p d b = (b', r)" "q \<noteq> p" "mb_read_page b q = Inr x"
  then show "mb_read_page b' q = Inr x" by (auto simp: mb_write_page_def mb_read_page_def split: if_splits)
qed

section \<open>File backend\<close>

text \<open>The open file, the cached header and whether the file was created by this open.  Every
  operation seeks before it reads or writes, so the position left behind is irrelevant.\<close>

record file_backend =
  fb_file :: os_file
  fb_header :: file_header
  fb_is_new :: bool

definition fb_read_header :: "os_file \<Rightarrow> backend_error + file_header" where
  "fb_read_header f =
     (case file_read_exact PAGE_SIZE (file_seek 0 f) of
        None \<Rightarrow> Inl (ShortRead 0)
      | Some (header_bytes, _) \<Rightarrow>
          res_bind (map_err BackendHeader (file_header_from_bytes header_bytes)) (\<lambda>header.
          res_bind (map_err BackendHeader (file_header_validate header)) (\<lambda>_. Inr header)))"

definition fb_write_header :: "(bytes \<Rightarrow> u32) \<Rightarrow> os_file \<Rightarrow> file_header \<Rightarrow> backend_error + os_file" where
  "fb_write_header crc f header =
     res_bind (map_err BackendExtension (build_header_page crc header)) (\<lambda>page.
       Inr (file_write_all page (file_seek 0 f)))"

text \<open>\<open>open\<close> after the lock has been taken; \<open>create(true)\<close> gives an empty file when there is none.\<close>

definition fb_open :: "(bytes \<Rightarrow> u32) \<Rightarrow> bytes option \<Rightarrow> backend_error + file_backend" where
  "fb_open crc path =
     (let data = (case path of None \<Rightarrow> [] | Some data \<Rightarrow> data);
          f = file_of data;
          is_new = (length data = 0)
      in res_bind
          (if length data \<ge> PAGE_SIZE then
             (case fb_read_header f of
                Inr header \<Rightarrow> Inr (f, header)
              | Inl e \<Rightarrow> Inl (HeaderUnreadable (length data)))
           else if is_new then
             res_bind (fb_write_header crc f file_header_new) (\<lambda>f'. Inr (f', file_header_new))
           else Inl (TruncatedDatabase (length data)))
          (\<lambda>(f, header). Inr \<lparr> fb_file = f, fb_header = header, fb_is_new = is_new \<rparr>))"

definition fb_write_page :: "u64 \<Rightarrow> bytes \<Rightarrow> file_backend \<Rightarrow> file_backend \<times> (backend_error + unit)" where
  "fb_write_page page_id data b =
     (if length data \<noteq> PAGE_SIZE then (b, Inl (InvalidPageSize (length data)))
      else case u64_checked_mul page_id PAGE_SIZE_u64 of
        None \<Rightarrow> (b, Inl (PageOffsetOverflow page_id))
      | Some offset \<Rightarrow>
          let b1 = b\<lparr> fb_file := file_write_all data (file_seek (unat offset) (fb_file b)) \<rparr> in
          if page_id = 0 then
            (case file_header_from_bytes data of
               Inl e \<Rightarrow> (b1, Inl (BackendHeader e))
             | Inr header \<Rightarrow> (b1\<lparr> fb_header := header \<rparr>, Inr ()))
          else if page_id \<ge> fh_page_count (fb_header b) then
            (case u64_checked_add page_id 1 of
               None \<Rightarrow> (b1, Inl (PageCountOverflow page_id))
             | Some n \<Rightarrow> (b1\<lparr> fb_header := (fb_header b)\<lparr> fh_page_count := n \<rparr> \<rparr>, Inr ()))
          else (b1, Inr ()))"

definition fb_read_page :: "file_backend \<Rightarrow> u64 \<Rightarrow> backend_error + bytes" where
  "fb_read_page b page_id =
     (if page_id \<ge> fh_page_count (fb_header b)
      then Inl (PageOutOfBounds page_id (fh_page_count (fb_header b)))
      else case u64_checked_mul page_id PAGE_SIZE_u64 of
        None \<Rightarrow> Inl (PageOffsetOverflow page_id)
      | Some offset \<Rightarrow>
          (case file_read_exact PAGE_SIZE (file_seek (unat offset) (fb_file b)) of
             None \<Rightarrow> Inl (ShortRead page_id)
           | Some (data, _) \<Rightarrow> Inr data))"

definition fb_page_count :: "file_backend \<Rightarrow> u64" where
  "fb_page_count b = fh_page_count (fb_header b)"

definition fb_has_complete_page_prefix :: "file_backend \<Rightarrow> u64 \<Rightarrow> backend_error + bool" where
  "fb_has_complete_page_prefix b published =
     (case u64_checked_mul published PAGE_SIZE_u64 of
        None \<Rightarrow> Inl ImageOverflow
      | Some required \<Rightarrow> Inr (length (fl_data (fb_file b)) \<ge> unat required))"

definition copy_published_image_to :: "file_backend \<Rightarrow> backend_error + bytes" where
  "copy_published_image_to b =
     res_bind (fb_read_header (fb_file b)) (\<lambda>published.
     res_bind (ok_or ImageOverflow (u64_checked_mul (fh_page_count published) PAGE_SIZE_u64)) (\<lambda>byte_len.
     let copied = take (unat byte_len) (fl_data (fb_file b)) in
     bail_if (length copied \<noteq> unat byte_len) (ImageTruncated (unat byte_len) (length copied)) (Inr copied)))"

lemma page_offset:
  assumes "u64_checked_mul p PAGE_SIZE_u64 = Some off"
  shows "unat off = unat p * PAGE_SIZE"
  using assms by (simp add: u64_checked_mul_Some PAGE_SIZE_u64_def PAGE_SIZE_def)

lemma page_offset_small:
  assumes "u64_checked_mul p PAGE_SIZE_u64 = Some off"
  shows "unat p + 1 < 2 ^ 64"
  using unat_lt2p [of off] page_offset [OF assms] by (simp add: PAGE_SIZE_def)

lemma fb_read_page_Inr:
  "fb_read_page b p = Inr d \<longleftrightarrow> p < fh_page_count (fb_header b) \<and>
     (\<exists>off. u64_checked_mul p PAGE_SIZE_u64 = Some off) \<and>
     slice_get (fl_data (fb_file b)) (unat p * PAGE_SIZE) (unat p * PAGE_SIZE + PAGE_SIZE) = Some d"
proof (cases "u64_checked_mul p PAGE_SIZE_u64")
  case None
  then show ?thesis by (simp add: fb_read_page_def)
next
  case (Some off)
  show ?thesis
    unfolding fb_read_page_def file_seek_def file_read_exact_def Some
    by (cases "slice_get (fl_data (fb_file b)) (unat off) (unat off + PAGE_SIZE)")
       (simp_all add: page_offset [OF Some] not_le [symmetric])
qed

lemma fb_write_page_data:
  assumes "fb_write_page p d b = (b', Inr ())"
  shows "length d = PAGE_SIZE" "\<exists>off. u64_checked_mul p PAGE_SIZE_u64 = Some off"
    "fl_data (fb_file b') = fl_data (file_write_all d (file_seek (unat p * PAGE_SIZE) (fb_file b)))"
  using assms
  by (auto simp: fb_write_page_def Let_def page_offset split: if_splits option.splits sum.splits)

lemma fb_write_page_header:
  assumes "fb_write_page p d b = (b', r)" "p \<noteq> 0"
  shows "fh_page_count (fb_header b) \<le> fh_page_count (fb_header b')"
    "r = Inr () \<Longrightarrow> p < fh_page_count (fb_header b')"
proof -
  have p1: "p < p + 1" if "u64_checked_mul p PAGE_SIZE_u64 = Some off" for off
    using unat_suc64 [OF page_offset_small [OF that]] by (simp add: word_less_nat_alt)
  have add: "u64_checked_add p 1 = Some n \<longleftrightarrow> unat n = unat p + 1" for n
    by (simp add: u64_checked_add_Some)
  show "fh_page_count (fb_header b) \<le> fh_page_count (fb_header b')"
    using assms by (auto simp: fb_write_page_def Let_def add word_le_nat_alt split: if_splits option.splits)
  show "r = Inr () \<Longrightarrow> p < fh_page_count (fb_header b')"
    using assms by (auto simp: fb_write_page_def Let_def add word_less_nat_alt word_le_nat_alt split: if_splits option.splits)
qed

lemma fb_write_page_other:
  assumes "fb_write_page p d b = (b', r)" "p \<noteq> q"
    "slice_get (fl_data (fb_file b)) (unat q * PAGE_SIZE) (unat q * PAGE_SIZE + PAGE_SIZE) = Some x"
  shows "slice_get (fl_data (fb_file b')) (unat q * PAGE_SIZE) (unat q * PAGE_SIZE + PAGE_SIZE) = Some x"
proof (cases "fl_data (fb_file b') = fl_data (fb_file b)")
  case True
  then show ?thesis using assms(3) by simp
next
  case False
  then have d: "length d = PAGE_SIZE"
    and w: "fl_data (fb_file b') = fl_data (file_write_all d (file_seek (unat p * PAGE_SIZE) (fb_file b)))"
    using assms(1) by (auto simp: fb_write_page_def Let_def page_offset split: if_splits option.splits sum.splits)
  have "unat p \<noteq> unat q" using assms(2) by (simp only: word_unat_eq_iff not_False_eq_True)
  then have "unat q + 1 \<le> unat p \<or> unat p + 1 \<le> unat q" by linarith
  then have "(unat q + 1) * PAGE_SIZE \<le> unat p * PAGE_SIZE \<or> (unat p + 1) * PAGE_SIZE \<le> unat q * PAGE_SIZE"
    by (metis mult_le_mono1)
  then have "unat q * PAGE_SIZE + PAGE_SIZE \<le> unat p * PAGE_SIZE \<or> unat p * PAGE_SIZE + PAGE_SIZE \<le> unat q * PAGE_SIZE"
    by (simp add: algebra_simps)
  then show ?thesis
    unfolding w using assms(3) d by (intro slice_get_write_other) (auto simp: file_seek_def)
qed

interpretation file_store: page_store fb_write_page fb_read_page "\<lambda>_. True"
proof unfold_locales
  fix p d b b' assume "fb_write_page p d b = (b', Inr ())"
  then show "length d = PAGE_SIZE" by (rule fb_write_page_data)
next
  fix b p d assume "fb_read_page b p = Inr d"
  then show "length d = PAGE_SIZE" by (auto simp: fb_read_page_Inr dest: slice_get_length)
next
  fix b p d b' assume nz: "p \<noteq> (0 :: u64)" and w: "fb_write_page p d b = (b', Inr ())"
  have "slice_get (fl_data (fb_file b')) (unat p * PAGE_SIZE) (unat p * PAGE_SIZE + PAGE_SIZE) = Some d"
    unfolding fb_write_page_data(3) [OF w]
    using slice_get_write_same [of d "file_seek (unat p * PAGE_SIZE) (fb_file b)"] fb_write_page_data(1) [OF w]
    by (simp add: file_seek_def)
  then show "fb_read_page b' p = Inr d"
    using fb_write_page_header(2) [OF w nz] fb_write_page_data(2) [OF w] by (simp add: fb_read_page_Inr)
next
  fix b p d b' r q x
  assume nz: "p \<noteq> (0 :: u64)" and w: "fb_write_page p d b = (b', r)" and q: "q \<noteq> p" and r: "fb_read_page b q = Inr x"
  show "fb_read_page b' q = Inr x"
    using r fb_write_page_header(1) [OF w nz] fb_write_page_other [OF w q [symmetric]]
    by (auto simp: fb_read_page_Inr intro: order.strict_trans2)
qed simp

section \<open>Opening and copying files\<close>

lemma fb_read_header_prefix:
  assumes "take PAGE_SIZE (fl_data f) = take PAGE_SIZE (fl_data g)" "PAGE_SIZE \<le> length (fl_data f)" "PAGE_SIZE \<le> length (fl_data g)"
  shows "fb_read_header f = fb_read_header g"
  using assms by (simp add: fb_read_header_def file_seek_def file_read_exact_def slice_get_def)

lemma fb_read_header_Inr:
  assumes "fb_read_header f = Inr h"
  shows "PAGE_SIZE \<le> length (fl_data f)" "fh_page_count h \<noteq> 0" "file_header_validate h = Inr ()"
proof -
  obtain bs where bs: "slice_get (fl_data f) 0 PAGE_SIZE = Some bs"
    using assms by (auto simp: fb_read_header_def file_seek_def file_read_exact_def split: option.splits)
  then show "PAGE_SIZE \<le> length (fl_data f)" by (simp add: slice_get_def split: if_splits)
  show v: "file_header_validate h = Inr ()"
    using assms by (auto simp: fb_read_header_def res_Inr split: option.splits)
  then show "fh_page_count h \<noteq> 0" by (simp add: file_header_validate_ok)
qed

text \<open>A backup image is a faithful database file.  The image copied from an open backend has exactly
  the pages that the published header on page 0 counts, without unpublished tail pages; opening it
  succeeds with that header, and every published page reads as the bytes of the source file.\<close>

theorem copy_published_image_faithful:
  assumes "fb_read_header (fb_file b) = Inr h" "copy_published_image_to b = Inr img"
  shows "length img = unat (fh_page_count h) * PAGE_SIZE \<and>
    (\<exists>b'. fb_open crc (Some img) = Inr b' \<and> fb_header b' = h \<and> \<not> fb_is_new b' \<and>
      (\<forall>p < fh_page_count h. fb_read_page b' p =
         Inr (take PAGE_SIZE (drop (unat p * PAGE_SIZE) (fl_data (fb_file b))))))"
proof -
  let ?data = "fl_data (fb_file b)" and ?n = "unat (fh_page_count h) * PAGE_SIZE"
  note h = fb_read_header_Inr [OF assms(1)]
  obtain len where len: "u64_checked_mul (fh_page_count h) PAGE_SIZE_u64 = Some len"
    and img: "img = take ?n ?data" and full: "length img = ?n"
    using assms by (auto simp: copy_published_image_to_def res_Inr Let_def page_offset)
  have pos: "1 \<le> unat (fh_page_count h)" using h(2) by (simp add: unat_gt_0 [symmetric] Suc_le_eq)
  then have big: "PAGE_SIZE \<le> ?n" by (metis mult_le_mono1 mult_1)
  have same: "fb_read_header (file_of img) = Inr h"
    using fb_read_header_prefix [of "file_of img" "fb_file b"] assms(1) h(1) big full
    by (simp add: file_of_def img min_absorb1)
  let ?b = "\<lparr> fb_file = file_of img, fb_header = h, fb_is_new = False \<rparr>"
  have "img \<noteq> []" using big full by (auto simp: PAGE_SIZE_def)
  then have open': "fb_open crc (Some img) = Inr ?b"
    using same big full by (simp add: fb_open_def Let_def del: mult_le_cancel2)
  have "fb_read_page ?b p = Inr (take PAGE_SIZE (drop (unat p * PAGE_SIZE) ?data))" if p: "p < fh_page_count h" for p
  proof -
    have "unat p + 1 \<le> unat (fh_page_count h)" using p by (simp add: word_less_nat_alt)
    then have fits: "unat p * PAGE_SIZE + PAGE_SIZE \<le> ?n" by (metis add_mult_distrib mult_1 mult_le_mono1)
    have "unat p * unat PAGE_SIZE_u64 \<le> unat (fh_page_count h) * unat PAGE_SIZE_u64"
      using p by (intro mult_le_mono1) (simp add: word_less_nat_alt)
    also have "\<dots> = unat len" using len by (simp only: u64_checked_mul_Some)
    finally have "unat p * unat PAGE_SIZE_u64 < 2 ^ 64" using unat_lt2p [of len] by simp
    then have "\<exists>off. u64_checked_mul p PAGE_SIZE_u64 = Some off" by (simp add: u64_checked_mul_def)
    then show ?thesis
      using p fits full
      by (simp add: fb_read_page_Inr slice_get_def file_of_def) (simp add: img drop_take min_absorb1 add_le_imp_le_diff)
  qed
  then show ?thesis using open' full by auto
qed

lemma fb_open_new:
  "\<exists>b. fb_open crc None = Inr b \<and> fb_header b = file_header_new \<and> fb_is_new b \<and>
     length (fl_data (fb_file b)) = PAGE_SIZE \<and> fb_read_header (fb_file b) = Inr file_header_new"
proof -
  obtain page where page: "build_header_page crc file_header_new = Inr page" "length page = PAGE_SIZE"
    "file_header_from_bytes page = Inr file_header_new" using build_new_header_page by blast
  have v: "file_header_validate file_header_new = Inr ()"
    by (simp add: file_header_new_def FORMAT_VERSION_def file_header_validate_def MAX_READABLE_FORMAT_VERSION_def)
  let ?f = "file_write_all page (file_seek 0 (file_of []))"
  have f: "fl_data ?f = page" by (simp add: file_write_all_def file_seek_def file_of_def)
  have "fb_read_header ?f = Inr file_header_new"
    using page v by (simp add: fb_read_header_def file_seek_def file_read_exact_def slice_get_def f [unfolded file_seek_def])
  moreover have "fb_open crc None = Inr \<lparr> fb_file = ?f, fb_header = file_header_new, fb_is_new = True \<rparr>"
    using page(1) by (simp add: fb_open_def fb_write_header_def Let_def PAGE_SIZE_def)
  ultimately show ?thesis using f page(2) by auto
qed

theorem copy_published_image_faithful_witness:
  "\<exists>b img b'. fb_open (\<lambda>_. 7) None = Inr b \<and> copy_published_image_to b = Inr img \<and> length img = PAGE_SIZE \<and>
     fb_open (\<lambda>_. 7) (Some img) = Inr b' \<and> fb_header b' = file_header_new"
proof -
  obtain b where b: "fb_open (\<lambda>_. 7) None = Inr b" "length (fl_data (fb_file b)) = PAGE_SIZE"
    "fb_read_header (fb_file b) = Inr file_header_new" using fb_open_new by blast
  have one: "fh_page_count file_header_new = 1" by (simp add: file_header_new_def)
  obtain img where img: "copy_published_image_to b = Inr img"
    using b by (simp add: copy_published_image_to_def one u64_checked_mul_def PAGE_SIZE_u64_def PAGE_SIZE_def Let_def)
  show ?thesis
    using copy_published_image_faithful [OF b(3) img, of "\<lambda>_. 7"] b(1) img one by auto
qed

text \<open>Creating a database and reopening it: opening a missing path initialises page 0, and opening the
  resulting file gives the same header and is no longer reported as new; a file with some but less
  than one page of content is refused instead of being reinitialised.\<close>

theorem fb_open_reopen:
  "\<exists>b b'. fb_open crc None = Inr b \<and> fb_is_new b \<and>
     fb_open crc (Some (fl_data (fb_file b))) = Inr b' \<and> fb_header b' = fb_header b \<and> \<not> fb_is_new b' \<and>
     (\<forall>d. 0 < length d \<and> length d < PAGE_SIZE \<longrightarrow> fb_open crc (Some d) = Inl (TruncatedDatabase (length d)))"
proof -
  obtain b where b: "fb_open crc None = Inr b" "fb_header b = file_header_new" "fb_is_new b"
    "length (fl_data (fb_file b)) = PAGE_SIZE" "fb_read_header (fb_file b) = Inr file_header_new"
    using fb_open_new by blast
  have "fb_read_header (file_of (fl_data (fb_file b))) = Inr file_header_new"
    using fb_read_header_prefix [of "file_of (fl_data (fb_file b))" "fb_file b"] b by (simp add: file_of_def)
  moreover have "fl_data (fb_file b) \<noteq> []" using b(4) by (auto simp: PAGE_SIZE_def)
  ultimately have "fb_open crc (Some (fl_data (fb_file b))) =
      Inr \<lparr> fb_file = file_of (fl_data (fb_file b)), fb_header = file_header_new, fb_is_new = False \<rparr>"
    using b(4) by (simp add: fb_open_def Let_def)
  moreover have "fb_open crc (Some d) = Inl (TruncatedDatabase (length d))" if "0 < length d" "length d < PAGE_SIZE" for d
    using that by (simp add: fb_open_def Let_def)
  ultimately show ?thesis using b by auto
qed

theorem fb_open_reopen_witness:
  "fb_open (\<lambda>_. 7) (Some [0x4D, 0x47]) = Inl (TruncatedDatabase 2)"
proof -
  have "0 < length [0x4D, 0x47 :: u8]" "length [0x4D, 0x47 :: u8] < PAGE_SIZE" by (simp_all add: PAGE_SIZE_def)
  then show ?thesis using fb_open_reopen [of "\<lambda>_. 7"] by force
qed

end
