(* ===== verification/Page_Cache.thy ===== *)
theory Page_Cache
  imports Storage_Backends
begin

text \<open>
  The page cache of \<open>src/src/storage/cache.rs\<close>: entries in a hash map, an order list whose front is
  evicted first, and a capacity.  \<open>get_or_load\<close> takes the read lock, then the write lock, so its two
  critical sections are separate definitions and the lemmas hold for any state of the cache in
  between.  The backend is the reading function that the caller passes.
\<close>

section \<open>Definitions\<close>

record cache_entry =
  ce_data :: bytes
  ce_dirty :: bool

record page_cache =
  pc_entries :: "(u64, cache_entry) hash_map"
  pc_order :: "u64 list"
  pc_capacity :: nat
  pc_poisoned :: bool

datatype cache_error = CacheLockPoisoned | CacheBackend backend_error

definition cache_new :: "nat \<Rightarrow> page_cache" where
  "cache_new capacity = \<lparr> pc_entries = [], pc_order = [], pc_capacity = capacity, pc_poisoned = False \<rparr>"

text \<open>\<open>touch\<close>: nothing to do when the page is already last; otherwise remove the first occurrence and
  append the page.\<close>

definition touch_order :: "u64 \<Rightarrow> u64 list \<Rightarrow> u64 list" where
  "touch_order page_id order =
     (if page_id \<in> set order then
        if last order = page_id then order else remove1 page_id order @ [page_id]
      else order @ [page_id])"

text \<open>The eviction loop; an empty order list ends it.\<close>

fun evict :: "nat \<Rightarrow> (u64, cache_entry) hash_map \<Rightarrow> u64 list \<Rightarrow> (u64, cache_entry) hash_map \<times> u64 list" where
  "evict capacity entries [] = (entries, [])"
| "evict capacity entries (i # order) =
     (if length entries \<ge> capacity \<and> capacity > 0
      then evict capacity (AList.delete i entries) order
      else (entries, i # order))"

definition insert_entry :: "u64 \<Rightarrow> cache_entry \<Rightarrow> page_cache \<Rightarrow> page_cache" where
  "insert_entry page_id e c =
     (let (entries, order) = evict (pc_capacity c) (pc_entries c) (pc_order c)
      in c\<lparr> pc_entries := hm_insert page_id e entries, pc_order := order @ [page_id] \<rparr>)"

definition cache_lookup :: "page_cache \<Rightarrow> u64 \<Rightarrow> cache_error + bytes option" where
  "cache_lookup c page_id =
     (if pc_poisoned c then Inl CacheLockPoisoned
      else Inr (map_option ce_data (hm_get (pc_entries c) page_id)))"

definition cache_install :: "page_cache \<Rightarrow> u64 \<Rightarrow> bytes \<Rightarrow> page_cache \<times> (cache_error + bytes)" where
  "cache_install c page_id data =
     (if pc_poisoned c then (c, Inl CacheLockPoisoned)
      else case hm_get (pc_entries c) page_id of
        Some e \<Rightarrow> (c, Inr (ce_data e))
      | None \<Rightarrow> (insert_entry page_id \<lparr> ce_data = data, ce_dirty = False \<rparr> c, Inr data))"

definition get_or_load ::
    "(u64 \<Rightarrow> backend_error + bytes) \<Rightarrow> page_cache \<Rightarrow> u64 \<Rightarrow> page_cache \<times> (cache_error + bytes)" where
  "get_or_load read c page_id =
     (case cache_lookup c page_id of
        Inl e \<Rightarrow> (c, Inl e)
      | Inr (Some data) \<Rightarrow> (c, Inr data)
      | Inr None \<Rightarrow>
          (case read page_id of
             Inl e \<Rightarrow> (c, Inl (CacheBackend e))
           | Inr data \<Rightarrow> cache_install c page_id data))"

definition put_dirty :: "page_cache \<Rightarrow> u64 \<Rightarrow> bytes \<Rightarrow> page_cache" where
  "put_dirty c page_id data =
     (if hm_get (pc_entries c) page_id \<noteq> None then
        c\<lparr> pc_entries := hm_insert page_id \<lparr> ce_data = data, ce_dirty = True \<rparr> (pc_entries c),
           pc_order := touch_order page_id (pc_order c) \<rparr>
      else insert_entry page_id \<lparr> ce_data = data, ce_dirty = True \<rparr> c)"

text \<open>\<open>flush\<close> walks the map in its iteration order and stops at the first failing write.\<close>

fun flush_entries ::
    "(u64 \<Rightarrow> bytes \<Rightarrow> 'b \<Rightarrow> 'b \<times> (backend_error + unit)) \<Rightarrow> (u64, cache_entry) hash_map \<Rightarrow> 'b
     \<Rightarrow> (u64, cache_entry) hash_map \<times> 'b \<times> (cache_error + unit)" where
  "flush_entries write [] b = ([], b, Inr ())"
| "flush_entries write ((p, e) # es) b =
     (if ce_dirty e then
        (case write p (ce_data e) b of
           (b', Inl err) \<Rightarrow> ((p, e) # es, b', Inl (CacheBackend err))
         | (b', Inr _) \<Rightarrow>
             (case flush_entries write es b' of
                (es', b'', r) \<Rightarrow> ((p, e\<lparr> ce_dirty := False \<rparr>) # es', b'', r)))
      else (case flush_entries write es b of (es', b', r) \<Rightarrow> ((p, e) # es', b', r)))"

definition cache_flush ::
    "(u64 \<Rightarrow> bytes \<Rightarrow> 'b \<Rightarrow> 'b \<times> (backend_error + unit)) \<Rightarrow> page_cache \<Rightarrow> 'b \<Rightarrow> page_cache \<times> 'b \<times> (cache_error + unit)" where
  "cache_flush write c b =
     (if pc_poisoned c then (c, b, Inl CacheLockPoisoned)
      else case flush_entries write (pc_entries c) b of
        (es, b', r) \<Rightarrow> (c\<lparr> pc_entries := es \<rparr>, b', r))"

definition invalidate :: "page_cache \<Rightarrow> u64 \<Rightarrow> page_cache" where
  "invalidate c page_id =
     c\<lparr> pc_entries := AList.delete page_id (pc_entries c),
        pc_order := filter (\<lambda>i. i \<noteq> page_id) (pc_order c) \<rparr>"

definition invalidate_from :: "page_cache \<Rightarrow> u64 \<Rightarrow> page_cache" where
  "invalidate_from c from_page =
     c\<lparr> pc_entries := filter (\<lambda>(i, _). i < from_page) (pc_entries c),
        pc_order := filter (\<lambda>i. i < from_page) (pc_order c) \<rparr>"

definition cached_page_count :: "page_cache \<Rightarrow> nat" where
  "cached_page_count c = length (pc_entries c)"

section \<open>Invariant\<close>

definition cache_wf :: "page_cache \<Rightarrow> bool" where
  "cache_wf c \<longleftrightarrow> hm_wf (pc_entries c) \<and> distinct (pc_order c) \<and>
     set (pc_order c) = fst ` set (pc_entries c) \<and>
     (pc_capacity c > 0 \<longrightarrow> length (pc_entries c) \<le> pc_capacity c)"

declare map_of_eq_Some_iff [simp del]

lemma update_new: "p \<notin> fst ` set es \<Longrightarrow> hm_insert p e es = es @ [(p, e)]"
  by (induction es) auto

lemma delete_fst: "fst ` set (AList.delete i m) = fst ` set m - {i}"
proof -
  have "set (map fst (AList.delete i m)) = set (removeAll i (map fst m))" by (simp only: AList.delete_keys)
  then show ?thesis by auto
qed

lemma wf_length:
  assumes "hm_wf m" "distinct order" "set order = fst ` set m"
  shows "length m = length order"
proof -
  have "length m = card (set (map fst m))" using distinct_card [OF assms(1)] by simp
  also have "\<dots> = length order" using distinct_card [OF assms(2)] assms(3) by simp
  finally show ?thesis .
qed

lemma evict_inv:
  assumes "hm_wf es" "distinct order" "set order = fst ` set es" "evict capacity es order = (es', order')"
  shows "hm_wf es' \<and> distinct order' \<and> set order' = fst ` set es' \<and> set order' \<subseteq> set order \<and>
    (capacity > 0 \<longrightarrow> length es' < capacity) \<and> (\<forall>p e. hm_get es' p = Some e \<longrightarrow> hm_get es p = Some e)"
  using assms
proof (induction capacity es order rule: evict.induct)
  case (1 capacity es)
  then show ?case using wf_length [OF 1(1,2,3)] by auto
next
  case (2 capacity es i order)
  show ?case
  proof (cases "length es \<ge> capacity \<and> capacity > 0")
    case True
    let ?es = "AList.delete i es"
    have wf: "hm_wf ?es" using 2(2) by (rule AList.distinct_delete)
    have keys: "set order = fst ` set ?es" using 2(3,4) by (auto simp: delete_fst)
    have ev: "evict capacity ?es order = (es', order')" using 2(5) True by simp
    have "distinct order" using 2(3) by simp
    then have IH: "hm_wf es' \<and> distinct order' \<and> set order' = fst ` set es' \<and> set order' \<subseteq> set order \<and>
      (capacity > 0 \<longrightarrow> length es' < capacity) \<and> (\<forall>p e. hm_get es' p = Some e \<longrightarrow> hm_get ?es p = Some e)"
      using 2(1) [OF True wf _ keys ev] by blast
    have sub: "hm_get es p = Some e" if "hm_get ?es p = Some e" for p e
      using that by (simp add: AList.delete_conv' split: if_splits)
    show ?thesis using IH sub by auto
  next
    case False
    then have "es' = es" "order' = i # order" using 2(5) by auto
    then show ?thesis using 2(2,3,4) False by auto
  qed
qed

lemma insert_entry_inv:
  assumes "cache_wf c" "hm_get (pc_entries c) p = None"
  shows "cache_wf (insert_entry p e c)"
    and "hm_get (pc_entries (insert_entry p e c)) q = Some x \<Longrightarrow>
      (if q = p then x = e else hm_get (pc_entries c) q = Some x)"
    and "hm_get (pc_entries (insert_entry p e c)) p = Some e"
proof -
  obtain es order where ev: "evict (pc_capacity c) (pc_entries c) (pc_order c) = (es, order)" by fastforce
  have "hm_wf (pc_entries c)" "distinct (pc_order c)" "set (pc_order c) = fst ` set (pc_entries c)"
    using assms(1) by (auto simp: cache_wf_def)
  note inv = evict_inv [OF this ev]
  have p: "p \<notin> fst ` set (pc_entries c)" using assms(2) by (simp add: map_of_eq_None_iff)
  moreover have "set order \<subseteq> fst ` set (pc_entries c)" using inv assms(1) unfolding cache_wf_def by blast
  ultimately have "p \<notin> set order" by blast
  then have "p \<notin> fst ` set es" using inv by blast
  then have upd: "hm_insert p e es = es @ [(p, e)]"
    by (rule update_new)
  have ins: "insert_entry p e c = c\<lparr> pc_entries := hm_insert p e es, pc_order := order @ [p] \<rparr>"
    by (simp add: insert_entry_def ev)
  show "cache_wf (insert_entry p e c)"
    using inv \<open>p \<notin> set order\<close> \<open>p \<notin> fst ` set es\<close> by (auto simp: cache_wf_def ins upd)
  show "hm_get (pc_entries (insert_entry p e c)) q = Some x \<Longrightarrow>
      (if q = p then x = e else hm_get (pc_entries c) q = Some x)"
    using inv by (auto simp: ins simp del: map_of_eq_Some_iff split: if_splits)
  show "hm_get (pc_entries (insert_entry p e c)) p = Some e" by (simp add: ins del: map_of_eq_Some_iff)
qed

lemma touch_order_inv:
  assumes "distinct order"
  shows "distinct (touch_order p order) \<and> set (touch_order p order) = insert p (set order)"
  using assms by (auto simp: touch_order_def)

lemma put_dirty_wf: "cache_wf c \<Longrightarrow> cache_wf (put_dirty c p d)"
proof (cases "hm_get (pc_entries c) p")
  case None
  assume "cache_wf c"
  then show ?thesis using None by (simp add: put_dirty_def insert_entry_inv(1))
next
  case (Some e)
  assume wf: "cache_wf c"
  have p: "p \<in> fst ` set (pc_entries c)" using Some by (metis map_of_eq_None_iff option.distinct(1))
  have keys: "map fst (hm_insert p x (pc_entries c)) = map fst (pc_entries c)" for x
    using p by (simp add: AList.update_keys)
  have len: "length (hm_insert p x (pc_entries c)) = length (pc_entries c)" for x
    using arg_cong [OF keys, of length] by simp
  have "fst ` set (hm_insert p x (pc_entries c)) = fst ` set (pc_entries c)" for x
    using arg_cong [OF keys, of set] by simp
  then show ?thesis
    using wf p Some touch_order_inv [of "pc_order c" p] by (auto simp: put_dirty_def cache_wf_def len keys)
qed

lemma get_or_load_wf:
  assumes "cache_wf c"
  shows "cache_wf (fst (get_or_load read c p))"
  using assms insert_entry_inv(1) [of c p]
  by (auto simp: get_or_load_def cache_lookup_def cache_install_def split: sum.splits option.splits)

lemma invalidate_wf: "cache_wf c \<Longrightarrow> cache_wf (invalidate c p)"
  by (auto simp: cache_wf_def invalidate_def delete_fst AList.distinct_delete
      intro: order.trans [OF AList.length_delete_le])

lemma invalidate_from_wf: "cache_wf c \<Longrightarrow> cache_wf (invalidate_from c p)"
  by (auto simp: cache_wf_def invalidate_from_def distinct_map inj_on_def
      intro: order.trans [OF length_filter_le])

section \<open>Transparency\<close>

text \<open>Every cached page is the page the backend would deliver.\<close>

definition coherent :: "(u64 \<Rightarrow> backend_error + bytes) \<Rightarrow> page_cache \<Rightarrow> bool" where
  "coherent read c \<longleftrightarrow> (\<forall>p e. hm_get (pc_entries c) p = Some e \<longrightarrow> read p = Inr (ce_data e))"

lemma coherent_new: "coherent read (cache_new n)" "cache_wf (cache_new n)"
  by (simp_all add: coherent_def cache_new_def cache_wf_def)

lemma cache_install_coherent:
  assumes "cache_wf c" "coherent read c" "\<not> pc_poisoned c" "read p = Inr data" "cache_install c p data = (c', r)"
  shows "r = Inr data \<and> coherent read c'"
proof (cases "hm_get (pc_entries c) p")
  case None
  then have c': "c' = insert_entry p \<lparr> ce_data = data, ce_dirty = False \<rparr> c" "r = Inr data"
    using assms(3,5) by (auto simp: cache_install_def)
  have "read q = Inr (ce_data x)" if h: "hm_get (pc_entries c') q = Some x" for q x
    using insert_entry_inv(2) [OF assms(1) None h [unfolded c'(1)]] assms(2,4)
    by (cases "q = p") (auto simp: coherent_def)
  then show ?thesis using c'(2) by (simp add: coherent_def)
next
  case (Some e)
  then show ?thesis using assms by (auto simp: cache_install_def coherent_def)
qed

lemma put_dirty_coherent:
  assumes "cache_wf c" "coherent read c" "read' p = Inr d" "\<And>q x. q \<noteq> p \<Longrightarrow> read q = Inr x \<Longrightarrow> read' q = Inr x"
  shows "coherent read' (put_dirty c p d)"
proof -
  have "q \<noteq> p \<longrightarrow> hm_get (pc_entries c) q = Some x" "q = p \<longrightarrow> ce_data x = d"
    if "hm_get (pc_entries (put_dirty c p d)) q = Some x" for q x
    using that insert_entry_inv(2) [OF assms(1), of p "\<lparr> ce_data = d, ce_dirty = True \<rparr>" q x]
    by (auto simp: put_dirty_def split: if_splits)
  then show ?thesis using assms(2-4) unfolding coherent_def by metis
qed

lemma invalidate_from_coherent:
  assumes "coherent read c" "\<And>q x. q < from \<Longrightarrow> read q = Inr x \<Longrightarrow> read' q = Inr x"
  shows "coherent read' (invalidate_from c from)"
proof -
  have "hm_get (filter (\<lambda>(i, _). i < from) m) q = (if q < from then hm_get m q else None)" for m :: "(u64, cache_entry) hash_map" and q
    by (induction m) auto
  then show ?thesis using assms by (auto simp: coherent_def invalidate_from_def split: if_splits)
qed

text \<open>C14: the cache is transparent: on a coherent cache, \<open>get_or_load\<close> answers exactly what the backend
  answers for that page, page or error, and leaves a coherent, well-formed cache that respects its
  capacity, whatever was evicted.\<close>

theorem get_or_load_transparent:
  assumes "cache_wf c" "coherent read c" "\<not> pc_poisoned c"
  shows "case get_or_load read c p of (c', r) \<Rightarrow>
    r = map_err CacheBackend (read p) \<and> coherent read c' \<and> cache_wf c' \<and>
    (pc_capacity c > 0 \<longrightarrow> cached_page_count c' \<le> pc_capacity c)"
proof -
  obtain c' r where g: "get_or_load read c p = (c', r)" by fastforce
  have wf: "cache_wf c'" using get_or_load_wf [OF assms(1), of read p] g by simp
  have cap: "pc_capacity c' = pc_capacity c"
    using g by (auto simp: get_or_load_def cache_lookup_def cache_install_def insert_entry_def
        split: sum.splits option.splits if_splits prod.splits)
  have "r = map_err CacheBackend (read p) \<and> coherent read c'"
  proof (cases "hm_get (pc_entries c) p")
    case None
    show ?thesis
    proof (cases "read p")
      case (Inl e)
      then show ?thesis using g None assms by (auto simp: get_or_load_def cache_lookup_def)
    next
      case (Inr data)
      then have "cache_install c p data = (c', r)"
        using g None assms(3) by (simp add: get_or_load_def cache_lookup_def)
      then show ?thesis using cache_install_coherent [OF assms Inr] Inr by simp
    qed
  next
    case (Some e)
    then show ?thesis using g assms by (auto simp: get_or_load_def cache_lookup_def coherent_def)
  qed
  then show ?thesis using wf cap by (simp add: g cache_wf_def cached_page_count_def)
qed

theorem get_or_load_transparent_witness:
  "case get_or_load (\<lambda>p. Inr [1]) (cache_new 2) 5 of (c', r) \<Rightarrow> r = Inr [1] \<and> cached_page_count c' \<le> 2"
  using get_or_load_transparent [of "cache_new 2" "\<lambda>p. Inr [1]" 5] coherent_new
  by (auto simp: cache_new_def)

context page_store
begin

lemma write_through:
  assumes "ok b" "cache_wf c" "coherent (read_page b) c" "p \<noteq> 0" "write_page p d b = (b', Inr ())"
  shows "coherent (read_page b') (put_dirty c p d)"
  using assms(2,3)
proof (rule put_dirty_coherent)
  show "read_page b' p = Inr d" using read_same [OF assms(1,4,5)] .
  show "read_page b' q = Inr x" if "q \<noteq> p" "read_page b q = Inr x" for q x
    using read_other [OF assms(1,4,5) that] .
qed

end

text \<open>Writing a data page to the file first and putting it into the cache afterwards, the order in
  which the index writer works, keeps the cache coherent with the file, so a later read of any page
  gives the file's contents even after the page has been evicted.\<close>

theorem file_write_through_coherent:
  assumes "cache_wf c" "coherent (fb_read_page b) c" "p \<noteq> 0" "fb_write_page p d b = (b', Inr ())"
  shows "coherent (fb_read_page b') (put_dirty c p d) \<and> cache_wf (put_dirty c p d) \<and>
    snd (get_or_load (fb_read_page b') (put_dirty c p d) p) = (if pc_poisoned c then Inl CacheLockPoisoned else Inr d)"
proof -
  have co: "coherent (fb_read_page b') (put_dirty c p d)"
    using assms by (intro file_store.write_through) simp_all
  have wf: "cache_wf (put_dirty c p d)" using assms(1) by (rule put_dirty_wf)
  have poison: "pc_poisoned (put_dirty c p d) = pc_poisoned c"
    by (simp add: put_dirty_def insert_entry_def split: prod.splits)
  have rd: "fb_read_page b' p = Inr d" using assms(3,4) by (intro file_store.read_same) simp_all
  have "hm_get (pc_entries (put_dirty c p d)) p = Some \<lparr> ce_data = d, ce_dirty = True \<rparr>"
    using insert_entry_inv(3) [OF assms(1)] by (simp add: put_dirty_def)
  then show ?thesis using co wf poison by (simp add: get_or_load_def cache_lookup_def)
qed

theorem file_write_through_coherent_witness:
  "\<exists>b b'. fb_open (\<lambda>_. 7) None = Inr b \<and> fb_write_page 1 (replicate PAGE_SIZE 9) b = (b', Inr ()) \<and>
     coherent (fb_read_page b') (put_dirty (cache_new 4) 1 (replicate PAGE_SIZE 9))"
proof -
  obtain b where b: "fb_open (\<lambda>_. 7) None = Inr b" "fb_header b = file_header_new" using fb_open_new by blast
  obtain b' where w: "fb_write_page 1 (replicate PAGE_SIZE 9) b = (b', Inr ())"
    using b(2) by (auto simp: fb_write_page_def u64_checked_mul_def u64_checked_add_def PAGE_SIZE_u64_def
        file_header_new_def Let_def)
  show ?thesis
    using file_write_through_coherent [OF coherent_new(2) coherent_new(1) _ w, of 4] b(1) w by auto
qed

text \<open>A dirty page that is evicted before a flush is dropped: with room for one page, a page put
  dirty and not written through is replaced by loading another page, reading it again gives the
  backend's old contents, and \<open>flush\<close> has nothing left to write.\<close>

theorem evicted_dirty_page_lost:
  assumes "p \<noteq> q" "read p = Inr old" "read q = Inr other"
  shows "let c1 = put_dirty (cache_new 1) p new; c2 = fst (get_or_load read c1 q)
    in snd (get_or_load read c1 p) = Inr new \<and> snd (get_or_load read c2 p) = Inr old \<and>
       fst (snd (cache_flush write c2 b)) = b"
  using assms
  by (simp add: Let_def put_dirty_def cache_new_def insert_entry_def get_or_load_def cache_lookup_def
      cache_install_def cache_flush_def)

theorem evicted_dirty_page_lost_witness:
  "let c1 = put_dirty (cache_new 1) 3 [1]; c2 = fst (get_or_load (\<lambda>_. Inr [0]) c1 4)
   in snd (get_or_load (\<lambda>_. Inr [0]) c2 3) = Inr [0] \<and> [0] \<noteq> [1 :: u8]"
proof -
  have "(3 :: u64) \<noteq> 4" by simp
  from evicted_dirty_page_lost [OF this, of "\<lambda>_. Inr [0]" "[0]" "[0]" "[1]" mb_write_page mb_new]
  show ?thesis by (simp add: Let_def)
qed

end
