(* ===== verification/Graph_Types.thy ===== *)
theory Graph_Types
  imports Vicia_Prelude
begin

text \<open>
  The data model of \<open>src/src/graph/types.rs\<close>: signed integers, IEEE-754 doubles as bit patterns,
  UUIDs, the value enum with its derived equality, its hand-written total order and hash, the
  bi-temporal fact record with its constructors, and the public projection \<open>FactRecord\<close>.
  The lemmas show that \<open>Value::cmp\<close> meets the contract of Rust's \<open>Ord\<close> and how it differs from
  the derived \<open>PartialEq\<close> and the hand-written \<open>Hash\<close>.
\<close>

section \<open>Machine scalars\<close>

text \<open>A signed 64-bit integer is its two's complement bit pattern, ordered by \<open>sint\<close>.\<close>

datatype i64 = I64 (i64_bits: u64)

definition i64_int :: "i64 \<Rightarrow> int" where
  "i64_int i = sint (i64_bits i)"

definition i64_of_int :: "int \<Rightarrow> i64" where
  "i64_of_int k = I64 (of_int k)"

lemma i64_int_inj [simp]: "i64_int x = i64_int y \<longleftrightarrow> x = y"
  by (cases x; cases y) (auto simp: i64_int_def intro: signed_word_eqI)

instantiation i64 :: linorder
begin

definition less_eq_i64 :: "i64 \<Rightarrow> i64 \<Rightarrow> bool" where
  "less_eq_i64 x y \<longleftrightarrow> i64_int x \<le> i64_int y"

definition less_i64 :: "i64 \<Rightarrow> i64 \<Rightarrow> bool" where
  "less_i64 x y \<longleftrightarrow> i64_int x < i64_int y"

instance
  by standard (auto simp: less_eq_i64_def less_i64_def intro: antisym)

end

lemmas i64_order [cmp_simps] = less_eq_i64_def less_i64_def

definition i64_MAX :: i64 where
  "i64_MAX = I64 0x7FFFFFFFFFFFFFFF"

definition i64_MIN :: i64 where
  "i64_MIN = I64 0x8000000000000000"

definition i64_try_from :: "u64 \<Rightarrow> i64 option" where
  "i64_try_from w = (if w \<le> 0x7FFFFFFFFFFFFFFF then Some (I64 w) else None)"

text \<open>A double is its IEEE-754 binary64 bit pattern: one sign bit, then exponent and fraction,
  whose 63 bits taken as a number order the magnitudes.\<close>

datatype f64 = F64 (to_bits: u64)

definition f64_sign_negative :: "f64 \<Rightarrow> bool" where
  "f64_sign_negative f \<longleftrightarrow> 2 ^ 63 \<le> unat (to_bits f)"

definition f64_magnitude :: "f64 \<Rightarrow> nat" where
  "f64_magnitude f = unat (to_bits f) mod 2 ^ 63"

definition f64_is_nan :: "f64 \<Rightarrow> bool" where
  "f64_is_nan f \<longleftrightarrow> 0x7FF0000000000000 < f64_magnitude f"

definition f64_neg :: "f64 \<Rightarrow> f64" where
  "f64_neg f = F64 (to_bits f XOR 0x8000000000000000)"

definition f64_key :: "f64 \<Rightarrow> int" where
  "f64_key f = (if f64_sign_negative f then - int (f64_magnitude f) else int (f64_magnitude f))"

definition f64_partial_cmp :: "f64 \<Rightarrow> f64 \<Rightarrow> ordering option" where
  "f64_partial_cmp a b =
     (if f64_is_nan a \<or> f64_is_nan b then None else Some (cmp (f64_key a) (f64_key b)))"

definition f64_eq :: "f64 \<Rightarrow> f64 \<Rightarrow> bool" where
  "f64_eq a b \<longleftrightarrow> f64_partial_cmp a b = Some Equal"

definition f64_zero :: f64 where
  "f64_zero = F64 0"

definition f64_neg_zero :: f64 where
  "f64_neg_zero = F64 0x8000000000000000"

definition f64_nan :: f64 where
  "f64_nan = F64 0x7FF8000000000000"

text \<open>A UUID compares as its 16 bytes, most significant first, which is its order as \<open>u128\<close>.\<close>

type_synonym uuid = u128

definition uuid_bytes :: "uuid \<Rightarrow> bytes" where
  "uuid_bytes u = u128_to_be_bytes u"

lemma uuid_bytes_less_iff [cmp_simps]: "uuid_bytes a < uuid_bytes b \<longleftrightarrow> a < b"
  by (simp only: uuid_bytes_def to_be_bytes_less_iff)

lemma uuid_bytes_eq_iff [simp, cmp_simps]: "uuid_bytes a = uuid_bytes b \<longleftrightarrow> a = b"
  by (simp only: uuid_bytes_def to_be_bytes_eq_iff)

lemma length_uuid_bytes [simp, bytes_simps]: "length (uuid_bytes u) = 16"
  by (simp add: uuid_bytes_def)

section \<open>Values\<close>

type_synonym attribute = string

datatype "value" =
  String string
| Integer i64
| Float f64
| Boolean bool
| Ref uuid
| Keyword string
| Null

fun discriminant :: "value \<Rightarrow> nat" where
  "discriminant (String _) = 0"
| "discriminant (Integer _) = 1"
| "discriminant (Float _) = 2"
| "discriminant (Boolean _) = 3"
| "discriminant (Ref _) = 4"
| "discriminant (Keyword _) = 5"
| "discriminant Null = 6"

definition float_cmp :: "f64 \<Rightarrow> f64 \<Rightarrow> ordering" where
  "float_cmp a b =
     (if f64_is_nan a \<and> f64_is_nan b then Equal
      else if f64_is_nan a then Greater
      else if f64_is_nan b then Less
      else (case f64_partial_cmp a b of Some c \<Rightarrow> c | None \<Rightarrow> Equal))"

fun value_cmp :: "value \<Rightarrow> value \<Rightarrow> ordering" where
  "value_cmp (String a) (String b) = cmp a b"
| "value_cmp (Integer a) (Integer b) = cmp a b"
| "value_cmp (Float a) (Float b) = float_cmp a b"
| "value_cmp (Boolean a) (Boolean b) = cmp a b"
| "value_cmp (Ref a) (Ref b) = cmp a b"
| "value_cmp (Keyword a) (Keyword b) = cmp a b"
| "value_cmp Null Null = Equal"
| "value_cmp v w = cmp (discriminant v) (discriminant w)"

text \<open>The derived \<open>PartialEq\<close>: structural, with IEEE equality on the doubles.\<close>

fun value_eq :: "value \<Rightarrow> value \<Rightarrow> bool" where
  "value_eq (Float a) (Float b) \<longleftrightarrow> f64_eq a b"
| "value_eq v w \<longleftrightarrow> v = w"

text \<open>What \<open>Hash for Value\<close> feeds to the hasher, in order.\<close>

datatype hash_write = HashDiscriminant nat | HashU8 u8 | HashU64 u64 | HashI64 i64
  | HashStr string | HashBool bool | HashUuid uuid

fun value_hash :: "value \<Rightarrow> hash_write list" where
  "value_hash (String s) = [HashDiscriminant 0, HashStr s]"
| "value_hash (Integer i) = [HashDiscriminant 1, HashI64 i]"
| "value_hash (Float f) = HashDiscriminant 2 #
     (if f64_is_nan f then [HashU8 0]
      else if f64_sign_negative f then [HashU8 1, HashU64 (to_bits (f64_neg f))]
      else [HashU8 2, HashU64 (to_bits f)])"
| "value_hash (Boolean b) = [HashDiscriminant 3, HashBool b]"
| "value_hash (Ref r) = [HashDiscriminant 4, HashUuid r]"
| "value_hash (Keyword k) = [HashDiscriminant 5, HashStr k]"
| "value_hash Null = [HashDiscriminant 6]"

fun as_string :: "value \<Rightarrow> string option" where
  "as_string (String s) = Some s"
| "as_string _ = None"

fun as_integer :: "value \<Rightarrow> i64 option" where
  "as_integer (Integer i) = Some i"
| "as_integer _ = None"

fun as_float :: "value \<Rightarrow> f64 option" where
  "as_float (Float f) = Some f"
| "as_float _ = None"

fun as_boolean :: "value \<Rightarrow> bool option" where
  "as_boolean (Boolean b) = Some b"
| "as_boolean _ = None"

fun as_ref :: "value \<Rightarrow> uuid option" where
  "as_ref (Ref r) = Some r"
| "as_ref _ = None"

fun as_keyword :: "value \<Rightarrow> string option" where
  "as_keyword (Keyword k) = Some k"
| "as_keyword _ = None"

definition is_null :: "value \<Rightarrow> bool" where
  "is_null v \<longleftrightarrow> v = Null"

section \<open>Facts\<close>

definition VALID_TIME_FOREVER :: i64 where
  "VALID_TIME_FOREVER = i64_MAX"

definition RETRACT_ALL_VALID_FROM :: i64 where
  "RETRACT_ALL_VALID_FROM = I64 (i64_bits i64_MIN + 1)"

record fact =
  entity :: uuid
  attr :: attribute
  val :: "value"
  tx_id :: u64
  tx_count :: u64
  valid_from :: i64
  valid_to :: i64
  asserted :: bool

datatype fact_valid_time = Window i64 i64 | AllValidTime

record fact_record =
  fr_entity :: uuid
  fr_attribute :: attribute
  fr_value :: "value"
  fr_tx_id :: u64
  fr_tx_count :: u64
  fr_valid_time :: fact_valid_time
  fr_asserted :: bool

definition fact_record_from_fact :: "fact \<Rightarrow> fact_record" where
  "fact_record_from_fact f =
     \<lparr> fr_entity = entity f, fr_attribute = attr f, fr_value = val f, fr_tx_id = tx_id f,
       fr_tx_count = tx_count f,
       fr_valid_time =
         (if \<not> asserted f \<and> valid_from f = RETRACT_ALL_VALID_FROM \<and> valid_to f = VALID_TIME_FOREVER
          then AllValidTime else Window (valid_from f) (valid_to f)),
       fr_asserted = asserted f \<rparr>"

definition fact_new :: "uuid \<Rightarrow> attribute \<Rightarrow> value \<Rightarrow> u64 \<Rightarrow> fact" where
  "fact_new e a v tx =
     \<lparr> entity = e, attr = a, val = v, tx_id = tx, tx_count = 0,
       valid_from = (case i64_try_from tx of Some i \<Rightarrow> i | None \<Rightarrow> i64_MAX),
       valid_to = VALID_TIME_FOREVER, asserted = True \<rparr>"

definition fact_with_valid_time ::
    "uuid \<Rightarrow> attribute \<Rightarrow> value \<Rightarrow> u64 \<Rightarrow> u64 \<Rightarrow> i64 \<Rightarrow> i64 \<Rightarrow> fact" where
  "fact_with_valid_time e a v tx cnt vf vt =
     \<lparr> entity = e, attr = a, val = v, tx_id = tx, tx_count = cnt,
       valid_from = vf, valid_to = vt, asserted = True \<rparr>"

definition fact_retract :: "uuid \<Rightarrow> attribute \<Rightarrow> value \<Rightarrow> u64 \<Rightarrow> fact" where
  "fact_retract e a v tx =
     \<lparr> entity = e, attr = a, val = v, tx_id = tx, tx_count = 0,
       valid_from = RETRACT_ALL_VALID_FROM, valid_to = VALID_TIME_FOREVER, asserted = False \<rparr>"

definition fact_retract_with_valid_time ::
    "uuid \<Rightarrow> attribute \<Rightarrow> value \<Rightarrow> u64 \<Rightarrow> u64 \<Rightarrow> i64 \<Rightarrow> i64 \<Rightarrow> fact" where
  "fact_retract_with_valid_time e a v tx cnt vf vt =
     \<lparr> entity = e, attr = a, val = v, tx_id = tx, tx_count = cnt,
       valid_from = vf, valid_to = vt, asserted = False \<rparr>"

text \<open>The derived \<open>PartialEq\<close> of \<open>Fact\<close>.\<close>

definition fact_eq :: "fact \<Rightarrow> fact \<Rightarrow> bool" where
  "fact_eq f g \<longleftrightarrow> entity f = entity g \<and> attr f = attr g \<and> value_eq (val f) (val g) \<and>
     tx_id f = tx_id g \<and> tx_count f = tx_count g \<and> valid_from f = valid_from g \<and>
     valid_to f = valid_to g \<and> asserted f = asserted g"

record transact_options =
  opt_valid_from :: "i64 option"
  opt_valid_to :: "i64 option"

section \<open>Order, equality and hash\<close>

text \<open>Every value has a rank in a product of linear orders, and \<open>value_cmp\<close> compares ranks.\<close>

definition f64_rank :: "f64 \<Rightarrow> int" where
  "f64_rank f = (if f64_is_nan f then 2 ^ 63 else f64_key f)"

fun value_rank :: "value \<Rightarrow> nat \<times> string \<times> int" where
  "value_rank (String s) = (0, s, 0)"
| "value_rank (Integer i) = (1, [], i64_int i)"
| "value_rank (Float f) = (2, [], f64_rank f)"
| "value_rank (Boolean b) = (3, [], of_bool b)"
| "value_rank (Ref r) = (4, [], uint r)"
| "value_rank (Keyword k) = (5, k, 0)"
| "value_rank Null = (6, [], 0)"

lemma f64_key_less: "f64_key f < 2 ^ 63"
proof -
  have "int (f64_magnitude f) < 2 ^ 63"
    by (simp add: f64_magnitude_def)
  then show ?thesis by (auto simp: f64_key_def)
qed

lemma float_cmp_rank: "float_cmp a b = cmp (f64_rank a) (f64_rank b)"
  using f64_key_less [of a] f64_key_less [of b]
  by (auto simp: float_cmp_def f64_partial_cmp_def f64_rank_def cmp_def)

lemma value_cmp_rank: "value_cmp v w = cmp (value_rank v) (value_rank w)"
  by (induction v w rule: value_cmp.induct)
    (auto simp: cmp_def float_cmp_rank i64_order word_less_def word_uint_eq_iff)

interpretation value_ord: total_cmp value_cmp
  by unfold_locales (auto simp: value_cmp_rank cmp_def split: if_splits)

lemma f64_eq_iff: "f64_eq a b \<longleftrightarrow> \<not> f64_is_nan a \<and> \<not> f64_is_nan b \<and> f64_key a = f64_key b"
  by (auto simp: f64_eq_def f64_partial_cmp_def)

text \<open>
  \<open>Value::cmp\<close> meets the contract of \<open>Ord\<close>: it is reflexive, antisymmetric under exchange of
  its arguments, and transitive, across all variants and including NaN and signed zeros.
\<close>

theorem value_cmp_total_order:
  "value_cmp x x = Equal \<and> (value_cmp x y = Less \<longleftrightarrow> value_cmp y x = Greater) \<and>
   (value_cmp x y \<noteq> Greater \<longrightarrow> value_cmp y z \<noteq> Greater \<longrightarrow> value_cmp x z \<noteq> Greater)"
  using value_ord.ord_refl value_ord.ord_sym value_ord.ord_trans by blast

theorem value_cmp_total_order_witness:
  "value_cmp (Float f64_zero) (Float f64_nan) \<noteq> Greater \<and>
   value_cmp (Float f64_nan) (Boolean False) \<noteq> Greater \<and>
   value_cmp (Float f64_zero) (Boolean False) \<noteq> Greater"
proof -
  have "value_cmp (Float f64_zero) (Float f64_nan) \<noteq> Greater"
    "value_cmp (Float f64_nan) (Boolean False) \<noteq> Greater"
    by (simp_all add: f64_zero_def f64_nan_def float_cmp_def f64_is_nan_def f64_magnitude_def)
  then show ?thesis
    using value_cmp_total_order [of "Float f64_zero" "Float f64_nan" "Boolean False"] by blast
qed

lemma value_cmp_Float_Equal: "float_cmp a b = Equal \<longleftrightarrow> f64_eq a b \<or> f64_is_nan a \<and> f64_is_nan b"
  by (auto simp: float_cmp_def f64_eq_def f64_partial_cmp_def)

text \<open>
  \<open>Value::cmp\<close> answers \<open>Equal\<close> exactly for the values that the derived \<open>PartialEq\<close> equates,
  and in addition for any two NaN floats.
\<close>

theorem value_cmp_equal_iff:
  "value_cmp v w = Equal \<longleftrightarrow> value_eq v w \<or>
     (\<exists>a b. v = Float a \<and> w = Float b \<and> f64_is_nan a \<and> f64_is_nan b)"
  by (cases v; cases w) (simp_all add: value_cmp_Float_Equal)

lemma to_bits_neg:
  "f64_sign_negative f \<Longrightarrow> unat (to_bits (f64_neg f)) = f64_magnitude f"
  using unat_lt2p [of "to_bits f"]
  by (simp add: f64_sign_negative_def f64_neg_def unat_xor_top_bit f64_magnitude_def mod_if)

lemma to_bits_pos:
  "\<not> f64_sign_negative f \<Longrightarrow> unat (to_bits f) = f64_magnitude f"
  by (simp add: f64_sign_negative_def f64_magnitude_def)

lemma unat_to_bits:
  "unat (to_bits f) = f64_magnitude f + (if f64_sign_negative f then 2 ^ 63 else 0)"
  using unat_lt2p [of "to_bits f"]
  by (auto simp: f64_sign_negative_def f64_magnitude_def mod_if)

lemma f64_eqI:
  "f64_sign_negative a = f64_sign_negative b \<Longrightarrow> f64_magnitude a = f64_magnitude b \<Longrightarrow> a = b"
  by (simp add: f64.expand word_unat_eq_iff unat_to_bits)

lemma f64_zero_iff:
  "a = f64_zero \<longleftrightarrow> \<not> f64_sign_negative a \<and> f64_magnitude a = 0"
  "a = f64_neg_zero \<longleftrightarrow> f64_sign_negative a \<and> f64_magnitude a = 0"
proof -
  have "\<not> f64_sign_negative f64_zero" "f64_magnitude f64_zero = 0"
    "f64_sign_negative f64_neg_zero" "f64_magnitude f64_neg_zero = 0"
    by (simp_all add: f64_zero_def f64_neg_zero_def f64_sign_negative_def f64_magnitude_def)
  then show "a = f64_zero \<longleftrightarrow> \<not> f64_sign_negative a \<and> f64_magnitude a = 0"
    "a = f64_neg_zero \<longleftrightarrow> f64_sign_negative a \<and> f64_magnitude a = 0"
    using f64_eqI by metis+
qed

lemma f64_zeros_distinct [simp]: "f64_zero \<noteq> f64_neg_zero" "f64_neg_zero \<noteq> f64_zero"
  by (simp_all add: f64_zero_def f64_neg_zero_def)

lemma f64_eq_cases:
  assumes "f64_eq a b"
  obtains "a = b" "\<not> f64_is_nan a" | "{a, b} = {f64_zero, f64_neg_zero}"
proof (cases "f64_sign_negative a = f64_sign_negative b")
  case True
  with assms that(1) show ?thesis
    by (intro that(1) f64_eqI) (auto simp: f64_eq_iff f64_key_def split: if_splits)
next
  case False
  with assms have "f64_magnitude a = 0" "f64_magnitude b = 0"
    by (auto simp: f64_eq_iff f64_key_def split: if_splits)
  with False have "{a, b} = {f64_zero, f64_neg_zero}"
    by (cases "f64_sign_negative a") (simp_all add: f64_zero_iff doubleton_eq_iff)
  then show ?thesis by (rule that(2))
qed

lemma zero_hashes_differ: "value_hash (Float f64_zero) \<noteq> value_hash (Float f64_neg_zero)"
  by (simp add: f64_zero_def f64_neg_zero_def f64_is_nan_def f64_magnitude_def f64_sign_negative_def)

text \<open>
  Equal values feed the hasher the same data, with one exception: the floats \<open>0.0\<close> and
  \<open>-0.0\<close> are equal and hash differently.
\<close>

theorem value_hash_of_equal:
  assumes "value_eq v w"
  shows "value_hash v = value_hash w \<longleftrightarrow> {v, w} \<noteq> {Float f64_zero, Float f64_neg_zero}"
proof (cases "v = w")
  case True
  then show ?thesis by (auto simp: doubleton_eq_iff)
next
  case False
  with assms obtain a b where "v = Float a" "w = Float b" "f64_eq a b"
    by (cases v; cases w) auto
  with False have "{v, w} = {Float f64_zero, Float f64_neg_zero}"
    by (auto elim!: f64_eq_cases simp: doubleton_eq_iff)
  then show ?thesis using zero_hashes_differ by (metis doubleton_eq_iff)
qed

theorem value_hash_of_equal_witness:
  "value_eq (Float f64_zero) (Float f64_neg_zero) \<and>
   value_hash (Float f64_zero) \<noteq> value_hash (Float f64_neg_zero)"
proof -
  have "value_eq (Float f64_zero) (Float f64_neg_zero)"
    by (simp add: f64_zero_def f64_neg_zero_def f64_eq_iff f64_key_def f64_is_nan_def
        f64_magnitude_def f64_sign_negative_def)
  then show ?thesis
    using value_hash_of_equal [of "Float f64_zero" "Float f64_neg_zero"] by simp
qed

end
