(* ===== verification/Value_Encoding.thy ===== *)
theory Value_Encoding
  imports Graph_Types
begin

text \<open>
  The canonical byte encoding of values used inside index keys (\<open>encode_value\<close> of
  \<open>src/src/storage/index.rs\<close>) and its partial inverse \<open>decode_index_value\<close> of
  \<open>src/src/graph/storage.rs\<close>.  The lemmas determine exactly which values share an encoding, in
  which cases byte order is value order, and when decoding gives the value back.
\<close>

section \<open>UTF-8 validity\<close>

text \<open>The well-formed byte sequences that \<open>std::str::from_utf8\<close> accepts.\<close>

definition utf8_cont :: "u8 \<Rightarrow> bool" where
  "utf8_cont b \<longleftrightarrow> 0x80 \<le> b \<and> b \<le> 0xBF"

fun utf8_valid :: "bytes \<Rightarrow> bool" where
  "utf8_valid [] = True"
| "utf8_valid (b # bs) =
    (if b < 0x80 then utf8_valid bs
     else if 0xC2 \<le> b \<and> b \<le> 0xDF then
       (case bs of c1 # r \<Rightarrow> utf8_cont c1 \<and> utf8_valid r | _ \<Rightarrow> False)
     else if 0xE0 \<le> b \<and> b \<le> 0xEF then
       (case bs of c1 # c2 # r \<Rightarrow>
          (if b = 0xE0 then 0xA0 \<le> c1 \<and> c1 \<le> 0xBF
           else if b = 0xED then 0x80 \<le> c1 \<and> c1 \<le> 0x9F else utf8_cont c1) \<and>
          utf8_cont c2 \<and> utf8_valid r
        | _ \<Rightarrow> False)
     else if 0xF0 \<le> b \<and> b \<le> 0xF4 then
       (case bs of c1 # c2 # c3 # r \<Rightarrow>
          (if b = 0xF0 then 0x90 \<le> c1 \<and> c1 \<le> 0xBF
           else if b = 0xF4 then 0x80 \<le> c1 \<and> c1 \<le> 0x8F else utf8_cont c1) \<and>
          utf8_cont c2 \<and> utf8_cont c3 \<and> utf8_valid r
        | _ \<Rightarrow> False)
     else False)"

section \<open>Encoding\<close>

definition integer_bits :: "i64 \<Rightarrow> u64" where
  "integer_bits n = i64_bits n XOR 0x8000000000000000"

definition float_bits :: "f64 \<Rightarrow> u64" where
  "float_bits f =
     (if f64_is_nan f then 0x7FF8000000000000
      else let raw = to_bits f in
        if drop_bit 63 raw = 0 then raw XOR 0x8000000000000000 else NOT raw)"

fun encode_value :: "value \<Rightarrow> bytes" where
  "encode_value Null = [0x00]"
| "encode_value (Boolean b) = [0x01, of_bool b]"
| "encode_value (Integer n) = 0x02 # u64_to_be_bytes (integer_bits n)"
| "encode_value (Float f) = 0x03 # u64_to_be_bytes (float_bits f)"
| "encode_value (String s) = 0x04 # as_bytes s"
| "encode_value (Keyword k) = 0x05 # as_bytes k"
| "encode_value (Ref i) = 0x06 # uuid_bytes i"

section \<open>Decoding\<close>

datatype decode_error = EmptyEncodedValue | InvalidUtf8 | FloatNeedsFact | MalformedTag u8

definition decode_index_value :: "bytes \<Rightarrow> decode_error + value" where
  "decode_index_value encoded =
     (case encoded of
        [] \<Rightarrow> Inl EmptyEncodedValue
      | tag # payload \<Rightarrow>
          if tag = 0x00 \<and> payload = [] then Inr Null
          else if tag = 0x01 \<and> length payload = 1 then Inr (Boolean (payload ! 0 = 1))
          else if tag = 0x02 \<and> length payload = 8 then
            Inr (Integer (I64 (u64_from_be_bytes payload XOR 0x8000000000000000)))
          else if tag = 0x04 then
            (if utf8_valid payload then Inr (String (of_bytes payload)) else Inl InvalidUtf8)
          else if tag = 0x05 then
            (if utf8_valid payload then Inr (Keyword (of_bytes payload)) else Inl InvalidUtf8)
          else if tag = 0x06 \<and> length payload = 16 then Inr (Ref (u128_from_be_bytes payload))
          else if tag = 0x03 then Inl FloatNeedsFact
          else Inl (MalformedTag tag))"

text \<open>The strings a Rust \<open>String\<close> can hold.\<close>

fun value_utf8 :: "value \<Rightarrow> bool" where
  "value_utf8 (String s) = utf8_valid (as_bytes s)"
| "value_utf8 (Keyword k) = utf8_valid (as_bytes k)"
| "value_utf8 _ = True"

section \<open>Numeric meaning of the encoded bits\<close>

lemma i64_int_alt:
  "i64_int n = (if 2 ^ 63 \<le> unat (i64_bits n) then int (unat (i64_bits n)) - 2 ^ 64
                else int (unat (i64_bits n)))"
proof -
  define u where "u = uint (i64_bits n)"
  have u: "0 \<le> u" "u < 2 ^ 64"
    using unsigned_less [of "i64_bits n", where 'a = int] by (simp_all add: u_def)
  have "sint (i64_bits n) = (u + 2 ^ 63) mod 2 ^ 64 - 2 ^ 63"
    by (simp add: u_def sint_uint signed_take_bit_eq_take_bit_shift take_bit_eq_mod)
  also have "\<dots> = (if 2 ^ 63 \<le> u then u - 2 ^ 64 else u)"
    using u mod_pos_geq [of "18446744073709551616" "u + 9223372036854775808"] by auto
  finally have "i64_int n = (if 2 ^ 63 \<le> u then u - 2 ^ 64 else u)"
    by (simp only: i64_int_def)
  moreover have "int (unat (i64_bits n)) = u" by (simp add: u_def)
  moreover have "2 ^ 63 \<le> unat (i64_bits n) \<longleftrightarrow> 2 ^ 63 \<le> u"
    using \<open>int (unat (i64_bits n)) = u\<close> by (metis of_nat_le_iff of_nat_numeral of_nat_power)
  ultimately show ?thesis by simp
qed

lemma uint_integer_bits: "uint (integer_bits n) = i64_int n + 2 ^ 63"
proof -
  have "int (unat (integer_bits n)) = i64_int n + 2 ^ 63"
    using unat_lt2p [of "i64_bits n"]
    by (auto simp: integer_bits_def unat_xor_top_bit i64_int_alt)
  then show ?thesis by simp
qed

lemma integer_bits_less_iff: "integer_bits m < integer_bits n \<longleftrightarrow> m < n"
  by (simp add: word_less_def less_i64_def uint_integer_bits)

lemma integer_bits_eq_iff: "integer_bits m = integer_bits n \<longleftrightarrow> m = n"
  by (metis uint_integer_bits add_right_cancel i64_int_inj)

lemma drop_bit_63_eq_0: "drop_bit 63 (to_bits f) = 0 \<longleftrightarrow> \<not> f64_sign_negative f"
proof -
  have "unat (drop_bit 63 (to_bits f)) = unat (to_bits f) div 2 ^ 63"
    unfolding unat_drop_bit_eq by (rule drop_bit_eq_div)
  then have "drop_bit 63 (to_bits f) = 0 \<longleftrightarrow> unat (to_bits f) div 2 ^ 63 = 0"
    by (simp only: flip: unat_0_iff)
  then show ?thesis
    by (simp add: f64_sign_negative_def div_eq_0_iff not_le)
qed

lemma unat_float_bits:
  assumes "\<not> f64_is_nan f"
  shows "unat (float_bits f) =
    (if f64_sign_negative f then 2 ^ 63 - 1 - f64_magnitude f else f64_magnitude f + 2 ^ 63)"
proof (cases "f64_sign_negative f")
  case True
  then have "float_bits f = NOT (to_bits f)"
    using assms by (simp add: float_bits_def drop_bit_63_eq_0 Let_def)
  then have "unat (float_bits f) = 2 ^ 64 - 1 - (f64_magnitude f + 2 ^ 63)"
    using True by (simp only: unat_not64 unat_to_bits if_True)
  with True show ?thesis by simp
next
  case False
  then have "float_bits f = to_bits f XOR 0x8000000000000000"
    using assms by (simp add: float_bits_def drop_bit_63_eq_0 Let_def)
  moreover have "unat (to_bits f) < 2 ^ 63"
    using False by (simp add: f64_sign_negative_def)
  ultimately have "unat (float_bits f) = f64_magnitude f + 2 ^ 63"
    using False by (simp add: unat_xor_top_bit to_bits_pos)
  with False show ?thesis by simp
qed

section \<open>Which values share an encoding\<close>

definition f64_nan_alias :: f64 where
  "f64_nan_alias = F64 0x8007FFFFFFFFFFFF"

lemma nan_alias_props [simp]: "\<not> f64_is_nan f64_nan_alias" "f64_sign_negative f64_nan_alias"
    "f64_magnitude f64_nan_alias = 0x0007FFFFFFFFFFFF"
  by (simp_all add: f64_nan_alias_def f64_is_nan_def f64_magnitude_def f64_sign_negative_def)

lemma f64_magnitude_less: "f64_magnitude f < 2 ^ 63"
  by (simp add: f64_magnitude_def)

lemma float_bits_eq_regular:
  assumes "\<not> f64_is_nan a" "\<not> f64_is_nan b"
  shows "float_bits a = float_bits b \<longleftrightarrow> a = b"
proof
  assume "float_bits a = float_bits b"
  then have "unat (float_bits a) = unat (float_bits b)" by simp
  then show "a = b"
    using f64_magnitude_less [of a] f64_magnitude_less [of b]
    by (intro f64_eqI) (auto simp: unat_float_bits assms split: if_splits)
qed simp

lemma float_bits_nan_alias:
  assumes "f64_is_nan a" "\<not> f64_is_nan b"
  shows "float_bits a = float_bits b \<longleftrightarrow> b = f64_nan_alias"
proof -
  have "float_bits a = float_bits f64_nan_alias"
    using assms by (simp add: float_bits_def f64_nan_alias_def f64_is_nan_def f64_magnitude_def)
  then show ?thesis
    using float_bits_eq_regular [OF assms(2), of f64_nan_alias] by auto
qed

lemma float_bits_eq_iff:
  "float_bits a = float_bits b \<longleftrightarrow> a = b \<or> f64_is_nan a \<and> f64_is_nan b \<or>
     f64_is_nan a \<and> b = f64_nan_alias \<or> a = f64_nan_alias \<and> f64_is_nan b"
proof (cases "f64_is_nan a"; cases "f64_is_nan b")
  assume "f64_is_nan a" "f64_is_nan b"
  then show ?thesis by (simp add: float_bits_def)
next
  assume "f64_is_nan a" "\<not> f64_is_nan b"
  then show ?thesis using float_bits_nan_alias by auto
next
  assume "\<not> f64_is_nan a" "f64_is_nan b"
  then show ?thesis using float_bits_nan_alias [of b a] by auto
next
  assume "\<not> f64_is_nan a" "\<not> f64_is_nan b"
  then show ?thesis using float_bits_eq_regular by auto
qed

text \<open>
  C19: two values have the same encoding exactly when they are identical, or are both NaN floats,
  or one is a NaN and the other is the negative subnormal with bit pattern
  \<open>0x8007_FFFF_FFFF_FFFF\<close>, whose complement is the canonical NaN pattern.
\<close>

theorem encode_value_eq_iff:
  "encode_value v = encode_value w \<longleftrightarrow> v = w \<or>
     (\<exists>a b. v = Float a \<and> w = Float b \<and>
        (f64_is_nan a \<and> f64_is_nan b \<or> f64_is_nan a \<and> b = f64_nan_alias \<or>
         a = f64_nan_alias \<and> f64_is_nan b))"
  by (cases v; cases w)
    (simp_all add: to_be_bytes_eq_iff integer_bits_eq_iff float_bits_eq_iff)

section \<open>Byte order and value order\<close>

fun is_nan_value :: "value \<Rightarrow> bool" where
  "is_nan_value (Float f) = f64_is_nan f"
| "is_nan_value _ = False"

lemma float_bits_less_iff:
  assumes "\<not> f64_is_nan a" "\<not> f64_is_nan b"
  shows "float_bits a < float_bits b \<longleftrightarrow> f64_key a < f64_key b \<or> a = f64_neg_zero \<and> b = f64_zero"
  using f64_magnitude_less [of a] f64_magnitude_less [of b]
  by (auto simp: word_less_nat_alt unat_float_bits assms f64_key_def f64_zero_iff)

text \<open>
  C20: inside one variant, and away from NaN, the byte order of the encodings is the order of
  \<open>Value::cmp\<close>, refined only by placing \<open>-0.0\<close> before \<open>0.0\<close>.
\<close>

theorem encode_value_order:
  assumes "discriminant v = discriminant w" "\<not> is_nan_value v" "\<not> is_nan_value w"
  shows "encode_value v < encode_value w \<longleftrightarrow>
    value_cmp v w = Less \<or> v = Float f64_neg_zero \<and> w = Float f64_zero"
  using assms
  by (cases v; cases w)
    (simp_all add: to_be_bytes_less_iff integer_bits_less_iff float_bits_less_iff uuid_bytes_less_iff
      float_cmp_def f64_partial_cmp_def)

theorem encode_value_order_witness:
  "encode_value (Integer (i64_of_int (- 5))) < encode_value (Integer (i64_of_int 3))"
proof -
  have "value_cmp (Integer (i64_of_int (- 5))) (Integer (i64_of_int 3)) = Less"
    by (simp add: less_i64_def i64_int_def i64_of_int_def)
  then show ?thesis
    using encode_value_order [of "Integer (i64_of_int (- 5))" "Integer (i64_of_int 3)"] by simp
qed

text \<open>
  Where the encoding departs from \<open>Value::cmp\<close>: a NaN is encoded below every non-negative
  float although it compares greater, and a boolean is encoded below every integer although it
  compares greater.
\<close>

theorem encode_value_order_divergence:
  assumes "f64_is_nan n" "\<not> f64_is_nan f" "\<not> f64_sign_negative f"
  shows "encode_value (Float n) < encode_value (Float f) \<and>
         value_cmp (Float n) (Float f) = Greater \<and>
         encode_value (Boolean b) < encode_value (Integer i) \<and>
         value_cmp (Boolean b) (Integer i) = Greater"
proof -
  have "unat (float_bits n) = 0x7FF8000000000000"
    using assms by (simp add: float_bits_def)
  moreover have "2 ^ 63 \<le> unat (float_bits f)"
    using assms by (simp add: unat_float_bits)
  ultimately have "float_bits n < float_bits f"
    by (simp add: word_less_nat_alt)
  then show ?thesis
    using assms by (simp add: to_be_bytes_less_iff float_cmp_def)
qed

theorem encode_value_order_divergence_witness:
  "encode_value (Float f64_nan) < encode_value (Float f64_zero) \<and>
   value_cmp (Float f64_nan) (Float f64_zero) = Greater"
proof -
  have "f64_is_nan f64_nan" "\<not> f64_is_nan f64_zero" "\<not> f64_sign_negative f64_zero"
    by (simp_all add: f64_nan_def f64_zero_def f64_is_nan_def f64_magnitude_def
        f64_sign_negative_def)
  then show ?thesis
    using encode_value_order_divergence [of f64_nan f64_zero] by blast
qed

section \<open>Decoding an encoded value\<close>

text \<open>
  C21: \<open>decode_index_value\<close> inverts \<open>encode_value\<close> on every value except floats, which it rejects
  with the error that asks for the stored fact; strings are assumed to be UTF-8, as every Rust
  \<open>String\<close> is.
\<close>

theorem decode_encode_value:
  assumes "value_utf8 v"
  shows "decode_index_value (encode_value v) =
    (case v of Float f \<Rightarrow> Inl FloatNeedsFact | _ \<Rightarrow> Inr v)"
proof (cases v)
  case (Integer n)
  then show ?thesis
    by (cases n) (simp add: decode_index_value_def integer_bits_def xor.assoc)
next
  case (Ref u)
  then show ?thesis by (simp add: decode_index_value_def uuid_bytes_def)
qed (use assms in \<open>simp_all add: decode_index_value_def\<close>)

theorem decode_encode_value_witness:
  "decode_index_value (encode_value (Keyword '':red'')) = Inr (Keyword '':red'')"
proof -
  have "value_utf8 (Keyword '':red'')" by (simp add: as_bytes_def)
  then show ?thesis using decode_encode_value [of "Keyword '':red''"] by simp
qed

end
