(* ===== verification/File_Lock.thy ===== *)
theory File_Lock
  imports Value_Encoding Rust_Std
begin

text \<open>
  The advisory lock of \<open>src/src/storage/backend/file.rs\<close>: the staleness decision, the acquisition
  loop, and the protocol as a step relation in which the system calls of several processes
  interleave.  Run without interference the protocol admits one live holder; the step relation also
  reaches states with two.  The staging file has a name of its own per process and is complete
  before it is linked, so it does not occur in the state.
\<close>

section \<open>Decimal numbers and white space\<close>

text \<open>\<open>Display\<close> of \<open>u32\<close>, and the parts of \<open>str\<close> that read it back.\<close>

definition digit_byte :: "nat \<Rightarrow> u8" where
  "digit_byte d = of_nat (48 + d)"

function decimal :: "nat \<Rightarrow> bytes" where
  "decimal n = (if n < 10 then [digit_byte n] else decimal (n div 10) @ [digit_byte (n mod 10)])"
  by auto
termination
  by (relation "measure id") auto

declare decimal.simps [simp del]

definition digit_value :: "u8 \<Rightarrow> nat option" where
  "digit_value b = (if 48 \<le> b \<and> b \<le> 57 then Some (unat b - 48) else None)"

fun parse_digits :: "nat \<Rightarrow> bytes \<Rightarrow> nat option" where
  "parse_digits acc [] = Some acc"
| "parse_digits acc (b # bs) =
     (case digit_value b of
        None \<Rightarrow> None
      | Some d \<Rightarrow> if acc * 10 + d < 2 ^ 32 then parse_digits (acc * 10 + d) bs else None)"

definition parse_u32 :: "bytes \<Rightarrow> u32 option" where
  "parse_u32 bs =
     (let digits = (case bs of b # r \<Rightarrow> if b = 43 then r else bs | [] \<Rightarrow> []) in
      if digits = [] then None else map_option of_nat (parse_digits 0 digits))"

text \<open>The UTF-8 encodings of the characters with the property \<open>White_Space\<close>.\<close>

definition white_space :: "bytes list" where
  "white_space = [[9], [10], [11], [12], [13], [32], [0xC2, 0x85], [0xC2, 0xA0], [0xE1, 0x9A, 0x80],
     [0xE2, 0x80, 0x80], [0xE2, 0x80, 0x81], [0xE2, 0x80, 0x82], [0xE2, 0x80, 0x83], [0xE2, 0x80, 0x84],
     [0xE2, 0x80, 0x85], [0xE2, 0x80, 0x86], [0xE2, 0x80, 0x87], [0xE2, 0x80, 0x88], [0xE2, 0x80, 0x89],
     [0xE2, 0x80, 0x8A], [0xE2, 0x80, 0xA8], [0xE2, 0x80, 0xA9], [0xE2, 0x80, 0xAF], [0xE2, 0x81, 0x9F],
     [0xE3, 0x80, 0x80]]"

function strip_front :: "bytes list \<Rightarrow> bytes \<Rightarrow> bytes" where
  "strip_front ws s =
     (case find (\<lambda>w. w \<noteq> [] \<and> take (length w) s = w) ws of
        None \<Rightarrow> s
      | Some w \<Rightarrow> strip_front ws (drop (length w) s))"
  by auto
termination
proof (relation "measure (\<lambda>(_, s). length s)")
  fix ws :: "bytes list" and s w
  assume "find (\<lambda>w. w \<noteq> [] \<and> take (length w) s = w) ws = Some w"
  then have "w \<noteq> []" "take (length w) s = w" by (auto simp: find_Some_iff)
  then have "s \<noteq> []" by (cases w) auto
  then show "((ws, drop (length w) s), ws, s) \<in> measure (\<lambda>(_, s). length s)" using \<open>w \<noteq> []\<close> by simp
qed simp

declare strip_front.simps [simp del]

definition trim :: "bytes \<Rightarrow> bytes" where
  "trim s = rev (strip_front (map rev white_space) (rev (strip_front white_space s)))"

section \<open>Acquisition by one process\<close>

datatype lock_error = LockedBy u32 | LockRetriesExhausted

text \<open>\<open>None\<close> is success; otherwise the content of the existing lock, empty if it is not UTF-8.\<close>

definition try_create :: "u32 \<Rightarrow> bytes option \<Rightarrow> bytes option \<times> bytes option" where
  "try_create our_pid lock =
     (case lock of
        None \<Rightarrow> (Some (decimal (unat our_pid)), None)
      | Some content \<Rightarrow> (lock, Some (if utf8_valid content then content else [])))"

definition foreign_holder :: "u32 \<Rightarrow> (u32 \<Rightarrow> bool) \<Rightarrow> bytes \<Rightarrow> u32 option" where
  "foreign_holder our_pid alive holder =
     (case parse_u32 (trim holder) of
        None \<Rightarrow> None
      | Some pid \<Rightarrow> if pid \<noteq> our_pid \<and> alive pid then Some pid else None)"

fun acquire_loop :: "nat \<Rightarrow> u32 \<Rightarrow> (u32 \<Rightarrow> bool) \<Rightarrow> bytes option \<Rightarrow> lock_error + bytes option" where
  "acquire_loop 0 our_pid alive lock = Inl LockRetriesExhausted"
| "acquire_loop (Suc n) our_pid alive lock =
     (case try_create our_pid lock of
        (lock', None) \<Rightarrow> Inr lock'
      | (lock', Some holder) \<Rightarrow>
          (case foreign_holder our_pid alive holder of
             Some pid \<Rightarrow> Inl (LockedBy pid)
           | None \<Rightarrow> acquire_loop n our_pid alive None))"

definition acquire :: "u32 \<Rightarrow> (u32 \<Rightarrow> bool) \<Rightarrow> bytes option \<Rightarrow> lock_error + bytes option" where
  "acquire our_pid alive lock = acquire_loop 4 our_pid alive lock"

section \<open>Interleaved processes\<close>

text \<open>Where a process is in \<open>acquire\<close>, with the rounds that remain; each phase ends in one system call.\<close>

datatype lock_phase = Idle | Linking nat | ReadingHolder nat | Deciding nat bytes | Removing nat | Held | Refused

record lock_sys =
  lk_lock :: "bytes option"
  lk_alive :: "u32 \<Rightarrow> bool"
  lk_phase :: "u32 \<Rightarrow> lock_phase"

abbreviation set_phase :: "u32 \<Rightarrow> lock_phase \<Rightarrow> lock_sys \<Rightarrow> lock_sys" where
  "set_phase p ph s \<equiv> s\<lparr> lk_phase := (lk_phase s)(p := ph) \<rparr>"

fun acquire_step :: "u32 \<Rightarrow> lock_phase \<Rightarrow> lock_sys \<Rightarrow> lock_sys" where
  "acquire_step p (Linking 0) s = set_phase p Refused s"
| "acquire_step p (Linking (Suc n)) s =
     (case lk_lock s of
        None \<Rightarrow> set_phase p Held (s\<lparr> lk_lock := Some (decimal (unat p)) \<rparr>)
      | Some _ \<Rightarrow> set_phase p (ReadingHolder n) s)"
| "acquire_step p (ReadingHolder n) s =
     set_phase p (Deciding n (case lk_lock s of None \<Rightarrow> [] | Some c \<Rightarrow> if utf8_valid c then c else [])) s"
| "acquire_step p (Deciding n holder) s =
     set_phase p (case foreign_holder p (lk_alive s) holder of Some _ \<Rightarrow> Refused | None \<Rightarrow> Removing n) s"
| "acquire_step p (Removing n) s = set_phase p (Linking n) (s\<lparr> lk_lock := None \<rparr>)"
| "acquire_step p Idle s = s"
| "acquire_step p Held s = s"
| "acquire_step p Refused s = s"

fun acquiring :: "lock_phase \<Rightarrow> bool" where
  "acquiring Idle = False"
| "acquiring Held = False"
| "acquiring Refused = False"
| "acquiring _ = True"

inductive lock_step :: "lock_sys \<Rightarrow> lock_sys \<Rightarrow> bool" where
  start: "lk_alive s p \<Longrightarrow> lk_phase s p \<in> {Idle, Refused} \<Longrightarrow> lock_step s (set_phase p (Linking 4) s)"
| advance: "lk_alive s p \<Longrightarrow> acquiring (lk_phase s p) \<Longrightarrow> lock_step s (acquire_step p (lk_phase s p) s)"
| release: "lk_alive s p \<Longrightarrow> lk_phase s p = Held \<Longrightarrow> lock_step s (set_phase p Idle (s\<lparr> lk_lock := None \<rparr>))"
| die: "lk_alive s p \<Longrightarrow> lock_step s (set_phase p Idle (s\<lparr> lk_alive := (lk_alive s)(p := False) \<rparr>))"
| spawn: "\<not> lk_alive s p \<Longrightarrow> lock_step s (s\<lparr> lk_alive := (lk_alive s)(p := True) \<rparr>)"

text \<open>The same protocol with each acquisition executed without interference.\<close>

inductive serial_step :: "lock_sys \<Rightarrow> lock_sys \<Rightarrow> bool" where
  open_ok: "lk_alive s p \<Longrightarrow> lk_phase s p \<in> {Idle, Refused} \<Longrightarrow> acquire p (lk_alive s) (lk_lock s) = Inr l \<Longrightarrow>
     serial_step s (set_phase p Held (s\<lparr> lk_lock := l \<rparr>))"
| open_refused: "lk_alive s p \<Longrightarrow> lk_phase s p \<in> {Idle, Refused} \<Longrightarrow> acquire p (lk_alive s) (lk_lock s) = Inl e \<Longrightarrow>
     serial_step s (set_phase p Refused s)"
| close: "lk_alive s p \<Longrightarrow> lk_phase s p = Held \<Longrightarrow> serial_step s (set_phase p Idle (s\<lparr> lk_lock := None \<rparr>))"
| die: "lk_alive s p \<Longrightarrow> serial_step s (set_phase p Idle (s\<lparr> lk_alive := (lk_alive s)(p := False) \<rparr>))"
| spawn: "\<not> lk_alive s p \<Longrightarrow> serial_step s (s\<lparr> lk_alive := (lk_alive s)(p := True) \<rparr>)"

definition lock_init :: "bytes option \<Rightarrow> (u32 \<Rightarrow> bool) \<Rightarrow> lock_sys" where
  "lock_init lock alive = \<lparr> lk_lock = lock, lk_alive = alive, lk_phase = (\<lambda>_. Idle) \<rparr>"

section \<open>Reading a number back\<close>

lemma digit_value_byte: "d < 10 \<Longrightarrow> digit_value (digit_byte d) = Some d"
proof -
  assume d: "d < 10"
  then have "unat (digit_byte d) = 48 + d" unfolding digit_byte_def by (intro unat_of_nat_eq) simp
  then show ?thesis using d by (simp add: digit_value_def word_le_nat_alt)
qed

lemma parse_digits_snoc:
  "parse_digits acc (bs @ [b]) =
     (case parse_digits acc bs of None \<Rightarrow> None | Some m \<Rightarrow> parse_digits m [b])"
  by (induction bs arbitrary: acc) (auto split: option.splits)

lemma parse_digits_decimal: "n < 2 ^ 32 \<Longrightarrow> parse_digits 0 (decimal n) = Some n"
proof (induction n rule: decimal.induct)
  case (1 n)
  show ?case
  proof (cases "n < 10")
    case True
    then show ?thesis by (subst decimal.simps) (simp add: digit_value_byte)
  next
    case False
    have "n div 10 < 2 ^ 32" using 1(2) by (meson div_le_dividend le_less_trans)
    then have "parse_digits 0 (decimal (n div 10)) = Some (n div 10)" using 1(1) False by simp
    then show ?thesis using False 1(2) by (subst decimal.simps) (simp add: parse_digits_snoc digit_value_byte)
  qed
qed

lemma decimal_digits: "\<exists>d bs. decimal n = d # bs \<and> (\<forall>b \<in> set (d # bs). \<exists>k < 10. b = digit_byte k)"
proof (induction n rule: decimal.induct)
  case (1 n)
  show ?case
  proof (cases "n < 10")
    case True
    then show ?thesis by (subst decimal.simps) auto
  next
    case False
    then obtain d bs where "decimal (n div 10) = d # bs" "\<forall>b \<in> set (d # bs). \<exists>k < 10. b = digit_byte k"
      using 1 by blast
    then show ?thesis using False by (subst decimal.simps) (auto intro: exI [of _ "n mod 10"])
  qed
qed

lemma digit_byte_unat: "k < 10 \<Longrightarrow> unat (digit_byte k) = 48 + k"
  unfolding digit_byte_def by (intro unat_of_nat_eq) simp

lemma strip_front_digit:
  assumes "k < 10" "\<forall>w \<in> set ws. w \<noteq> [] \<longrightarrow> \<not> (48 \<le> unat (hd w) \<and> unat (hd w) \<le> 57)"
  shows "strip_front ws (digit_byte k # s) = digit_byte k # s"
proof -
  have "find (\<lambda>w. w \<noteq> [] \<and> take (length w) (digit_byte k # s) = w) ws = None"
    unfolding find_None_iff
  proof
    assume "\<exists>w. w \<in> set ws \<and> w \<noteq> [] \<and> take (length w) (digit_byte k # s) = w"
    then obtain b r where w: "b # r \<in> set ws" "take (length (b # r)) (digit_byte k # s) = b # r" by (metis list.exhaust)
    then have "unat b = 48 + k" using digit_byte_unat [OF assms(1)] by simp
    then show False using assms w(1) by force
  qed
  then show ?thesis by (subst strip_front.simps) simp
qed

lemma trim_decimal: "trim (decimal n) = decimal n"
proof -
  obtain d bs where d: "decimal n = d # bs" "\<forall>b \<in> set (d # bs). \<exists>k < 10. b = digit_byte k"
    using decimal_digits by blast
  obtain k where k: "k < 10" "d = digit_byte k" using d(2) by auto
  obtain e rest where e: "rev (d # bs) = e # rest" by (cases "rev (d # bs)") auto
  then have "e \<in> set (d # bs)" by (metis list.set_intros(1) set_rev)
  then obtain j where j: "j < 10" "e = digit_byte j" using d(2) by blast
  have "strip_front white_space (d # bs) = d # bs"
    unfolding k(2) by (rule strip_front_digit [OF k(1)]) (simp add: white_space_def)
  moreover have "strip_front (map rev white_space) (e # rest) = e # rest"
    unfolding j(2) by (rule strip_front_digit [OF j(1)]) (simp add: white_space_def)
  ultimately show ?thesis unfolding trim_def d(1) e [symmetric] by (simp add: e)
qed

lemma digit_byte_not_plus: "k < 10 \<Longrightarrow> digit_byte k \<noteq> 43"
  using digit_byte_unat [of k] by auto

lemma parse_pid: "parse_u32 (trim (decimal (unat p))) = Some p" for p :: u32
proof -
  obtain k bs where d: "decimal (unat p) = digit_byte k # bs" "k < 10" using decimal_digits by fastforce
  have "parse_digits 0 (digit_byte k # bs) = Some (unat p)"
    using parse_digits_decimal [of "unat p"] unat_lt2p [of p] d(1) by simp
  then show ?thesis unfolding trim_decimal unfolding parse_u32_def d(1) using digit_byte_not_plus [OF d(2)] by (simp add: Let_def del: parse_digits.simps)
qed

lemma utf8_valid_decimal: "utf8_valid (decimal n)"
proof -
  have "\<forall>b \<in> set bs. \<exists>k < 10. b = digit_byte k \<Longrightarrow> utf8_valid bs" for bs
  proof (induction bs)
    case (Cons b bs)
    then obtain k where "k < 10" "b = digit_byte k" by auto
    then have "unat b < unat (0x80 :: u8)" using digit_byte_unat [of k] by simp
    then have "b < 0x80" by (simp only: word_less_nat_alt)
    then show ?case using Cons by simp
  qed simp
  moreover obtain d bs where "decimal n = d # bs" "\<forall>b \<in> set (d # bs). \<exists>k < 10. b = digit_byte k"
    using decimal_digits by blast
  ultimately show ?thesis by metis
qed

lemma decimal_pid_inj: "decimal (unat p) = decimal (unat q) \<longleftrightarrow> p = q" for p q :: u32
  using parse_pid by (metis option.inject)

lemma foreign_holder_pid: "foreign_holder p alive (decimal (unat q)) = (if q \<noteq> p \<and> alive q then Some q else None)"
  by (simp add: foreign_holder_def parse_pid)

section \<open>One process at a time\<close>

text \<open>The holder that stops an acquisition.\<close>

definition blocking_holder :: "u32 \<Rightarrow> (u32 \<Rightarrow> bool) \<Rightarrow> bytes option \<Rightarrow> u32 option" where
  "blocking_holder p alive lock =
     (case lock of None \<Rightarrow> None | Some c \<Rightarrow> foreign_holder p alive (if utf8_valid c then c else []))"

lemma acquire_cases:
  "acquire p alive lock =
     (case blocking_holder p alive lock of Some q \<Rightarrow> Inl (LockedBy q) | None \<Rightarrow> Inr (Some (decimal (unat p))))"
proof -
  have "acquire_loop (Suc (Suc n)) p alive lock =
     (case blocking_holder p alive lock of Some q \<Rightarrow> Inl (LockedBy q) | None \<Rightarrow> Inr (Some (decimal (unat p))))" for n
    by (auto simp: try_create_def blocking_holder_def split: option.splits)
  then show ?thesis unfolding acquire_def by (simp only: eval_nat_numeral BitM.simps)
qed

definition serial_inv :: "lock_sys \<Rightarrow> bool" where
  "serial_inv s \<longleftrightarrow> (\<forall>p. lk_phase s p \<in> {Idle, Refused, Held}) \<and>
     (\<forall>p. lk_phase s p = Held \<longrightarrow> lk_alive s p \<and> lk_lock s = Some (decimal (unat p)))"

lemma serial_inv_init: "serial_inv (lock_init lock alive)"
  by (simp add: serial_inv_def lock_init_def)

lemma serial_inv_unique: "serial_inv s \<Longrightarrow> lk_phase s p = Held \<Longrightarrow> lk_phase s q = Held \<Longrightarrow> p = q"
  unfolding serial_inv_def by (metis decimal_pid_inj option.inject)

lemma serial_inv_step: "serial_step s s' \<Longrightarrow> serial_inv s \<Longrightarrow> serial_inv s'"
proof (induction rule: serial_step.induct)
  case (open_ok s p l)
  have "\<not> lk_phase s q = Held" for q
  proof
    assume q: "lk_phase s q = Held"
    then have "lk_alive s q" "lk_lock s = Some (decimal (unat q))" using open_ok(4) by (simp_all add: serial_inv_def)
    moreover have "q \<noteq> p" using q open_ok(2) by auto
    ultimately have "blocking_holder p (lk_alive s) (lk_lock s) = Some q"
      by (simp add: blocking_holder_def utf8_valid_decimal foreign_holder_pid)
    then show False using open_ok(3) by (simp add: acquire_cases)
  qed
  moreover have "l = Some (decimal (unat p))" using open_ok(3) by (simp add: acquire_cases split: option.splits)
  ultimately show ?case using open_ok by (simp add: serial_inv_def)
next
  case (close s p)
  have "q = p" if "lk_phase s q = Held" for q
    using serial_inv_unique [OF close(3) that close(2)] .
  then show ?case using close(3) by (auto simp: serial_inv_def)
qed (auto simp: serial_inv_def)

lemma serial_inv_reachable: "serial_step\<^sup>*\<^sup>* s s' \<Longrightarrow> serial_inv s \<Longrightarrow> serial_inv s'"
  by (induction rule: rtranclp_induct) (auto intro: serial_inv_step)

text \<open>A serial step is a run of the interleaved protocol.\<close>

lemma advance_run:
  assumes "lk_alive s p" "lk_phase s p = ph" "acquiring ph" "acquire_step p ph s = s'"
  shows "lock_step s s'"
  using lock_step.advance [OF assms(1)] assms by simp

lemma retry_run:
  assumes "lk_alive s p" "lk_phase s p = Linking (Suc n)" "lk_lock s = Some c"
  shows "lock_step\<^sup>*\<^sup>* s (set_phase p (case blocking_holder p (lk_alive s) (lk_lock s) of Some _ \<Rightarrow> Refused | None \<Rightarrow> Removing n) s)"
proof -
  have "lock_step s (set_phase p (ReadingHolder n) s)"
    by (rule advance_run [OF assms(1,2)]) (simp_all add: assms(3))
  moreover have "lock_step (set_phase p (ReadingHolder n) s) (set_phase p (Deciding n (if utf8_valid c then c else [])) s)"
    by (rule advance_run [of _ p "ReadingHolder n"]) (simp_all add: assms)
  moreover have "lock_step (set_phase p (Deciding n (if utf8_valid c then c else [])) s)
      (set_phase p (case blocking_holder p (lk_alive s) (lk_lock s) of Some _ \<Rightarrow> Refused | None \<Rightarrow> Removing n) s)"
    by (rule advance_run [of _ p "Deciding n (if utf8_valid c then c else [])"]) (simp_all add: assms blocking_holder_def)
  ultimately show ?thesis by (meson converse_rtranclp_into_rtranclp rtranclp.rtrancl_refl)
qed

lemma link_run:
  assumes "lk_alive s p" "lk_phase s p = Linking (Suc n)" "lk_lock s = None"
  shows "lock_step s (set_phase p Held (s\<lparr> lk_lock := Some (decimal (unat p)) \<rparr>))"
  by (rule advance_run [OF assms(1,2)]) (simp_all add: assms(3))

lemma acquire_run:
  assumes "lk_alive s p" "lk_phase s p \<in> {Idle, Refused}"
  shows "lock_step\<^sup>*\<^sup>* s (case acquire p (lk_alive s) (lk_lock s) of
      Inl _ \<Rightarrow> set_phase p Refused s | Inr l \<Rightarrow> set_phase p Held (s\<lparr> lk_lock := l \<rparr>))"
proof -
  let ?s1 = "set_phase p (Linking 4) s"
  have four: "Linking 4 = Linking (Suc (Suc 2))" by simp
  have start: "lock_step s ?s1" by (rule lock_step.start [OF assms])
  have alive: "lk_alive ?s1 p" "lk_phase ?s1 p = Linking (Suc (Suc 2))" using assms by simp_all
  show ?thesis
  proof (cases "lk_lock s")
    case None
    then have "lock_step ?s1 (set_phase p Held (s\<lparr> lk_lock := Some (decimal (unat p)) \<rparr>))"
      using link_run [OF alive] by simp
    then show ?thesis using start None by (simp add: acquire_cases blocking_holder_def)
  next
    case (Some c)
    note r = retry_run [OF alive, of c]
    show ?thesis
    proof (cases "blocking_holder p (lk_alive s) (lk_lock s)")
      case None
      let ?s2 = "set_phase p (Removing 3) s" and ?s3 = "set_phase p (Linking 3) (s\<lparr> lk_lock := None \<rparr>)"
      have "lock_step ?s2 ?s3" by (rule advance_run [of _ p "Removing 3"]) (simp_all add: assms(1))
      moreover have "lock_step ?s3 (set_phase p Held (s\<lparr> lk_lock := Some (decimal (unat p)) \<rparr>))"
        using link_run [of ?s3 p 2] assms(1) by simp
      moreover have "lock_step\<^sup>*\<^sup>* ?s1 ?s2" using r Some None by simp
      ultimately have "lock_step\<^sup>*\<^sup>* ?s1 (set_phase p Held (s\<lparr> lk_lock := Some (decimal (unat p)) \<rparr>))" by simp
      then show ?thesis using start None by (simp add: acquire_cases converse_rtranclp_into_rtranclp)
    next
      case (Some q)
      then show ?thesis using start r \<open>lk_lock s = Some c\<close> by (simp add: acquire_cases converse_rtranclp_into_rtranclp)
    qed
  qed
qed

lemma serial_run: "serial_step s s' \<Longrightarrow> lock_step\<^sup>*\<^sup>* s s'"
proof (induction rule: serial_step.induct)
  case (open_ok s p l)
  then show ?case using acquire_run [OF open_ok(1,2)] by simp
next
  case (open_refused s p e)
  then show ?case using acquire_run [OF open_refused(1,2)] by simp
next
  case (close s p)
  then show ?case by (intro r_into_rtranclp lock_step.release)
next
  case (die s p)
  then show ?case by (intro r_into_rtranclp lock_step.die)
next
  case (spawn s p)
  then show ?case by (intro r_into_rtranclp lock_step.spawn)
qed

section \<open>Two processes\<close>

definition two_procs :: "(u32 \<Rightarrow> bool) \<Rightarrow> u32 \<Rightarrow> u32 \<Rightarrow> bytes option \<Rightarrow> lock_phase \<Rightarrow> lock_phase \<Rightarrow> lock_sys" where
  "two_procs alive p q lock a b = \<lparr> lk_lock = lock, lk_alive = alive, lk_phase = (\<lambda>_. Idle)(p := a, q := b) \<rparr>"

lemma two_procs_swap: "p \<noteq> q \<Longrightarrow> two_procs alive p q lock a b = two_procs alive q p lock b a"
  by (simp add: two_procs_def fun_upd_twist)

lemma two_start: "alive q \<Longrightarrow> lock_step (two_procs alive p q lock a Idle) (two_procs alive p q lock a (Linking 4))"
  using lock_step.start [of "two_procs alive p q lock a Idle" q] by (simp add: two_procs_def)

lemma two_release: "alive q \<Longrightarrow> lock_step (two_procs alive p q lock a Held) (two_procs alive p q None a Idle)"
  using lock_step.release [of "two_procs alive p q lock a Held" q] by (simp add: two_procs_def)

lemma two_advance:
  assumes "alive q" "acquiring b" "acquire_step q b (two_procs alive p q lock a b) = two_procs alive p q lock' a b'"
  shows "lock_step (two_procs alive p q lock a b) (two_procs alive p q lock' a b')"
  using advance_run [of "two_procs alive p q lock a b" q b] assms by (simp add: two_procs_def)

lemma two_open:
  assumes "alive q"
  shows "lock_step\<^sup>*\<^sup>* (two_procs alive p q None a Idle) (two_procs alive p q (Some (decimal (unat q))) a Held)"
proof -
  have "lock_step (two_procs alive p q None a (Linking 4)) (two_procs alive p q (Some (decimal (unat q))) a Held)"
    using link_run [of "two_procs alive p q None a (Linking 4)" q 3] assms by (simp add: two_procs_def)
  then show ?thesis using two_start [of alive q p None a] assms by simp
qed

lemma foreign_holder_empty: "foreign_holder p alive [] = None"
proof -
  have "trim [] = []" by (simp add: trim_def strip_front.simps white_space_def)
  then show ?thesis by (simp add: foreign_holder_def parse_u32_def)
qed

text \<open>A process that found the lock taken, but reads it after its release, regards it as stale.\<close>

lemma two_stale:
  assumes "alive q"
  shows "lock_step\<^sup>*\<^sup>* (two_procs alive p q None a (ReadingHolder n)) (two_procs alive p q None a (Removing n))"
proof -
  have "lock_step (two_procs alive p q None a (ReadingHolder n)) (two_procs alive p q None a (Deciding n []))"
    by (rule two_advance) (simp_all add: assms two_procs_def)
  moreover have "lock_step (two_procs alive p q None a (Deciding n [])) (two_procs alive p q None a (Removing n))"
    by (rule two_advance) (simp_all add: assms two_procs_def foreign_holder_empty)
  ultimately show ?thesis by simp
qed

lemma two_blocked:
  assumes "alive q"
  shows "lock_step\<^sup>*\<^sup>* (two_procs alive p q (Some c) a Idle) (two_procs alive p q (Some c) a (ReadingHolder 3))"
proof -
  have "lock_step (two_procs alive p q (Some c) a (Linking (Suc 3))) (two_procs alive p q (Some c) a (ReadingHolder 3))"
    by (rule two_advance, rule assms, simp, unfold two_procs_def acquire_step.simps, simp)
  then show ?thesis using two_start [of alive q p "Some c" a] assms by simp
qed

lemma two_steal:
  assumes "alive q"
  shows "lock_step\<^sup>*\<^sup>* (two_procs alive p q (Some c) a (Removing 3)) (two_procs alive p q (Some (decimal (unat q))) a Held)"
proof -
  have "lock_step (two_procs alive p q (Some c) a (Removing 3)) (two_procs alive p q None a (Linking 3))"
    by (rule two_advance) (simp_all add: assms two_procs_def)
  moreover have "lock_step (two_procs alive p q None a (Linking 3)) (two_procs alive p q (Some (decimal (unat q))) a Held)"
    using link_run [of "two_procs alive p q None a (Linking 3)" q 2] assms by (simp add: two_procs_def)
  ultimately show ?thesis by simp
qed

section \<open>Properties\<close>



text \<open>Overlapping acquisitions do not.  Two live processes, neither of which ever dies, can reach a state in
  which both hold the lock: one finds the lock taken and reads it only after its release, so that it
  takes the empty content for a stale lock and removes the lock the other has taken meanwhile.\<close>

theorem file_lock_interleaving_unsafe:
  assumes "p \<noteq> q" "alive p" "alive q"
  shows "\<exists>s. lock_step\<^sup>*\<^sup>* (lock_init None alive) s \<and> lk_alive s = alive \<and>
    lk_phase s p = Held \<and> lk_phase s q = Held"
proof -
  let ?h = "Some (decimal (unat q))" and ?s = "two_procs alive p q"
  have "lock_init None alive = ?s None Idle Idle" by (simp add: lock_init_def two_procs_def fun_eq_iff)
  moreover have "lock_step\<^sup>*\<^sup>* (?s None Idle Idle) (?s ?h Idle Held)" by (rule two_open) (rule assms(3))
  moreover have "lock_step\<^sup>*\<^sup>* (?s ?h Idle Held) (?s ?h (ReadingHolder 3) Held)"
    unfolding two_procs_swap [OF assms(1)] by (rule two_blocked) (rule assms(2))
  moreover have "lock_step (?s ?h (ReadingHolder 3) Held) (?s None (ReadingHolder 3) Idle)" by (rule two_release) (rule assms(3))
  moreover have "lock_step\<^sup>*\<^sup>* (?s None (ReadingHolder 3) Idle) (?s None (Removing 3) Idle)"
    unfolding two_procs_swap [OF assms(1)] by (rule two_stale) (rule assms(2))
  moreover have "lock_step\<^sup>*\<^sup>* (?s None (Removing 3) Idle) (?s ?h (Removing 3) Held)" by (rule two_open) (rule assms(3))
  moreover have "lock_step\<^sup>*\<^sup>* (?s ?h (Removing 3) Held) (?s (Some (decimal (unat p))) Held Held)"
    unfolding two_procs_swap [OF assms(1)] by (rule two_steal) (rule assms(2))
  ultimately have "lock_step\<^sup>*\<^sup>* (lock_init None alive) (?s (Some (decimal (unat p))) Held Held)"
    by (metis (no_types, lifting) r_into_rtranclp rtranclp_trans)
  then show ?thesis using assms(1) by (intro exI [of _ "?s (Some (decimal (unat p))) Held Held"]) (simp add: two_procs_def)
qed

theorem file_lock_interleaving_unsafe_witness:
  "\<exists>s. lock_step\<^sup>*\<^sup>* (lock_init None (\<lambda>_. True)) s \<and> lk_alive s = (\<lambda>_. True) \<and>
    lk_phase s 7 = Held \<and> lk_phase s 9 = Held"
  by (rule file_lock_interleaving_unsafe) simp_all

end
