(* ===== verification/Net_Facts.thy ===== *)
theory Net_Facts
  imports Value_Encoding
begin

text \<open>
  The temporal views of \<open>src/src/graph/storage.rs\<close>: transaction-time filtering
  (\<open>filter_facts_as_of\<close>), the net-asserted view that applies retractions
  (\<open>net_asserted_facts\<close>), point-in-time coalescing, and the incremental reducer
  (\<open>CurrentValueState\<close>, \<open>CurrentAttributeValues\<close>) that the cursors run over index entries.
  The lemmas compare each with a declarative description of the surviving facts.
\<close>

section \<open>Transaction time\<close>

datatype as_of = Counter u64 | Timestamp i64 | Slot string

definition u64_try_from_i64 :: "i64 \<Rightarrow> u64 option" where
  "u64_try_from_i64 t = (if 0 \<le> i64_int t then Some (i64_bits t) else None)"

definition entry_visible_at_tx :: "u64 \<Rightarrow> u64 \<Rightarrow> as_of option \<Rightarrow> bool" where
  "entry_visible_at_tx cnt tid w =
     (case w of
        None \<Rightarrow> True
      | Some (Counter c) \<Rightarrow> cnt \<le> c
      | Some (Timestamp t) \<Rightarrow> tid \<le> get_or 0 (u64_try_from_i64 t)
      | Some (Slot _) \<Rightarrow> False)"

definition filter_facts_as_of :: "fact list \<Rightarrow> as_of \<Rightarrow> fact list" where
  "filter_facts_as_of facts w =
     filter (\<lambda>f. case w of
         Counter n \<Rightarrow> tx_count f \<le> n
       | Timestamp t \<Rightarrow> tx_id f \<le> get_or 0 (u64_try_from_i64 t)
       | Slot _ \<Rightarrow> False) facts"

section \<open>Identity keys\<close>

definition canonical_float_bits :: "f64 \<Rightarrow> u64" where
  "canonical_float_bits f = (if f64_is_nan f then 0x7FF8000000000000 else to_bits f)"

fun canonical_value_eq :: "value \<Rightarrow> value \<Rightarrow> bool" where
  "canonical_value_eq (Float l) (Float r) \<longleftrightarrow> canonical_float_bits l = canonical_float_bits r"
| "canonical_value_eq l r \<longleftrightarrow> value_eq l r"

text \<open>A representative per class of \<open>CanonicalValueRef\<close> equality, so that keys compare with \<open>=\<close>.\<close>

fun canonical_value :: "value \<Rightarrow> value" where
  "canonical_value (Float f) = Float (F64 (canonical_float_bits f))"
| "canonical_value v = v"

type_synonym eav_key = "uuid \<times> attribute \<times> value"
type_synonym window_key = "eav_key \<times> i64 \<times> i64"

definition eav_key_of :: "fact \<Rightarrow> eav_key" where
  "eav_key_of f = (entity f, attr f, canonical_value (val f))"

definition window_key_of :: "fact \<Rightarrow> window_key" where
  "window_key_of f = (eav_key_of f, valid_from f, valid_to f)"

section \<open>Net-asserted view\<close>

record net_maps =
  max_unscoped_retract_tx :: "(eav_key, u64) hash_map"
  max_scoped_retract_tx :: "(window_key, u64) hash_map"
  by_window :: "(window_key, nat) hash_map"

definition is_unscoped :: "fact \<Rightarrow> bool" where
  "is_unscoped f \<longleftrightarrow> valid_from f = RETRACT_ALL_VALID_FROM \<and> valid_to f = VALID_TIME_FOREVER"

definition replaces :: "fact list \<Rightarrow> nat option \<Rightarrow> fact \<Rightarrow> bool" where
  "replaces facts existing f =
     (case Option.bind existing (list_get facts) of
        None \<Rightarrow> True
      | Some g \<Rightarrow> tx_count f > tx_count g)"

definition net_step :: "fact list \<Rightarrow> nat \<times> fact \<Rightarrow> net_maps \<Rightarrow> net_maps" where
  "net_step facts = (\<lambda>(index, f) m.
     if asserted f then
       let key = window_key_of f in
       if replaces facts (hm_get (by_window m) key) f
       then m\<lparr> by_window := hm_insert key index (by_window m) \<rparr> else m
     else if is_unscoped f then
       m\<lparr> max_unscoped_retract_tx := hm_modify_or_insert (eav_key_of f)
            (\<lambda>t. max t (tx_count f)) (tx_count f) (max_unscoped_retract_tx m) \<rparr>
     else
       m\<lparr> max_scoped_retract_tx := hm_modify_or_insert (window_key_of f)
            (\<lambda>t. max t (tx_count f)) (tx_count f) (max_scoped_retract_tx m) \<rparr>)"

definition net_scan :: "fact list \<Rightarrow> net_maps" where
  "net_scan facts = fold (net_step facts) (zip [0..<length facts] facts)
     \<lparr> max_unscoped_retract_tx = [], max_scoped_retract_tx = [], by_window = [] \<rparr>"

definition net_keeps :: "net_maps \<Rightarrow> fact \<Rightarrow> bool" where
  "net_keeps m f \<longleftrightarrow>
     tx_count f > max (get_or 0 (hm_get (max_unscoped_retract_tx m) (eav_key_of f)))
                      (get_or 0 (hm_get (max_scoped_retract_tx m) (window_key_of f)))"

definition net_asserted_facts :: "fact list \<Rightarrow> fact list" where
  "net_asserted_facts facts =
     (let m = net_scan facts;
          keep = fold (\<lambda>index keep. case list_get facts index of
                       None \<Rightarrow> keep | Some f \<Rightarrow> keep[index := net_keeps m f])
                   (map snd (by_window m)) (replicate (length facts) False)
      in map fst (filter snd (zip facts keep)))"

section \<open>Point-in-time coalescing\<close>

definition coalesce_step ::
    "fact list \<Rightarrow> nat \<times> fact \<Rightarrow> (eav_key, nat) hash_map \<Rightarrow> (eav_key, nat) hash_map" where
  "coalesce_step facts = (\<lambda>(index, f) m.
     if replaces facts (hm_get m (eav_key_of f)) f then hm_insert (eav_key_of f) index m else m)"

definition coalesce_point_in_time_facts :: "fact list \<Rightarrow> fact list" where
  "coalesce_point_in_time_facts facts =
     (let by_eav = fold (coalesce_step facts) (zip [0..<length facts] facts) [];
          keep = fold (\<lambda>index keep. keep[index := True]) (map snd by_eav)
                   (replicate (length facts) False)
      in map fst (filter snd (zip facts keep)))"

section \<open>Declarative description\<close>

text \<open>Position \<open>i\<close> is the first position of the highest transaction count among the positions
  satisfying \<open>P\<close> that have the same key.\<close>

definition first_max :: "(fact \<Rightarrow> 'k) \<Rightarrow> (fact \<Rightarrow> bool) \<Rightarrow> fact list \<Rightarrow> nat \<Rightarrow> bool" where
  "first_max key P fs i \<longleftrightarrow> i < length fs \<and> P (fs ! i) \<and>
     (\<forall>j<length fs. P (fs ! j) \<and> key (fs ! j) = key (fs ! i) \<longrightarrow>
        tx_count (fs ! j) \<le> tx_count (fs ! i) \<and> (j < i \<longrightarrow> tx_count (fs ! j) < tx_count (fs ! i)))"

text \<open>The retractions that apply to a fact: those of the whole triple and those of its window.\<close>

definition retracts :: "fact \<Rightarrow> fact \<Rightarrow> bool" where
  "retracts g f \<longleftrightarrow> \<not> asserted g \<and>
     (if is_unscoped g then eav_key_of g = eav_key_of f else window_key_of g = window_key_of f)"

definition survives :: "fact list \<Rightarrow> nat \<Rightarrow> bool" where
  "survives fs i \<longleftrightarrow> first_max window_key_of asserted fs i \<and> 0 < tx_count (fs ! i) \<and>
     (\<forall>g\<in>set fs. retracts g (fs ! i) \<longrightarrow> tx_count g < tx_count (fs ! i))"

section \<open>The scans keep the first maximum per key\<close>

definition best_step ::
    "(fact \<Rightarrow> 'k) \<Rightarrow> (fact \<Rightarrow> bool) \<Rightarrow> fact list \<Rightarrow> nat \<times> fact \<Rightarrow> ('k, nat) hash_map \<Rightarrow> ('k, nat) hash_map"
  where "best_step key P facts = (\<lambda>(i, f) m.
    if P f \<and> replaces facts (hm_get m (key f)) f then hm_insert (key f) i m else m)"

definition best_at ::
    "(fact \<Rightarrow> 'k) \<Rightarrow> (fact \<Rightarrow> bool) \<Rightarrow> fact list \<Rightarrow> nat \<Rightarrow> 'k \<Rightarrow> nat option \<Rightarrow> bool" where
  "best_at key P fs n k best \<longleftrightarrow> (case best of
      None \<Rightarrow> \<forall>j<n. \<not> (P (fs ! j) \<and> key (fs ! j) = k)
    | Some i \<Rightarrow> i < n \<and> P (fs ! i) \<and> key (fs ! i) = k \<and>
        (\<forall>j<n. P (fs ! j) \<and> key (fs ! j) = k \<longrightarrow>
          tx_count (fs ! j) \<le> tx_count (fs ! i) \<and> (j < i \<longrightarrow> tx_count (fs ! j) < tx_count (fs ! i))))"

definition best_inv ::
    "(fact \<Rightarrow> 'k) \<Rightarrow> (fact \<Rightarrow> bool) \<Rightarrow> fact list \<Rightarrow> nat \<Rightarrow> ('k, nat) hash_map \<Rightarrow> bool" where
  "best_inv key P fs n m \<longleftrightarrow> hm_wf m \<and> (\<forall>k. best_at key P fs n k (hm_get m k))"

lemma best_at_other:
  "best_at key P fs n k best \<Longrightarrow> \<not> (P (fs ! n) \<and> key (fs ! n) = k) \<Longrightarrow> best_at key P fs (Suc n) k best"
  by (auto simp: best_at_def less_Suc_eq split: option.splits)

lemma best_at_same:
  assumes "best_at key P fs n (key (fs ! n)) best" "P (fs ! n)" "n < length fs"
  shows "best_at key P fs (Suc n) (key (fs ! n))
    (if replaces fs best (fs ! n) then Some n else best)"
proof (cases best)
  case None
  then show ?thesis
    using assms by (auto simp: best_at_def replaces_def less_Suc_eq)
next
  case (Some i)
  then have "replaces fs best (fs ! n) \<longleftrightarrow> tx_count (fs ! i) < tx_count (fs ! n)"
    using assms by (auto simp: best_at_def replaces_def list_get_def)
  then show ?thesis
    using assms Some by (auto simp: best_at_def less_Suc_eq intro: le_less_trans)
qed

lemma best_inv_step:
  assumes inv: "best_inv key P fs n m" and n: "n < length fs"
  shows "best_inv key P fs (Suc n) (best_step key P fs (n, fs ! n) m)"
proof -
  have "best_at key P fs (Suc n) k (hm_get (best_step key P fs (n, fs ! n) m) k)" for k
  proof (cases "P (fs ! n) \<and> key (fs ! n) = k")
    case True
    then have "best_at key P fs (Suc n) k
        (if replaces fs (hm_get m k) (fs ! n) then Some n else hm_get m k)"
      using inv n best_at_same [of key P fs n "hm_get m k"] by (auto simp: best_inv_def)
    with True show ?thesis by (auto simp: best_step_def)
  next
    case False
    then show ?thesis
      using inv best_at_other [of key P fs n k] by (auto simp: best_inv_def best_step_def)
  qed
  then show ?thesis
    using inv by (auto simp: best_inv_def best_step_def)
qed

lemma best_inv_fold:
  "n \<le> length fs \<Longrightarrow>
    best_inv key P fs n (fold (best_step key P fs) (zip [0..<n] (take n fs)) [])"
proof (induction n)
  case 0
  then show ?case by (simp add: best_inv_def best_at_def)
next
  case (Suc n)
  then have "zip [0..<Suc n] (take (Suc n) fs) = zip [0..<n] (take n fs) @ [(n, fs ! n)]"
    by (simp add: take_Suc_conv_app_nth)
  then show ?case using Suc best_inv_step [of key P fs n] by simp
qed

lemma first_max_length: "first_max key P fs i \<Longrightarrow> i < length fs"
  by (simp add: first_max_def)

lemma first_max_unique:
  assumes "first_max key P fs i" "first_max key P fs j" "key (fs ! i) = key (fs ! j)"
  shows "i = j"
  using assms unfolding first_max_def
  by (metis linorder_neqE_nat leD)

lemma best_at_Some_iff:
  "best_at key P fs (length fs) k (Some i) \<longleftrightarrow> key (fs ! i) = k \<and> first_max key P fs i"
  by (auto simp: best_at_def first_max_def)

lemma best_values:
  assumes "best_inv key P fs (length fs) m"
  shows "i \<in> set (map snd m) \<longleftrightarrow> first_max key P fs i"
proof
  assume "i \<in> set (map snd m)"
  then obtain k where "hm_get m k = Some i"
    using assms hm_values [of m i] by (auto simp: best_inv_def)
  then show "first_max key P fs i"
    using assms best_at_Some_iff unfolding best_inv_def by metis
next
  assume fm: "first_max key P fs i"
  have at: "best_at key P fs (length fs) (key (fs ! i)) (hm_get m (key (fs ! i)))"
    using assms by (simp add: best_inv_def)
  then obtain j where j: "hm_get m (key (fs ! i)) = Some j"
    using fm by (cases "hm_get m (key (fs ! i))") (auto simp: best_at_def first_max_def)
  with at have "first_max key P fs j" "key (fs ! j) = key (fs ! i)"
    by (simp_all only: best_at_Some_iff)
  then have "i = j" using first_max_unique fm by metis
  then show "i \<in> set (map snd m)"
    using j map_of_SomeD by force
qed

section \<open>The retraction maps keep the maximum per key\<close>

definition retract_step ::
    "(fact \<Rightarrow> 'k) \<Rightarrow> (fact \<Rightarrow> bool) \<Rightarrow> nat \<times> fact \<Rightarrow> ('k, u64) hash_map \<Rightarrow> ('k, u64) hash_map" where
  "retract_step key P = (\<lambda>(i, f) m.
     if P f then hm_modify_or_insert (key f) (\<lambda>t. max t (tx_count f)) (tx_count f) m else m)"

lemma retract_step_bound:
  "get_or 0 (hm_get (retract_step key P (i, f) m) k) < t \<longleftrightarrow>
     get_or 0 (hm_get m k) < t \<and> (P f \<and> key f = k \<longrightarrow> tx_count f < t)"
  by (auto simp: retract_step_def split: option.splits)
    (metis le_less_trans word_zero_le)

lemma retract_fold_bound:
  "get_or 0 (hm_get (fold (retract_step key P) ifs m) k) < t \<longleftrightarrow>
     get_or 0 (hm_get m k) < t \<and> (\<forall>f\<in>snd ` set ifs. P f \<and> key f = k \<longrightarrow> tx_count f < t)"
  by (induction ifs arbitrary: m) (auto simp: retract_step_bound)

lemma net_scan_components:
  "by_window (fold (net_step facts) ifs m) =
     fold (best_step window_key_of asserted facts) ifs (by_window m)"
  "max_unscoped_retract_tx (fold (net_step facts) ifs m) =
     fold (retract_step eav_key_of (\<lambda>f. \<not> asserted f \<and> is_unscoped f)) ifs (max_unscoped_retract_tx m)"
  "max_scoped_retract_tx (fold (net_step facts) ifs m) =
     fold (retract_step window_key_of (\<lambda>f. \<not> asserted f \<and> \<not> is_unscoped f)) ifs (max_scoped_retract_tx m)"
  by (induction ifs arbitrary: m)
    (auto simp: net_step_def best_step_def retract_step_def Let_def)

lemma net_keeps_iff:
  "net_keeps (net_scan facts) f \<longleftrightarrow>
     0 < tx_count f \<and> (\<forall>g\<in>set facts. retracts g f \<longrightarrow> tx_count g < tx_count f)"
proof -
  have facts: "snd ` set (zip [0..<length facts] facts) = set facts"
    by (metis length_upt list.set_map map_snd_zip minus_nat.diff_0)
  show ?thesis
    unfolding net_keeps_def net_scan_def net_scan_components max_less_iff_conj retract_fold_bound facts
    by (auto simp: retracts_def)
qed

lemma net_scan_windows:
  "i \<in> set (map snd (by_window (net_scan facts))) \<longleftrightarrow> first_max window_key_of asserted facts i"
  using best_values [OF best_inv_fold [of "length facts" facts window_key_of asserted]]
  by (simp add: net_scan_def net_scan_components)

lemma fold_keep_get:
  assumes "length keep = length facts"
  shows "fold (\<lambda>index keep. case list_get facts index of
      None \<Rightarrow> keep | Some f \<Rightarrow> keep[index := p f]) js keep =
    fold (\<lambda>index keep. keep[index := p (facts ! index)]) js keep"
  using assms by (induction js arbitrary: keep) (auto simp: list_get_def list_update_beyond)

lemma net_asserted_facts_nths:
  "net_asserted_facts facts = nths facts {i. survives facts i}"
proof -
  let ?m = "net_scan facts"
  let ?keep = "fold (\<lambda>index keep. keep[index := net_keeps ?m (facts ! index)])
      (map snd (by_window ?m)) (replicate (length facts) False)"
  have "i < length facts \<and> ?keep ! i \<longleftrightarrow> survives facts i" for i
    using first_max_length [of window_key_of asserted facts i]
    by (auto simp: nth_fold_list_update net_scan_windows net_keeps_iff survives_def
        simp del: set_map split: if_splits)
  then show ?thesis
    by (simp add: net_asserted_facts_def Let_def fold_keep_get filter_zip_nths)
qed

text \<open>
  C2: \<open>net_asserted_facts\<close> returns, in input order, exactly the surviving assertions: for each
  entity, attribute, value and validity window the first assertion of highest transaction count,
  provided that count is positive and exceeds the count of every retraction of the whole triple
  and of every retraction scoped to that window.
\<close>

theorem net_asserted_facts_spec:
  "net_asserted_facts facts = nths facts {i. survives facts i}"
  by (rule net_asserted_facts_nths)

section \<open>Consequences\<close>

lemma first_max_exists:
  assumes "f \<in> set fs" "P f"
  shows "\<exists>i. first_max key P fs i \<and> key (fs ! i) = key f"
proof -
  let ?m = "fold (best_step key P fs) (zip [0..<length fs] (take (length fs) fs)) []"
  have at: "best_at key P fs (length fs) (key f) (hm_get ?m (key f))"
    using best_inv_fold [of "length fs" fs key P] unfolding best_inv_def by blast
  obtain j where "j < length fs" "fs ! j = f" using assms(1) by (auto simp: in_set_conv_nth)
  with assms(2) at obtain i where "hm_get ?m (key f) = Some i"
    by (cases "hm_get ?m (key f)") (auto simp: best_at_def)
  with at show ?thesis using best_at_Some_iff by metis
qed

lemma net_distinct_windows: "distinct (map window_key_of (net_asserted_facts facts))"
  unfolding net_asserted_facts_nths
  by (rule distinct_map_nths) (auto simp: survives_def dest: first_max_unique)

lemma net_facts_member:
  "f \<in> set (net_asserted_facts facts) \<Longrightarrow> asserted f \<and> 0 < tx_count f \<and> f \<in> set facts"
  by (auto simp: net_asserted_facts_nths set_nths_iff survives_def first_max_def)

text \<open>
  Applying retractions is idempotent: a net-asserted view is its own net-asserted view.
\<close>

theorem net_asserted_facts_idem:
  "net_asserted_facts (net_asserted_facts facts) = net_asserted_facts facts"
proof -
  let ?R = "net_asserted_facts facts"
  have "survives ?R i" if i: "i < length ?R" for i
  proof -
    have R: "f \<in> set ?R \<Longrightarrow> asserted f \<and> 0 < tx_count f" for f
      using net_facts_member by blast
    have "j = i" if "j < length ?R" "window_key_of (?R ! j) = window_key_of (?R ! i)" for j
      using that i net_distinct_windows [of facts]
      by (metis distinct_conv_nth length_map nth_map)
    then show ?thesis
      using i R by (auto simp: survives_def first_max_def retracts_def)
  qed
  then have "nths ?R {i. survives ?R i} = nths ?R {..<length ?R}"
    unfolding nths_alt by (auto intro!: arg_cong [where f = "map _"] filter_cong)
  then show ?thesis
    by (simp add: net_asserted_facts_nths [of ?R])
qed

definition visible_windows :: "fact list \<Rightarrow> (window_key \<times> u64) set" where
  "visible_windows facts = (\<lambda>f. (window_key_of f, tx_count f)) ` set (net_asserted_facts facts)"

lemma retracts_window: "window_key_of f = window_key_of f' \<Longrightarrow> retracts g f \<longleftrightarrow> retracts g f'"
  by (auto simp: retracts_def window_key_of_def)

lemma visible_windows_iff:
  "(k, t) \<in> visible_windows facts \<longleftrightarrow> 0 < t \<and>
     (\<exists>f\<in>set facts. asserted f \<and> window_key_of f = k \<and> tx_count f = t \<and>
        (\<forall>g\<in>set facts. asserted g \<and> window_key_of g = k \<longrightarrow> tx_count g \<le> t) \<and>
        (\<forall>g\<in>set facts. retracts g f \<longrightarrow> tx_count g < t))"
  (is "?L \<longleftrightarrow> ?R")
proof
  assume ?L
  then obtain i where i: "i < length facts" "survives facts i"
    and kt: "window_key_of (facts ! i) = k" "tx_count (facts ! i) = t"
    by (auto simp: visible_windows_def net_asserted_facts_nths set_nths_iff)
  have "tx_count g \<le> t" if "g \<in> set facts" "asserted g" "window_key_of g = k" for g
    using that i kt by (auto simp: survives_def first_max_def in_set_conv_nth)
  with i kt show ?R by (auto simp: survives_def first_max_def intro!: bexI [of _ "facts ! i"])
next
  assume ?R
  then obtain f where f: "0 < t" "f \<in> set facts" "asserted f" "window_key_of f = k" "tx_count f = t"
    and top: "\<And>g. g \<in> set facts \<Longrightarrow> asserted g \<Longrightarrow> window_key_of g = k \<Longrightarrow> tx_count g \<le> t"
    and ret: "\<And>g. g \<in> set facts \<Longrightarrow> retracts g f \<Longrightarrow> tx_count g < t" by blast
  obtain i where i: "first_max window_key_of asserted facts i" "window_key_of (facts ! i) = k"
    using first_max_exists [of f facts asserted window_key_of] f by auto
  obtain j where j: "j < length facts" "facts ! j = f" using f by (auto simp: in_set_conv_nth)
  have "tx_count f \<le> tx_count (facts ! i)"
    using i j f by (auto simp: first_max_def)
  moreover have "tx_count (facts ! i) \<le> t"
    using i top by (auto simp: first_max_def)
  ultimately have t: "tx_count (facts ! i) = t" using f by simp
  have "survives facts i"
    using i t f ret retracts_window [of "facts ! i" f] by (auto simp: survives_def)
  then have "facts ! i \<in> set (net_asserted_facts facts)"
    using first_max_length [OF i(1)] by (auto simp: net_asserted_facts_nths set_nths_iff)
  then show ?L using i t by (force simp: visible_windows_def)
qed

text \<open>
  C22: which windows are visible, and at which transaction count, depends only on the set of facts,
  not on their order or multiplicity; in particular not on the order in which a hash map, the
  pending overlay or the committed pages deliver them.
\<close>

theorem visible_windows_order_independent:
  assumes "set facts = set facts'"
  shows "visible_windows facts = visible_windows facts'"
proof -
  have "(k, t) \<in> visible_windows facts \<longleftrightarrow> (k, t) \<in> visible_windows facts'" for k t
    unfolding visible_windows_iff assms ..
  then show ?thesis by auto
qed

theorem visible_windows_order_independent_witness:
  "let f = fact_with_valid_time 1 '':a'' Null 5 1 i64_MIN i64_MAX;
       g = fact_retract_with_valid_time 1 '':a'' Null 6 2 i64_MIN i64_MAX
   in visible_windows [f, g] = visible_windows [g, f, g]"
  unfolding Let_def by (rule visible_windows_order_independent) auto

lemma nth_fold_keep_True:
  "i < length keep \<Longrightarrow>
    fold (\<lambda>index keep. keep[index := True]) js keep ! i \<longleftrightarrow> i \<in> set js \<or> keep ! i"
  using nth_fold_list_update [of i keep "\<lambda>_. True" js] by simp

lemma length_fold_keep_True [simp]:
  "length (fold (\<lambda>index keep. keep[index := True]) js keep) = length keep"
  by (rule length_fold_list_update)

lemma coalesce_nths:
  "coalesce_point_in_time_facts facts = nths facts {i. first_max eav_key_of (\<lambda>_. True) facts i}"
proof -
  define m where "m = fold (coalesce_step facts) (zip [0..<length facts] facts) []"
  define keep where "keep = fold (\<lambda>index keep. keep[index := True]) (map snd m)
    (replicate (length facts) False)"
  have "coalesce_step facts = best_step eav_key_of (\<lambda>_. True) facts"
    unfolding coalesce_step_def best_step_def by simp
  then have "best_inv eav_key_of (\<lambda>_. True) facts (length facts) m"
    using best_inv_fold [of "length facts" facts eav_key_of "\<lambda>_. True"] by (simp add: m_def)
  then have m: "i \<in> set (map snd m) \<longleftrightarrow> first_max eav_key_of (\<lambda>_. True) facts i" for i
    by (rule best_values)
  have "i < length facts \<and> keep ! i \<longleftrightarrow> first_max eav_key_of (\<lambda>_. True) facts i" for i
  proof (cases "i < length facts")
    case True
    then show ?thesis unfolding keep_def m [symmetric] by (simp add: nth_fold_keep_True)
  next
    case False
    then show ?thesis using first_max_length by blast
  qed
  then have "nths facts {i. i < length facts \<and> keep ! i} =
      nths facts {i. first_max eav_key_of (\<lambda>_. True) facts i}" by presburger
  moreover have "length keep = length facts" by (simp add: keep_def)
  ultimately show ?thesis
    unfolding coalesce_point_in_time_facts_def Let_def m_def [symmetric] keep_def [symmetric]
    by (simp only: filter_zip_nths)
qed

text \<open>
  C23: coalescing keeps one row per entity, attribute and canonical value: every such triple of the
  input appears exactly once, the output is a subsequence of the input, and the kept row has the
  highest transaction count of its triple.
\<close>

theorem coalesce_point_in_time_facts_correct:
  "distinct (map eav_key_of (coalesce_point_in_time_facts facts)) \<and>
   eav_key_of ` set (coalesce_point_in_time_facts facts) = eav_key_of ` set facts \<and>
   subseq (coalesce_point_in_time_facts facts) facts \<and>
   (\<forall>f \<in> set (coalesce_point_in_time_facts facts). \<forall>g \<in> set facts.
      eav_key_of g = eav_key_of f \<longrightarrow> tx_count g \<le> tx_count f)"
proof (intro conjI ballI impI)
  show "distinct (map eav_key_of (coalesce_point_in_time_facts facts))"
    unfolding coalesce_nths by (rule distinct_map_nths) (auto dest: first_max_unique)
  show "subseq (coalesce_point_in_time_facts facts) facts"
    unfolding coalesce_nths by (rule subseq_nths)
  have "eav_key_of f \<in> eav_key_of ` set (coalesce_point_in_time_facts facts)"
    if mem: "f \<in> set facts" for f
  proof -
    obtain i where i: "first_max eav_key_of (\<lambda>_. True) facts i" "eav_key_of (facts ! i) = eav_key_of f"
      using first_max_exists [OF mem, of "\<lambda>_. True" eav_key_of] by auto
    then have "facts ! i \<in> set (coalesce_point_in_time_facts facts)"
      by (auto simp: coalesce_nths set_nths_iff dest: first_max_length)
    with i(2) show ?thesis by (metis imageI)
  qed
  then show "eav_key_of ` set (coalesce_point_in_time_facts facts) = eav_key_of ` set facts"
    by (auto simp: coalesce_nths dest: in_set_nthsD)
next
  fix f g
  assume "f \<in> set (coalesce_point_in_time_facts facts)" "g \<in> set facts" "eav_key_of g = eav_key_of f"
  then show "tx_count g \<le> tx_count f"
    by (auto simp: coalesce_nths set_nths_iff first_max_def in_set_conv_nth [of g])
qed

theorem coalesce_point_in_time_facts_correct_witness:
  "let f = fact_with_valid_time 1 '':a'' Null 5 1 i64_MIN i64_MAX;
       g = fact_with_valid_time 1 '':a'' Null 6 2 (I64 0) i64_MAX
   in distinct (map eav_key_of (coalesce_point_in_time_facts [f, g])) \<and>
      eav_key_of ` set (coalesce_point_in_time_facts [f, g]) = eav_key_of ` set [f, g]"
  unfolding Let_def using coalesce_point_in_time_facts_correct by blast

lemma canonical_value_eq_iff: "canonical_value_eq v w \<longleftrightarrow> canonical_value v = canonical_value w"
  by (cases v; cases w) simp_all

lemma canonical_float_bits_eq_iff:
  "canonical_float_bits a = canonical_float_bits b \<longleftrightarrow> a = b \<or> f64_is_nan a \<and> f64_is_nan b"
proof -
  have "f64_is_nan (F64 0x7FF8000000000000)" by (simp add: f64_is_nan_def f64_magnitude_def)
  then show ?thesis by (cases a; cases b) (auto simp: canonical_float_bits_def)
qed

text \<open>
  The value identity used by the net-asserted view agrees with the identity of the index
  encoding except on NaN against the one subnormal whose encoding is the NaN pattern.
\<close>

theorem canonical_identity_vs_encoding:
  "encode_value v = encode_value w \<longleftrightarrow> canonical_value_eq v w \<or>
     (\<exists>f. f64_is_nan f \<and> (v = Float f \<and> w = Float f64_nan_alias \<or>
                           v = Float f64_nan_alias \<and> w = Float f))"
  by (cases v; cases w)
    (auto simp: to_be_bytes_eq_iff integer_bits_eq_iff float_bits_eq_iff canonical_float_bits_eq_iff)

end
