(* ===== verification/Index_Keys.thy ===== *)
theory Index_Keys
  imports Net_Facts
begin

text \<open>
  The keys of the four covering indexes of \<open>src/src/storage/index.rs\<close> with the derived
  lexicographic order, their borrowed projections, the checked entry decoders, and the in-memory
  \<open>Indexes\<close> with insertion and range lookups.  The lemmas show that the hand-written comparisons
  of borrowed entries are the derived key orders, that a resume key compares equal to the entry it
  was taken from, and which entries each range lookup returns.
\<close>

section \<open>Fact references\<close>

datatype fact_ref = FactRef (page_id: u64) (slot_index: u16)

definition max_uuid :: uuid where
  "max_uuid = 0xFFFFFFFFFFFFFFFFFFFFFFFFFFFFFFFF"

section \<open>Keys in their derived order\<close>

datatype eavt_key = EavtKey
  (ek_entity: "uuid")
  (ek_attribute: "attribute")
  (ek_valid_from: "i64")
  (ek_valid_to: "i64")
  (ek_tx_count: "u64")
  (ek_value_bytes: "bytes")
  (ek_tx_id: "u64")
  (ek_asserted: "bool")

fun eavt_tuple :: "eavt_key \<Rightarrow> uuid \<times> attribute \<times> i64 \<times> i64 \<times> u64 \<times> bytes \<times> u64 \<times> bool" where
  "eavt_tuple (EavtKey e1 e2 e3 e4 e5 e6 e7 e8) = (e1, e2, e3, e4, e5, e6, e7, e8)"

lemma eavt_tuple_inj [simp]: "eavt_tuple x = eavt_tuple y \<longleftrightarrow> x = y"
  by (cases x; cases y) simp

instantiation eavt_key :: linorder
begin

definition less_eq_eavt_key :: "eavt_key \<Rightarrow> eavt_key \<Rightarrow> bool" where
  "less_eq_eavt_key x y \<longleftrightarrow> eavt_tuple x \<le> eavt_tuple y"

definition less_eavt_key :: "eavt_key \<Rightarrow> eavt_key \<Rightarrow> bool" where
  "less_eavt_key x y \<longleftrightarrow> eavt_tuple x < eavt_tuple y"

instance
proof
  fix x y z :: eavt_key
  show "x < y \<longleftrightarrow> x \<le> y \<and> \<not> y \<le> x"
    unfolding less_eq_eavt_key_def less_eavt_key_def by (rule less_le_not_le)
  show "x \<le> x" unfolding less_eq_eavt_key_def by (rule order_refl)
  show "x \<le> y \<Longrightarrow> y \<le> z \<Longrightarrow> x \<le> z" unfolding less_eq_eavt_key_def by (rule order_trans)
  show "x \<le> y \<Longrightarrow> y \<le> x \<Longrightarrow> x = y"
    unfolding less_eq_eavt_key_def using antisym eavt_tuple_inj by blast
  show "x \<le> y \<or> y \<le> x" unfolding less_eq_eavt_key_def by (rule linear)
qed

end

datatype aevt_key = AevtKey
  (ak_attribute: "attribute")
  (ak_entity: "uuid")
  (ak_valid_from: "i64")
  (ak_valid_to: "i64")
  (ak_tx_count: "u64")
  (ak_value_bytes: "bytes")
  (ak_tx_id: "u64")
  (ak_asserted: "bool")

fun aevt_tuple :: "aevt_key \<Rightarrow> attribute \<times> uuid \<times> i64 \<times> i64 \<times> u64 \<times> bytes \<times> u64 \<times> bool" where
  "aevt_tuple (AevtKey e1 e2 e3 e4 e5 e6 e7 e8) = (e1, e2, e3, e4, e5, e6, e7, e8)"

lemma aevt_tuple_inj [simp]: "aevt_tuple x = aevt_tuple y \<longleftrightarrow> x = y"
  by (cases x; cases y) simp

instantiation aevt_key :: linorder
begin

definition less_eq_aevt_key :: "aevt_key \<Rightarrow> aevt_key \<Rightarrow> bool" where
  "less_eq_aevt_key x y \<longleftrightarrow> aevt_tuple x \<le> aevt_tuple y"

definition less_aevt_key :: "aevt_key \<Rightarrow> aevt_key \<Rightarrow> bool" where
  "less_aevt_key x y \<longleftrightarrow> aevt_tuple x < aevt_tuple y"

instance
proof
  fix x y z :: aevt_key
  show "x < y \<longleftrightarrow> x \<le> y \<and> \<not> y \<le> x"
    unfolding less_eq_aevt_key_def less_aevt_key_def by (rule less_le_not_le)
  show "x \<le> x" unfolding less_eq_aevt_key_def by (rule order_refl)
  show "x \<le> y \<Longrightarrow> y \<le> z \<Longrightarrow> x \<le> z" unfolding less_eq_aevt_key_def by (rule order_trans)
  show "x \<le> y \<Longrightarrow> y \<le> x \<Longrightarrow> x = y"
    unfolding less_eq_aevt_key_def using antisym aevt_tuple_inj by blast
  show "x \<le> y \<or> y \<le> x" unfolding less_eq_aevt_key_def by (rule linear)
qed

end

datatype avet_key = AvetKey
  (vk_attribute: "attribute")
  (vk_value_bytes: "bytes")
  (vk_valid_from: "i64")
  (vk_valid_to: "i64")
  (vk_entity: "uuid")
  (vk_tx_count: "u64")
  (vk_tx_id: "u64")
  (vk_asserted: "bool")

fun avet_tuple :: "avet_key \<Rightarrow> attribute \<times> bytes \<times> i64 \<times> i64 \<times> uuid \<times> u64 \<times> u64 \<times> bool" where
  "avet_tuple (AvetKey e1 e2 e3 e4 e5 e6 e7 e8) = (e1, e2, e3, e4, e5, e6, e7, e8)"

lemma avet_tuple_inj [simp]: "avet_tuple x = avet_tuple y \<longleftrightarrow> x = y"
  by (cases x; cases y) simp

instantiation avet_key :: linorder
begin

definition less_eq_avet_key :: "avet_key \<Rightarrow> avet_key \<Rightarrow> bool" where
  "less_eq_avet_key x y \<longleftrightarrow> avet_tuple x \<le> avet_tuple y"

definition less_avet_key :: "avet_key \<Rightarrow> avet_key \<Rightarrow> bool" where
  "less_avet_key x y \<longleftrightarrow> avet_tuple x < avet_tuple y"

instance
proof
  fix x y z :: avet_key
  show "x < y \<longleftrightarrow> x \<le> y \<and> \<not> y \<le> x"
    unfolding less_eq_avet_key_def less_avet_key_def by (rule less_le_not_le)
  show "x \<le> x" unfolding less_eq_avet_key_def by (rule order_refl)
  show "x \<le> y \<Longrightarrow> y \<le> z \<Longrightarrow> x \<le> z" unfolding less_eq_avet_key_def by (rule order_trans)
  show "x \<le> y \<Longrightarrow> y \<le> x \<Longrightarrow> x = y"
    unfolding less_eq_avet_key_def using antisym avet_tuple_inj by blast
  show "x \<le> y \<or> y \<le> x" unfolding less_eq_avet_key_def by (rule linear)
qed

end

datatype vaet_key = VaetKey
  (rk_ref_target: "uuid")
  (rk_attribute: "attribute")
  (rk_valid_from: "i64")
  (rk_valid_to: "i64")
  (rk_source_entity: "uuid")
  (rk_tx_count: "u64")
  (rk_tx_id: "u64")
  (rk_asserted: "bool")

fun vaet_tuple :: "vaet_key \<Rightarrow> uuid \<times> attribute \<times> i64 \<times> i64 \<times> uuid \<times> u64 \<times> u64 \<times> bool" where
  "vaet_tuple (VaetKey e1 e2 e3 e4 e5 e6 e7 e8) = (e1, e2, e3, e4, e5, e6, e7, e8)"

lemma vaet_tuple_inj [simp]: "vaet_tuple x = vaet_tuple y \<longleftrightarrow> x = y"
  by (cases x; cases y) simp

instantiation vaet_key :: linorder
begin

definition less_eq_vaet_key :: "vaet_key \<Rightarrow> vaet_key \<Rightarrow> bool" where
  "less_eq_vaet_key x y \<longleftrightarrow> vaet_tuple x \<le> vaet_tuple y"

definition less_vaet_key :: "vaet_key \<Rightarrow> vaet_key \<Rightarrow> bool" where
  "less_vaet_key x y \<longleftrightarrow> vaet_tuple x < vaet_tuple y"

instance
proof
  fix x y z :: vaet_key
  show "x < y \<longleftrightarrow> x \<le> y \<and> \<not> y \<le> x"
    unfolding less_eq_vaet_key_def less_vaet_key_def by (rule less_le_not_le)
  show "x \<le> x" unfolding less_eq_vaet_key_def by (rule order_refl)
  show "x \<le> y \<Longrightarrow> y \<le> z \<Longrightarrow> x \<le> z" unfolding less_eq_vaet_key_def by (rule order_trans)
  show "x \<le> y \<Longrightarrow> y \<le> x \<Longrightarrow> x = y"
    unfolding less_eq_vaet_key_def using antisym vaet_tuple_inj by blast
  show "x \<le> y \<or> y \<le> x" unfolding less_eq_vaet_key_def by (rule linear)
qed

end

lemmas key_order [cmp_simps] =
  less_eq_eavt_key_def less_eavt_key_def
  less_eq_aevt_key_def less_aevt_key_def
  less_eq_avet_key_def less_avet_key_def
  less_eq_vaet_key_def less_vaet_key_def

section \<open>Borrowed entries\<close>

record current_aevt_entry =
  ca_entity :: uuid
  ca_valid_from :: i64
  ca_valid_to :: i64
  ca_tx_count :: u64
  ca_value_bytes :: bytes
  ca_tx_id :: u64
  ca_asserted :: bool

record current_eavt_entry =
  ce_entity :: uuid
  ce_attribute :: attribute
  ce_valid_from :: i64
  ce_valid_to :: i64
  ce_tx_count :: u64
  ce_value_bytes :: bytes
  ce_tx_id :: u64
  ce_asserted :: bool

record current_vaet_entry =
  cv_ref_target :: uuid
  cv_attribute :: attribute
  cv_valid_from :: i64
  cv_valid_to :: i64
  cv_source_entity :: uuid
  cv_tx_count :: u64
  cv_tx_id :: u64
  cv_asserted :: bool

definition eavt_from_owned :: "eavt_key \<Rightarrow> current_eavt_entry" where
  "eavt_from_owned k =
     \<lparr> ce_entity = ek_entity k, ce_attribute = ek_attribute k, ce_valid_from = ek_valid_from k,
       ce_valid_to = ek_valid_to k, ce_tx_count = ek_tx_count k, ce_value_bytes = ek_value_bytes k,
       ce_tx_id = ek_tx_id k, ce_asserted = ek_asserted k \<rparr>"

definition aevt_from_owned :: "aevt_key \<Rightarrow> current_aevt_entry" where
  "aevt_from_owned k =
     \<lparr> ca_entity = ak_entity k, ca_valid_from = ak_valid_from k, ca_valid_to = ak_valid_to k,
       ca_tx_count = ak_tx_count k, ca_value_bytes = ak_value_bytes k, ca_tx_id = ak_tx_id k,
       ca_asserted = ak_asserted k \<rparr>"

definition vaet_from_owned :: "vaet_key \<Rightarrow> current_vaet_entry" where
  "vaet_from_owned k =
     \<lparr> cv_ref_target = rk_ref_target k, cv_attribute = rk_attribute k, cv_valid_from = rk_valid_from k,
       cv_valid_to = rk_valid_to k, cv_source_entity = rk_source_entity k, cv_tx_count = rk_tx_count k,
       cv_tx_id = rk_tx_id k, cv_asserted = rk_asserted k \<rparr>"

definition value_projection :: "current_eavt_entry \<Rightarrow> current_aevt_entry" where
  "value_projection c =
     \<lparr> ca_entity = ce_entity c, ca_valid_from = ce_valid_from c, ca_valid_to = ce_valid_to c,
       ca_tx_count = ce_tx_count c, ca_value_bytes = ce_value_bytes c, ca_tx_id = ce_tx_id c,
       ca_asserted = ce_asserted c \<rparr>"

definition eavt_cmp_owned :: "current_eavt_entry \<Rightarrow> eavt_key \<Rightarrow> ordering" where
  "eavt_cmp_owned c k =
     cmp (ce_entity c, ce_attribute c, ce_valid_from c, ce_valid_to c, ce_tx_count c,
          ce_value_bytes c, ce_tx_id c, ce_asserted c)
         (ek_entity k, ek_attribute k, ek_valid_from k, ek_valid_to k, ek_tx_count k,
          ek_value_bytes k, ek_tx_id k, ek_asserted k)"

definition aevt_cmp_owned_suffix :: "current_aevt_entry \<Rightarrow> aevt_key \<Rightarrow> ordering" where
  "aevt_cmp_owned_suffix c k =
     cmp (ca_entity c, ca_valid_from c, ca_valid_to c, ca_tx_count c,
          ca_value_bytes c, ca_tx_id c, ca_asserted c)
         (ak_entity k, ak_valid_from k, ak_valid_to k, ak_tx_count k,
          ak_value_bytes k, ak_tx_id k, ak_asserted k)"

definition vaet_cmp_owned :: "current_vaet_entry \<Rightarrow> vaet_key \<Rightarrow> ordering" where
  "vaet_cmp_owned c k =
     cmp (cv_ref_target c, cv_attribute c, cv_valid_from c, cv_valid_to c, cv_source_entity c,
          cv_tx_count c, cv_tx_id c, cv_asserted c)
         (rk_ref_target k, rk_attribute k, rk_valid_from k, rk_valid_to k, rk_source_entity k,
          rk_tx_count k, rk_tx_id k, rk_asserted k)"

text \<open>\<open>write_resume_key\<close> overwrites a retained key; its flag tells whether the buffers, whose
  capacities are given, were large enough.\<close>

definition eavt_write_resume_key ::
    "nat \<Rightarrow> nat \<Rightarrow> current_eavt_entry \<Rightarrow> eavt_key \<Rightarrow> bool \<times> eavt_key" where
  "eavt_write_resume_key attr_cap value_cap c k =
     (length (ce_attribute c) \<le> attr_cap \<and> length (ce_value_bytes c) \<le> value_cap,
      EavtKey (ce_entity c) (ce_attribute c) (ce_valid_from c) (ce_valid_to c) (ce_tx_count c)
        (ce_value_bytes c) (ce_tx_id c) (ce_asserted c))"

definition aevt_write_resume_key ::
    "nat \<Rightarrow> current_aevt_entry \<Rightarrow> aevt_key \<Rightarrow> bool \<times> aevt_key" where
  "aevt_write_resume_key value_cap c k =
     (length (ca_value_bytes c) \<le> value_cap,
      AevtKey (ak_attribute k) (ca_entity c) (ca_valid_from c) (ca_valid_to c) (ca_tx_count c)
        (ca_value_bytes c) (ca_tx_id c) (ca_asserted c))"

definition vaet_write_resume_key ::
    "nat \<Rightarrow> current_vaet_entry \<Rightarrow> vaet_key \<Rightarrow> bool \<times> vaet_key" where
  "vaet_write_resume_key attr_cap c k =
     (length (cv_attribute c) \<le> attr_cap,
      VaetKey (cv_ref_target c) (cv_attribute c) (cv_valid_from c) (cv_valid_to c)
        (cv_source_entity c) (cv_tx_count c) (cv_tx_id c) (cv_asserted c))"

text \<open>The wire shapes have the fields of the owned keys.  \<open>take\<close> stands for
  \<open>postcard::take_from_bytes\<close>: the decoded prefix and the bytes after it.\<close>

datatype entry_error = PostcardError | TrailingBytes

definition decode_entry ::
    "(bytes \<Rightarrow> (('k \<times> fact_ref) \<times> bytes) option) \<Rightarrow> bytes \<Rightarrow> entry_error + ('k \<times> fact_ref)" where
  "decode_entry take_from_bytes bs =
     (case take_from_bytes bs of
        None \<Rightarrow> Inl PostcardError
      | Some (entry, remaining) \<Rightarrow> if remaining \<noteq> [] then Inl TrailingBytes else Inr entry)"

definition eavt_wire_cmp_owned :: "eavt_key \<Rightarrow> eavt_key \<Rightarrow> ordering" where
  "eavt_wire_cmp_owned w k = eavt_cmp_owned (eavt_from_owned w) k"

definition aevt_wire_cmp_owned :: "aevt_key \<Rightarrow> aevt_key \<Rightarrow> ordering" where
  "aevt_wire_cmp_owned w k =
     then_with (cmp (ak_attribute w) (ak_attribute k)) (aevt_cmp_owned_suffix (aevt_from_owned w) k)"

definition vaet_wire_cmp_owned :: "vaet_key \<Rightarrow> vaet_key \<Rightarrow> ordering" where
  "vaet_wire_cmp_owned w k = vaet_cmp_owned (vaet_from_owned w) k"

lemma key_cmp_tuple:
  "cmp x y = cmp (eavt_tuple x) (eavt_tuple y)" "cmp x' y' = cmp (aevt_tuple x') (aevt_tuple y')"
  "cmp x'' y'' = cmp (vaet_tuple x'') (vaet_tuple y'')"
  by (simp_all add: cmp_def key_order)

text \<open>
  The field-by-field comparisons of borrowed wire entries with owned keys are the derived
  orders of the owned key types, for EAVT, AEVT and VAET.
\<close>

theorem wire_cmp_owned_is_key_order:
  "eavt_wire_cmp_owned we ke = cmp we ke \<and> aevt_wire_cmp_owned wa ka = cmp wa ka \<and>
   vaet_wire_cmp_owned wv kv = cmp wv kv"
  by (cases we; cases ke; cases wa; cases ka; cases wv; cases kv)
    (simp add: eavt_wire_cmp_owned_def eavt_cmp_owned_def eavt_from_owned_def
      aevt_wire_cmp_owned_def aevt_cmp_owned_suffix_def aevt_from_owned_def then_with_cmp_pair
      vaet_wire_cmp_owned_def vaet_cmp_owned_def vaet_from_owned_def key_cmp_tuple)

text \<open>
  A resume key compares equal to the entry it was written from: over EAVT and VAET for any
  retained key, over AEVT under the attribute that the retained key already carries.
\<close>

theorem write_resume_key_exact:
  "eavt_cmp_owned ce (snd (eavt_write_resume_key ac vc ce ke)) = Equal \<and>
   aevt_cmp_owned_suffix ca (snd (aevt_write_resume_key vc ca ka)) = Equal \<and>
   ak_attribute (snd (aevt_write_resume_key vc ca ka)) = ak_attribute ka \<and>
   vaet_cmp_owned cv (snd (vaet_write_resume_key ac cv kv)) = Equal"
  by (simp add: eavt_cmp_owned_def eavt_write_resume_key_def aevt_cmp_owned_suffix_def
      aevt_write_resume_key_def vaet_cmp_owned_def vaet_write_resume_key_def)

section \<open>The four in-memory indexes\<close>

record indexes =
  ix_eavt :: "(eavt_key, fact_ref) btree_map"
  ix_aevt :: "(aevt_key, fact_ref) btree_map"
  ix_avet :: "(avet_key, fact_ref) btree_map"
  ix_vaet :: "(vaet_key, fact_ref) btree_map"

definition indexes_new :: indexes where
  "indexes_new = \<lparr> ix_eavt = [], ix_aevt = [], ix_avet = [], ix_vaet = [] \<rparr>"

definition eavt_key_of :: "fact \<Rightarrow> eavt_key" where
  "eavt_key_of f = EavtKey (entity f) (attr f) (valid_from f) (valid_to f) (tx_count f)
     (encode_value (val f)) (tx_id f) (asserted f)"

definition aevt_key_of :: "fact \<Rightarrow> aevt_key" where
  "aevt_key_of f = AevtKey (attr f) (entity f) (valid_from f) (valid_to f) (tx_count f)
     (encode_value (val f)) (tx_id f) (asserted f)"

definition avet_key_of :: "fact \<Rightarrow> avet_key" where
  "avet_key_of f = AvetKey (attr f) (encode_value (val f)) (valid_from f) (valid_to f) (entity f)
     (tx_count f) (tx_id f) (asserted f)"

definition vaet_key_of :: "fact \<Rightarrow> uuid \<Rightarrow> vaet_key" where
  "vaet_key_of f target = VaetKey target (attr f) (valid_from f) (valid_to f) (entity f)
     (tx_count f) (tx_id f) (asserted f)"

definition indexes_insert :: "indexes \<Rightarrow> fact \<Rightarrow> fact_ref \<Rightarrow> indexes" where
  "indexes_insert ix f r =
     \<lparr> ix_eavt = btm_insert (eavt_key_of f) r (ix_eavt ix),
       ix_aevt = btm_insert (aevt_key_of f) r (ix_aevt ix),
       ix_avet = btm_insert (avet_key_of f) r (ix_avet ix),
       ix_vaet = (case val f of
           Ref target \<Rightarrow> btm_insert (vaet_key_of f target) r (ix_vaet ix)
         | _ \<Rightarrow> ix_vaet ix) \<rparr>"

definition lookup_eavt_entity :: "indexes \<Rightarrow> uuid \<Rightarrow> fact_ref list" where
  "lookup_eavt_entity ix e =
     (let start = EavtKey e [] i64_MIN i64_MIN 0 [] 0 False;
          stop = EavtKey e ''zzzzzzzzzzzzzzzzzz'' i64_MAX i64_MAX (-1) [0xFF] (-1) True
      in map snd (btm_range (\<lambda>k. start \<le> k \<and> k < stop) (ix_eavt ix)))"

definition lookup_eavt_entity_attr :: "indexes \<Rightarrow> uuid \<Rightarrow> attribute \<Rightarrow> fact_ref list" where
  "lookup_eavt_entity_attr ix e a =
     (let start = EavtKey e a i64_MIN i64_MIN 0 [] 0 False;
          stop = EavtKey e a i64_MAX i64_MAX (-1) [0xFF] (-1) True
      in map snd (btm_range (\<lambda>k. start \<le> k \<and> k \<le> stop) (ix_eavt ix)))"

definition lookup_aevt_attr :: "indexes \<Rightarrow> attribute \<Rightarrow> fact_ref list" where
  "lookup_aevt_attr ix a =
     (let start = AevtKey a 0 i64_MIN i64_MIN 0 [] 0 False;
          stop = AevtKey a max_uuid i64_MAX i64_MAX (-1) [0xFF] (-1) True
      in map snd (btm_range (\<lambda>k. start \<le> k \<and> k \<le> stop) (ix_aevt ix)))"

definition lookup_avet_attr_value :: "indexes \<Rightarrow> attribute \<Rightarrow> value \<Rightarrow> fact_ref list" where
  "lookup_avet_attr_value ix a v =
     (let start = AvetKey a (encode_value v) i64_MIN i64_MIN 0 0 0 False;
          stop = AvetKey a (encode_value v) i64_MAX i64_MAX max_uuid (-1) (-1) True
      in map snd (btm_range (\<lambda>k. start \<le> k \<and> k \<le> stop) (ix_avet ix)))"

text \<open>\<open>char::MAX\<close> as UTF-8.\<close>

definition char_MAX :: string where
  "char_MAX = of_bytes [0xF4, 0x8F, 0xBF, 0xBF]"

definition lookup_vaet_ref :: "indexes \<Rightarrow> uuid \<Rightarrow> fact_ref list" where
  "lookup_vaet_ref ix target =
     (let start = VaetKey target [] i64_MIN i64_MIN 0 0 0 False;
          stop = VaetKey target char_MAX i64_MAX i64_MAX max_uuid (-1) (-1) True
      in map snd (btm_range (\<lambda>k. start \<le> k \<and> k \<le> stop) (ix_vaet ix)))"

text \<open>The indexes of a sequence of facts with their locations.\<close>

definition indexes_of :: "(fact \<times> fact_ref) list \<Rightarrow> indexes" where
  "indexes_of frs = fold (\<lambda>(f, r) ix. indexes_insert ix f r) frs indexes_new"

subsection \<open>What the indexes hold\<close>

lemma btm_fold_insert:
  "btm_wf m \<Longrightarrow> btm_wf (fold (\<lambda>(f, r). btm_insert (key f) r) frs m) \<and>
   set (map fst (fold (\<lambda>(f, r). btm_insert (key f) r) frs m)) = set (map fst m) \<union> (key \<circ> fst) ` set frs"
proof (induction frs arbitrary: m)
  case (Cons fr frs)
  obtain f r where "fr = (f, r)" by (cases fr)
  then show ?case
    using Cons.IH [of "btm_insert (key f) r m"] Cons.prems btm_insert_keys [of "key f" r m] by auto
qed simp

lemma indexes_of_components:
  "ix_eavt (fold (\<lambda>(f, r) ix. indexes_insert ix f r) frs ix) =
     fold (\<lambda>(f, r). btm_insert (eavt_key_of f) r) frs (ix_eavt ix)"
  "ix_aevt (fold (\<lambda>(f, r) ix. indexes_insert ix f r) frs ix) =
     fold (\<lambda>(f, r). btm_insert (aevt_key_of f) r) frs (ix_aevt ix)"
  "ix_avet (fold (\<lambda>(f, r) ix. indexes_insert ix f r) frs ix) =
     fold (\<lambda>(f, r). btm_insert (avet_key_of f) r) frs (ix_avet ix)"
  by (induction frs arbitrary: ix) (auto simp: indexes_insert_def)

lemma indexes_of_keys:
  "fst ` set (ix_eavt (indexes_of frs)) = (eavt_key_of \<circ> fst) ` set frs"
  "fst ` set (ix_aevt (indexes_of frs)) = (aevt_key_of \<circ> fst) ` set frs"
  "fst ` set (ix_avet (indexes_of frs)) = (avet_key_of \<circ> fst) ` set frs"
  using btm_fold_insert [of "[]" eavt_key_of frs] btm_fold_insert [of "[]" aevt_key_of frs]
    btm_fold_insert [of "[]" avet_key_of frs]
  by (simp_all add: indexes_of_def indexes_of_components indexes_new_def)

lemma i64_bounds [simp]: "i64_MIN \<le> i" "i \<le> i64_MAX"
proof -
  have "- (2 ^ 63) \<le> i64_int i" "i64_int i < 2 ^ 63"
    using sint_ge [of "i64_bits i"] sint_lt [of "i64_bits i"] by (simp_all add: i64_int_def)
  moreover have "i64_int i64_MIN = - (2 ^ 63)" "i64_int i64_MAX = 2 ^ 63 - 1"
    by (simp_all add: i64_int_def i64_MIN_def i64_MAX_def)
  ultimately show "i64_MIN \<le> i" "i \<le> i64_MAX" by (simp_all add: less_eq_i64_def)
qed

lemma max_uuid_eq: "max_uuid = - 1"
  by (simp add: max_uuid_def)

lemma max_uuid_top [simp]: "u \<le> max_uuid"
  unfolding max_uuid_eq by (rule word_order.extremum)

lemma encode_value_below_FF: "encode_value v \<le> [0xFF]"
  by (cases v) simp_all

lemma nil_le_list [simp]: "[] \<le> (xs :: 'a :: linorder list)"
  by (cases xs) simp_all

lemma pair_leI: "a \<le> (a' :: 'a :: linorder) \<Longrightarrow> b \<le> (b' :: 'b :: linorder) \<Longrightarrow> (a, b) \<le> (a', b')"
  by (auto simp: less_eq_prod_def)

lemma pair_le_same [simp]: "(a, b) \<le> (a, b') \<longleftrightarrow> (b :: 'b :: linorder) \<le> b'" for a :: "'a :: linorder"
  by (auto simp: less_eq_prod_def)

lemma pair_between:
  fixes a a' :: "'a :: linorder" and b :: "'b :: linorder"
  assumes "(a, b) \<le> (a', b')" "(a', b') \<le> (a, b'')"
  shows "a' = a \<and> b \<le> b' \<and> b' \<le> b''"
  using assms by (auto simp: less_eq_prod_def)

lemma btm_range_filter_cong:
  "(\<And>k r. (k, r) \<in> set m \<Longrightarrow> P k \<longleftrightarrow> Q k) \<Longrightarrow> btm_range P m = filter (\<lambda>(k, r). Q k) m"
  unfolding btm_range_def by (rule filter_cong) auto

lemmas key_bounds = pair_leI i64_bounds max_uuid_top word_order.extremum word_zero_le nil_le_list

lemma eavt_between_iff:
  assumes "ek_value_bytes k \<le> [0xFF]"
  shows "EavtKey e a i64_MIN i64_MIN 0 [] 0 False \<le> k \<and>
      k \<le> EavtKey e a i64_MAX i64_MAX (-1) [0xFF] (-1) True \<longleftrightarrow> ek_entity k = e \<and> ek_attribute k = a"
  using assms
  by (cases k) (auto simp: less_eq_eavt_key_def dest!: pair_between intro!: key_bounds)

lemma aevt_between_iff:
  assumes "ak_value_bytes k \<le> [0xFF]"
  shows "AevtKey a 0 i64_MIN i64_MIN 0 [] 0 False \<le> k \<and>
      k \<le> AevtKey a max_uuid i64_MAX i64_MAX (-1) [0xFF] (-1) True \<longleftrightarrow> ak_attribute k = a"
  using assms
  by (cases k) (auto simp: less_eq_aevt_key_def dest!: pair_between intro!: key_bounds)

lemma avet_between_iff:
  "AvetKey a vb i64_MIN i64_MIN 0 0 0 False \<le> k \<and>
      k \<le> AvetKey a vb i64_MAX i64_MAX max_uuid (-1) (-1) True \<longleftrightarrow>
    vk_attribute k = a \<and> vk_value_bytes k = vb"
  by (cases k) (auto simp: less_eq_avet_key_def dest!: pair_between intro!: key_bounds)

lemma indexes_of_value_bytes:
  "(k, r) \<in> set (ix_eavt (indexes_of frs)) \<Longrightarrow> ek_value_bytes k \<le> [0xFF]"
  "(k', r) \<in> set (ix_aevt (indexes_of frs)) \<Longrightarrow> ak_value_bytes k' \<le> [0xFF]"
proof -
  assume "(k, r) \<in> set (ix_eavt (indexes_of frs))"
  then have "k \<in> fst ` set (ix_eavt (indexes_of frs))" by force
  then show "ek_value_bytes k \<le> [0xFF]"
    unfolding indexes_of_keys using encode_value_below_FF by (auto simp: eavt_key_of_def)
next
  assume "(k', r) \<in> set (ix_aevt (indexes_of frs))"
  then have "k' \<in> fst ` set (ix_aevt (indexes_of frs))" by force
  then show "ak_value_bytes k' \<le> [0xFF]"
    unfolding indexes_of_keys using encode_value_below_FF by (auto simp: aevt_key_of_def)
qed

text \<open>
  C11: on the indexes built from any sequence of facts, the EAVT lookup by entity and attribute, the
  AEVT lookup by attribute and the AVET lookup by attribute and value return exactly the entries
  with that entity, attribute and encoded value, in index order.
\<close>

theorem index_lookups_exact:
  "lookup_eavt_entity_attr (indexes_of frs) e a =
     map snd (filter (\<lambda>(k, r). ek_entity k = e \<and> ek_attribute k = a) (ix_eavt (indexes_of frs))) \<and>
   lookup_aevt_attr (indexes_of frs) a =
     map snd (filter (\<lambda>(k, r). ak_attribute k = a) (ix_aevt (indexes_of frs))) \<and>
   lookup_avet_attr_value (indexes_of frs) a v =
     map snd (filter (\<lambda>(k, r). vk_attribute k = a \<and> vk_value_bytes k = encode_value v)
       (ix_avet (indexes_of frs)))"
  unfolding lookup_eavt_entity_attr_def lookup_aevt_attr_def lookup_avet_attr_value_def Let_def
  by (intro conjI arg_cong [where f = "map snd"] btm_range_filter_cong eavt_between_iff
      aevt_between_iff avet_between_iff indexes_of_value_bytes)

end
