(* ===== verification/Ordered_Runs.thy ===== *)
theory Ordered_Runs
  imports Vicia_Prelude
begin

text \<open>
  Sorting, two-way and k-way merging of runs under a caller-supplied comparison, as
  \<open>src/src/graph/pending_overlay.rs\<close> performs them.  The locale \<open>strict_cmp\<close> states what such a
  comparison must satisfy, and its lemmas show that sorting and merging give the one ascending list
  of their elements and that the bounded k-way merge gives a prefix of it.
\<close>

section \<open>Operations\<close>

fun insort_by :: "('a \<Rightarrow> 'a \<Rightarrow> ordering) \<Rightarrow> 'a \<Rightarrow> 'a list \<Rightarrow> 'a list" where
  "insort_by ord x [] = [x]"
| "insort_by ord x (y # ys) = (if ord x y \<noteq> Greater then x # y # ys else y # insort_by ord x ys)"

definition sort_by :: "('a \<Rightarrow> 'a \<Rightarrow> ordering) \<Rightarrow> 'a list \<Rightarrow> 'a list" where
  "sort_by ord xs = foldr (insort_by ord) xs []"

fun merge_by :: "('a \<Rightarrow> 'a \<Rightarrow> ordering) \<Rightarrow> 'a list \<Rightarrow> 'a list \<Rightarrow> 'a list" where
  "merge_by ord (x # xs) (y # ys) =
     (if ord x y \<noteq> Greater then x # merge_by ord xs (y # ys) else y # merge_by ord (x # xs) ys)"
| "merge_by ord [] ys = ys"
| "merge_by ord xs [] = xs"

text \<open>The index of the first element for which the predicate fails, which is what
  \<open>slice::partition_point\<close> returns on a partitioned slice.\<close>

definition partition_point :: "('a \<Rightarrow> bool) \<Rightarrow> 'a list \<Rightarrow> nat" where
  "partition_point P xs = length (takeWhile P xs)"

text \<open>The cursor with the least head, the earliest one among equals.\<close>

definition select_min :: "('a \<Rightarrow> 'a \<Rightarrow> ordering) \<Rightarrow> 'a list list \<Rightarrow> nat" where
  "select_min ord cursors =
     fold (\<lambda>i selected. if ord (hd (cursors ! i)) (hd (cursors ! selected)) = Less then i else selected)
       [1..<length cursors] 0"

definition swap_remove :: "'a list \<Rightarrow> nat \<Rightarrow> 'a list" where
  "swap_remove xs i = butlast (xs[i := last xs])"

lemma sum_list_swap_remove:
  "i < length xs \<Longrightarrow> sum_list (map f (swap_remove xs i)) + (f (xs ! i) :: nat) = sum_list (map f xs)"
proof -
  assume i: "i < length xs"
  then obtain ys y where xs: "xs = ys @ [y]" by (cases xs rule: rev_cases) auto
  show ?thesis
  proof (cases "i = length ys")
    case True
    then show ?thesis by (simp add: xs swap_remove_def)
  next
    case False
    then have "i < length ys" using i xs by simp
    then show ?thesis
      using sum_list_update [of i "map f ys" "f y"] elem_le_sum_list [of i "map f ys"]
      by (simp add: xs swap_remove_def list_update_append1 nth_append map_update)
  qed
qed

text \<open>One entry is taken from the least cursor per round; a cursor is the rest of its run slice.\<close>

function kway :: "('a \<Rightarrow> 'a \<Rightarrow> ordering) \<Rightarrow> nat \<Rightarrow> 'a list list \<Rightarrow> 'a list \<Rightarrow> 'a list \<times> bool" where
  "kway ord max_entries cursors result =
     (if cursors = [] then (result, False)
      else let selected = select_min ord cursors in
        if length cursors \<le> selected then (result, False)
        else case cursors ! selected of
          [] \<Rightarrow> (result, False)
        | x # rest \<Rightarrow>
            let result' = result @ [x] in
            if length result' > max_entries then (result', True)
            else kway ord max_entries
                   (if rest = [] then swap_remove cursors selected else cursors[selected := rest]) result')"
  by pat_completeness auto

termination
proof (relation "measure (\<lambda>(ord, max_entries, cursors, result). sum_list (map length cursors))", goal_cases)
  case (2 ord max_entries cursors result selected x rest result')
  then have "length (cursors ! selected) = Suc (length rest)" "selected < length cursors" by auto
  moreover have "length (cursors ! selected) \<le> sum_list (map length cursors)"
    using elem_le_sum_list [of selected "map length cursors"] \<open>selected < length cursors\<close> by simp
  ultimately show ?case
    using sum_list_swap_remove [of selected cursors length]
      sum_list_update [of selected "map length cursors" "length rest"]
    by (auto simp: map_update)
qed simp

declare kway.simps [simp del]

section \<open>Elements\<close>

lemma set_insort_by [simp]: "set (insort_by ord x xs) = insert x (set xs)"
  by (induction xs) auto

lemma sort_by_simps [simp]:
  "sort_by ord [] = []" "sort_by ord (x # xs) = insort_by ord x (sort_by ord xs)"
  by (simp_all add: sort_by_def)

lemma set_sort_by [simp]: "set (sort_by ord xs) = set xs"
  by (induction xs) auto

lemma length_insort_by [simp]: "length (insort_by ord x xs) = Suc (length xs)"
  by (induction xs) auto

lemma length_sort_by [simp]: "length (sort_by ord xs) = length xs"
  by (induction xs) auto

lemma mset_merge_by [simp]: "mset (merge_by ord xs ys) = mset xs + mset ys"
  by (induction ord xs ys rule: merge_by.induct) auto

lemma set_merge_by [simp]: "set (merge_by ord xs ys) = set xs \<union> set ys"
  by (metis mset_merge_by set_mset_mset set_mset_union)

lemma length_merge_by [simp]: "length (merge_by ord xs ys) = length xs + length ys"
  by (metis mset_merge_by size_mset size_union)

lemma mset_swap_remove: "i < length xs \<Longrightarrow> add_mset (xs ! i) (mset (swap_remove xs i)) = mset xs"
proof -
  assume i: "i < length xs"
  then obtain ys y where xs: "xs = ys @ [y]" by (cases xs rule: rev_cases) auto
  show ?thesis
  proof (cases "i = length ys")
    case True
    then show ?thesis by (simp add: xs swap_remove_def)
  next
    case False
    then have "i < length ys" using i xs by simp
    then show ?thesis
      by (simp add: xs swap_remove_def list_update_append1 nth_append mset_update)
  qed
qed

lemma mset_concat_alt: "mset (concat xss) = (\<Sum>xs\<in>#mset xss. mset xs)"
  by (induction xss) auto

lemma mset_concat_swap_remove:
  "i < length xss \<Longrightarrow> mset (xss ! i) + mset (concat (swap_remove xss i)) = mset (concat xss)"
  unfolding mset_concat_alt by (subst mset_swap_remove [of i xss, symmetric]) auto

lemma mset_concat_update:
  "i < length xss \<Longrightarrow> xss ! i = x # rest \<Longrightarrow>
    add_mset x (mset (concat (xss[i := rest]))) = mset (concat xss)"
proof -
  assume i: "i < length xss" "xss ! i = x # rest"
  then obtain M where M: "mset xss = add_mset (x # rest) M"
    by (metis insert_DiffM nth_mem_mset)
  then have "mset (xss[i := rest]) = add_mset rest M" using i by (simp add: mset_update)
  with M show ?thesis unfolding mset_concat_alt by simp
qed

section \<open>Strict comparisons\<close>

locale strict_cmp = total_cmp +
  assumes ord_Equal: "ord x y = Equal \<Longrightarrow> x = y"
begin

lemma lt_trans: "ord x y = Less \<Longrightarrow> ord y z = Less \<Longrightarrow> ord x z = Less"
  using less_le_trans by (metis ordering.distinct(3))

lemma lt_irrefl: "ord x x \<noteq> Less"
  by (simp add: ord_refl)

lemma not_less_cases: "ord x y \<noteq> Less \<Longrightarrow> x = y \<or> ord y x = Less"
  by (metis ord_Equal ord_sym ordering.exhaust)

lemma sorted_unique:
  assumes "sorted_wrt (\<lambda>x y. ord x y = Less) xs" "sorted_wrt (\<lambda>x y. ord x y = Less) ys" "set xs = set ys"
  shows "xs = ys"
  using assms
proof (induction xs arbitrary: ys)
  case (Cons x xs)
  then obtain y ys' where ys: "ys = y # ys'" by (cases ys) auto
  have "x = y"
  proof (rule ccontr)
    assume "x \<noteq> y"
    then have "ord x y = Less" "ord y x = Less" using Cons.prems ys by auto
    then show False using lt_trans lt_irrefl by blast
  qed
  moreover have "x \<notin> set xs" "y \<notin> set ys'" using Cons.prems ys lt_irrefl by auto
  ultimately have "set xs = set ys'" using Cons.prems ys by (simp add: insert_ident)
  then show ?case using Cons ys \<open>x = y\<close> by auto
qed simp

lemma sorted_distinct: "sorted_wrt (\<lambda>x y. ord x y = Less) xs \<Longrightarrow> distinct xs"
  by (induction xs) (auto simp: lt_irrefl)

lemma insort_by_sorted:
  "sorted_wrt (\<lambda>x y. ord x y = Less) xs \<Longrightarrow> x \<notin> set xs \<Longrightarrow>
    sorted_wrt (\<lambda>x y. ord x y = Less) (insort_by ord x xs)"
proof (induction xs)
  case (Cons y ys)
  show ?case
  proof (cases "ord x y = Greater")
    case True
    then have "ord y x = Less" using ord_sym by blast
    with True Cons show ?thesis by auto
  next
    case False
    then have "ord x y = Less" using Cons.prems ord_Equal by (metis list.set_intros(1) ordering.exhaust)
    then show ?thesis using Cons.prems lt_trans by auto
  qed
qed simp

lemma sort_by_sorted: "distinct xs \<Longrightarrow> sorted_wrt (\<lambda>x y. ord x y = Less) (sort_by ord xs)"
  by (induction xs) (auto intro!: insort_by_sorted)

lemma sort_by_unique:
  "sorted_wrt (\<lambda>x y. ord x y = Less) ys \<Longrightarrow> set ys = set xs \<Longrightarrow> distinct xs \<Longrightarrow> sort_by ord xs = ys"
  using sorted_unique sort_by_sorted set_sort_by by metis

lemma merge_by_sorted:
  "sorted_wrt (\<lambda>x y. ord x y = Less) xs \<Longrightarrow> sorted_wrt (\<lambda>x y. ord x y = Less) ys \<Longrightarrow>
    set xs \<inter> set ys = {} \<Longrightarrow> sorted_wrt (\<lambda>x y. ord x y = Less) (merge_by ord xs ys)"
proof (induction "length xs + length ys" arbitrary: xs ys rule: less_induct)
  case less
  show ?case
  proof (cases "xs = [] \<or> ys = []")
    case True
    then show ?thesis using less.prems by (cases xs; cases ys) auto
  next
    case False
    then obtain x xs' y ys' where xy: "xs = x # xs'" "ys = y # ys'"
      by (meson neq_Nil_conv)
    show ?thesis
    proof (cases "ord x y = Greater")
      case True
      then have "ord y x = Less" using ord_sym by blast
      then have "\<forall>z \<in> set xs. ord y z = Less" using less.prems(1) xy(1) lt_trans by auto
      moreover have "sorted_wrt (\<lambda>x y. ord x y = Less) (merge_by ord xs ys')"
        using less.prems xy by (intro less.hyps) auto
      ultimately show ?thesis using True less.prems(2) xy by (simp add: ball_Un)
    next
      case le: False
      then have "ord x y = Less"
        using less.prems xy ord_Equal by (metis Int_iff empty_iff list.set_intros(1) ordering.exhaust)
      then have "\<forall>z \<in> set ys. ord x z = Less" using less.prems(2) xy(2) lt_trans by auto
      moreover have "sorted_wrt (\<lambda>x y. ord x y = Less) (merge_by ord xs' ys)"
        using less.prems xy by (intro less.hyps) auto
      ultimately show ?thesis using le less.prems(1) xy by (simp add: ball_Un)
    qed
  qed
qed

lemma select_min_fold:
  assumes "0 < n"
  shows "fold (\<lambda>i s. if ord (hd (cs ! i)) (hd (cs ! s)) = Less then i else s) [1..<n] 0 < n \<and>
    (\<forall>j<n. ord (hd (cs ! j))
      (hd (cs ! fold (\<lambda>i s. if ord (hd (cs ! i)) (hd (cs ! s)) = Less then i else s) [1..<n] 0)) \<noteq> Less)"
  using assms
proof (induction n)
  case (Suc n)
  show ?case
  proof (cases "n = 0")
    case True
    then show ?thesis by (simp add: lt_irrefl)
  next
    case False
    define s where "s = fold (\<lambda>i s. if ord (hd (cs ! i)) (hd (cs ! s)) = Less then i else s) [1..<n] 0"
    have s: "s < n" "\<forall>j<n. ord (hd (cs ! j)) (hd (cs ! s)) \<noteq> Less"
      using Suc.IH False by (simp_all add: s_def)
    have "[1..<Suc n] = [1..<n] @ [n]" using False by simp
    then have eq: "fold (\<lambda>i s. if ord (hd (cs ! i)) (hd (cs ! s)) = Less then i else s) [1..<Suc n] 0 =
        (if ord (hd (cs ! n)) (hd (cs ! s)) = Less then n else s)"
      by (simp add: s_def)
    have "ord (hd (cs ! j)) (hd (cs ! n)) \<noteq> Less"
      if "j < n" "ord (hd (cs ! n)) (hd (cs ! s)) = Less" for j
      using that s lt_trans by blast
    then show ?thesis unfolding eq using s by (auto simp: less_Suc_eq lt_irrefl)
  qed
qed simp

lemma select_min_least:
  assumes "cs \<noteq> []"
  shows "select_min ord cs < length cs" "c \<in> set cs \<Longrightarrow> ord (hd c) (hd (cs ! select_min ord cs)) \<noteq> Less"
  using select_min_fold [of "length cs" cs] assms
  by (auto simp: select_min_def in_set_conv_nth)

definition runs_ok :: "'a list list \<Rightarrow> bool" where
  "runs_ok cs \<longleftrightarrow> (\<forall>c \<in> set cs. c \<noteq> [] \<and> sorted_wrt (\<lambda>x y. ord x y = Less) c) \<and> distinct (concat cs)"

lemma runs_head_least:
  assumes ok: "runs_ok cs" and x: "cs \<noteq> []" "cs ! select_min ord cs = x # rest"
    and y: "y \<in> set (concat cs)"
  shows "ord y x \<noteq> Less"
proof
  assume yx: "ord y x = Less"
  obtain c where c: "c \<in> set cs" "y \<in> set c" using y by auto
  then have "ord (hd c) x \<noteq> Less" using select_min_least(2) [of cs c] x by simp
  moreover have "sorted_wrt (\<lambda>x y. ord x y = Less) c" using c ok by (simp add: runs_ok_def)
  then have "hd c = y \<or> ord (hd c) y = Less" using c(2) by (cases c) auto
  ultimately show False using yx lt_trans by metis
qed

lemma kway_round:
  assumes ok: "runs_ok cs" and x: "cs \<noteq> []" "cs ! select_min ord cs = x # rest"
  defines "cs' \<equiv> if rest = [] then swap_remove cs (select_min ord cs) else cs[select_min ord cs := rest]"
  shows "runs_ok cs'" "mset (x # concat cs') = mset (concat cs)"
    "\<forall>y \<in> set (concat cs'). ord x y = Less"
proof -
  let ?s = "select_min ord cs"
  have s: "?s < length cs" using select_min_least(1) x(1) by blast
  show m: "mset (x # concat cs') = mset (concat cs)"
    using mset_concat_swap_remove [OF s] mset_concat_update [OF s x(2)] x(2)
    by (auto simp: cs'_def)
  then have d: "distinct (x # concat cs')"
    using ok mset_eq_imp_distinct_iff unfolding runs_ok_def by blast
  have "set (swap_remove cs ?s) \<subseteq> set cs"
    using mset_swap_remove [OF s] by (metis set_mset_add_mset_insert set_mset_mset subset_insertI)
  moreover have "set (cs[?s := rest]) \<subseteq> insert rest (set cs)"
    by (rule set_update_subset_insert)
  moreover have "sorted_wrt (\<lambda>x y. ord x y = Less) (x # rest)"
    using ok s x(2) nth_mem unfolding runs_ok_def by metis
  ultimately show "runs_ok cs'"
    using ok d unfolding runs_ok_def cs'_def by (auto split: if_splits)
  show "\<forall>y \<in> set (concat cs'). ord x y = Less"
  proof
    fix y assume y: "y \<in> set (concat cs')"
    then have "y \<in> set (concat cs)" using m by (metis list.set_intros(2) mset_eq_setD)
    then have "ord y x \<noteq> Less" using runs_head_least ok x by blast
    then show "ord x y = Less" using not_less_cases y d by auto
  qed
qed

lemma sort_by_Cons_least:
  assumes "distinct xs" "mset (x # ys) = mset xs" "\<forall>y \<in> set ys. ord x y = Less"
  shows "sort_by ord xs = x # sort_by ord ys"
proof (rule sort_by_unique)
  have "distinct ys" using assms(1,2) by (metis distinct.simps(2) mset_eq_imp_distinct_iff)
  then show "sorted_wrt (\<lambda>x y. ord x y = Less) (x # sort_by ord ys)"
    using assms(3) sort_by_sorted by simp
  show "set (x # sort_by ord ys) = set xs" using assms(2) by (metis list.simps(15) mset_eq_setD set_sort_by)
qed (rule assms(1))

lemma kway_sorted:
  "runs_ok cs \<Longrightarrow> length result \<le> max_entries \<Longrightarrow>
    kway ord max_entries cs result =
      (take (Suc max_entries) (result @ sort_by ord (concat cs)),
       max_entries < length result + length (concat cs))"
proof (induction "length (concat cs)" arbitrary: cs result)
  case 0
  then have "cs = []" by (cases cs) (auto simp: runs_ok_def)
  then show ?case using 0 by (simp add: kway.simps)
next
  case (Suc n)
  then have ne: "cs \<noteq> []" by auto
  let ?s = "select_min ord cs"
  have s: "?s < length cs" using select_min_least(1) ne by blast
  then have "cs ! ?s \<noteq> []" using Suc.prems by (auto simp: runs_ok_def)
  then obtain x rest where x: "cs ! ?s = x # rest" by (cases "cs ! ?s") auto
  define cs' where "cs' = (if rest = [] then swap_remove cs ?s else cs[?s := rest])"
  note round = kway_round [OF Suc.prems(1) ne x, folded cs'_def]
  have S: "sort_by ord (concat cs) = x # sort_by ord (concat cs')"
    using Suc.prems(1) round by (intro sort_by_Cons_least) (auto simp: runs_ok_def)
  have len: "length (concat cs) = Suc (length (concat cs'))"
    using round(2) by (metis length_Cons mset_eq_length)
  have unfold: "kway ord max_entries cs result =
      (if max_entries < length (result @ [x]) then (result @ [x], True)
       else kway ord max_entries cs' (result @ [x]))"
    using ne s x by (subst kway.simps) (simp add: Let_def cs'_def)
  show ?case
  proof (cases "max_entries < length (result @ [x])")
    case True
    then have "length result = max_entries" using Suc.prems by simp
    then show ?thesis unfolding unfold S len using True by simp
  next
    case False
    then have "kway ord max_entries cs' (result @ [x]) =
        (take (Suc max_entries) ((result @ [x]) @ sort_by ord (concat cs')),
         max_entries < length (result @ [x]) + length (concat cs'))"
      using Suc.hyps len round(1) by (intro Suc.hyps(1)) auto
    then show ?thesis unfolding unfold S len using False by simp
  qed
qed

end

section \<open>Slices of sorted runs\<close>

lemma takeWhile_downward:
  assumes "sorted_wrt R xs" "\<And>x y. R x y \<Longrightarrow> P y \<Longrightarrow> P x"
  shows "takeWhile P xs = filter P xs"
  using assms(1)
proof (induction xs)
  case (Cons x xs)
  then have "\<not> P x \<Longrightarrow> filter P xs = []" using assms(2) by (auto simp: filter_empty_conv)
  with Cons show ?case by auto
qed simp

text \<open>The slice between two partition points holds the elements at or above the lower bound and
  below the upper bound; an empty or inverted range selects nothing.\<close>

lemma partition_slice:
  assumes R: "sorted_wrt R xs"
    and L: "\<And>x y. R x y \<Longrightarrow> low y \<Longrightarrow> low x" and U: "\<And>x y. R x y \<Longrightarrow> up y \<Longrightarrow> up x"
  shows "take (partition_point up xs - partition_point low xs) (drop (partition_point low xs) xs) =
    filter (\<lambda>x. \<not> low x \<and> up x) xs"
  using R
proof (induction xs)
  case (Cons x xs)
  show ?case
  proof (cases "low x")
    case True
    show ?thesis
    proof (cases "up x")
      case True
      with \<open>low x\<close> Cons show ?thesis by (simp add: partition_point_def)
    next
      case False
      then have "\<forall>y\<in>set xs. \<not> up y" using Cons.prems U by auto
      with False show ?thesis by (auto simp: partition_point_def filter_empty_conv)
    qed
  next
    case False
    then have "\<forall>y\<in>set xs. \<not> low y" using Cons.prems L by auto
    then have "filter (\<lambda>x. \<not> low x \<and> up x) (x # xs) = filter up (x # xs)"
      using False by (auto intro: filter_cong)
    moreover have "takeWhile up (x # xs) = filter up (x # xs)"
      using takeWhile_downward [OF Cons.prems] U by blast
    moreover have "partition_point low (x # xs) = 0" using False by (simp add: partition_point_def)
    ultimately show ?thesis
      by (metis diff_zero drop0 partition_point_def takeWhile_eq_take)
  qed
qed (simp add: partition_point_def)

end
