(* ===== verification/Pending_Overlay.thy ===== *)
theory Pending_Overlay
  imports Index_Keys Ordered_Runs
begin

text \<open>
  The in-memory owner of facts that are not yet in committed pages
  (\<open>src/src/graph/pending_overlay.rs\<close>): fact records with precomputed encodings, duplicate
  detection through hash buckets, and four logarithmic collections of sorted runs that answer range
  queries by a k-way merge.  The lemmas show that the overlay invariant is kept by every insertion,
  that duplicate rejection keeps one record per identity whatever the hash function is, and that
  range queries return exactly the records between their bounds, in index order.
\<close>

section \<open>Records\<close>

type_synonym pending_fact_id = u32

datatype overlay_error = IdSpaceExhausted | IdOutOfBounds nat | NotAReference | HistoryWorkExceeded nat

definition id_from_index :: "nat \<Rightarrow> overlay_error + pending_fact_id" where
  "id_from_index i = (if i < 2 ^ 32 then Inr (of_nat i) else Inl IdSpaceExhausted)"

abbreviation id_index :: "pending_fact_id \<Rightarrow> nat" where
  "id_index i \<equiv> unat i"

record pending_fact_record =
  pr_entity :: uuid
  pr_attribute :: attribute
  pr_value :: "value"
  pr_value_bytes :: bytes
  pr_tx_id :: u64
  pr_tx_count :: u64
  pr_valid_from :: i64
  pr_valid_to :: i64
  pr_asserted :: bool

definition record_from_fact :: "fact \<Rightarrow> attribute \<Rightarrow> pending_fact_record" where
  "record_from_fact f a =
     \<lparr> pr_entity = entity f, pr_attribute = a, pr_value = val f, pr_value_bytes = encode_value (val f),
       pr_tx_id = tx_id f, pr_tx_count = tx_count f, pr_valid_from = valid_from f,
       pr_valid_to = valid_to f, pr_asserted = asserted f \<rparr>"

definition record_to_fact :: "pending_fact_record \<Rightarrow> fact" where
  "record_to_fact r =
     \<lparr> entity = pr_entity r, attr = pr_attribute r, val = pr_value r, tx_id = pr_tx_id r,
       tx_count = pr_tx_count r, valid_from = pr_valid_from r, valid_to = pr_valid_to r,
       asserted = pr_asserted r \<rparr>"

definition record_aevt_entry :: "pending_fact_record \<Rightarrow> current_aevt_entry" where
  "record_aevt_entry r =
     \<lparr> ca_entity = pr_entity r, ca_valid_from = pr_valid_from r, ca_valid_to = pr_valid_to r,
       ca_tx_count = pr_tx_count r, ca_value_bytes = pr_value_bytes r, ca_tx_id = pr_tx_id r,
       ca_asserted = pr_asserted r \<rparr>"

definition record_eavt_entry :: "pending_fact_record \<Rightarrow> current_eavt_entry" where
  "record_eavt_entry r =
     \<lparr> ce_entity = pr_entity r, ce_attribute = pr_attribute r, ce_valid_from = pr_valid_from r,
       ce_valid_to = pr_valid_to r, ce_tx_count = pr_tx_count r, ce_value_bytes = pr_value_bytes r,
       ce_tx_id = pr_tx_id r, ce_asserted = pr_asserted r \<rparr>"

definition record_vaet_entry :: "pending_fact_record \<Rightarrow> overlay_error + current_vaet_entry" where
  "record_vaet_entry r =
     (case pr_value r of
        Ref t \<Rightarrow> Inr
          \<lparr> cv_ref_target = t, cv_attribute = pr_attribute r, cv_valid_from = pr_valid_from r,
            cv_valid_to = pr_valid_to r, cv_source_entity = pr_entity r, cv_tx_count = pr_tx_count r,
            cv_tx_id = pr_tx_id r, cv_asserted = pr_asserted r \<rparr>
      | _ \<Rightarrow> Inl NotAReference)"

definition equals_fact :: "pending_fact_record \<Rightarrow> fact \<Rightarrow> bytes \<Rightarrow> bool" where
  "equals_fact r f encoded \<longleftrightarrow>
     pr_entity r = entity f \<and> pr_attribute r = attr f \<and> pr_value_bytes r = encoded \<and>
     pr_valid_from r = valid_from f \<and> pr_valid_to r = valid_to f \<and> pr_tx_count r = tx_count f \<and>
     pr_tx_id r = tx_id f \<and> pr_asserted r = asserted f"

section \<open>Index orders\<close>

datatype index_order = Eavt | Aevt | Avet | Vaet

definition ref_target_of :: "pending_fact_record \<Rightarrow> uuid" where
  "ref_target_of r = (case pr_value r of Ref t \<Rightarrow> t | _ \<Rightarrow> 0)"

fun compare_records :: "pending_fact_record \<Rightarrow> pending_fact_record \<Rightarrow> index_order \<Rightarrow> ordering" where
  "compare_records l r Eavt =
     then_with (cmp (pr_entity l) (pr_entity r))
     (then_with (cmp (pr_attribute l) (pr_attribute r))
     (then_with (cmp (pr_valid_from l) (pr_valid_from r))
     (then_with (cmp (pr_valid_to l) (pr_valid_to r))
     (then_with (cmp (pr_tx_count l) (pr_tx_count r))
     (then_with (cmp (pr_value_bytes l) (pr_value_bytes r))
     (then_with (cmp (pr_tx_id l) (pr_tx_id r))
       (cmp (pr_asserted l) (pr_asserted r))))))))"
| "compare_records l r Aevt =
     then_with (cmp (pr_attribute l) (pr_attribute r))
     (then_with (cmp (pr_entity l) (pr_entity r))
     (then_with (cmp (pr_valid_from l) (pr_valid_from r))
     (then_with (cmp (pr_valid_to l) (pr_valid_to r))
     (then_with (cmp (pr_tx_count l) (pr_tx_count r))
     (then_with (cmp (pr_value_bytes l) (pr_value_bytes r))
     (then_with (cmp (pr_tx_id l) (pr_tx_id r))
       (cmp (pr_asserted l) (pr_asserted r))))))))"
| "compare_records l r Avet =
     then_with (cmp (pr_attribute l) (pr_attribute r))
     (then_with (cmp (pr_value_bytes l) (pr_value_bytes r))
     (then_with (cmp (pr_valid_from l) (pr_valid_from r))
     (then_with (cmp (pr_valid_to l) (pr_valid_to r))
     (then_with (cmp (pr_entity l) (pr_entity r))
     (then_with (cmp (pr_tx_count l) (pr_tx_count r))
     (then_with (cmp (pr_tx_id l) (pr_tx_id r))
       (cmp (pr_asserted l) (pr_asserted r))))))))"
| "compare_records l r Vaet =
     then_with (cmp (ref_target_of l) (ref_target_of r))
     (then_with (cmp (pr_attribute l) (pr_attribute r))
     (then_with (cmp (pr_valid_from l) (pr_valid_from r))
     (then_with (cmp (pr_valid_to l) (pr_valid_to r))
     (then_with (cmp (pr_entity l) (pr_entity r))
     (then_with (cmp (pr_tx_count l) (pr_tx_count r))
     (then_with (cmp (pr_tx_id l) (pr_tx_id r))
       (cmp (pr_asserted l) (pr_asserted r))))))))"

definition compare_ids ::
    "pending_fact_record list \<Rightarrow> index_order \<Rightarrow> pending_fact_id \<Rightarrow> pending_fact_id \<Rightarrow> ordering" where
  "compare_ids records order l r =
     then_with (compare_records (records ! id_index l) (records ! id_index r) order) (cmp l r)"

definition compare_eavt_bound :: "pending_fact_record \<Rightarrow> eavt_key \<Rightarrow> ordering" where
  "compare_eavt_bound r k =
     then_with (cmp (pr_entity r) (ek_entity k))
     (then_with (cmp (pr_attribute r) (ek_attribute k))
     (then_with (cmp (pr_valid_from r) (ek_valid_from k))
     (then_with (cmp (pr_valid_to r) (ek_valid_to k))
     (then_with (cmp (pr_tx_count r) (ek_tx_count k))
     (then_with (cmp (pr_value_bytes r) (ek_value_bytes k))
     (then_with (cmp (pr_tx_id r) (ek_tx_id k))
       (cmp (pr_asserted r) (ek_asserted k))))))))"

definition compare_aevt_bound :: "pending_fact_record \<Rightarrow> aevt_key \<Rightarrow> ordering" where
  "compare_aevt_bound r k =
     then_with (cmp (pr_attribute r) (ak_attribute k))
     (then_with (cmp (pr_entity r) (ak_entity k))
     (then_with (cmp (pr_valid_from r) (ak_valid_from k))
     (then_with (cmp (pr_valid_to r) (ak_valid_to k))
     (then_with (cmp (pr_tx_count r) (ak_tx_count k))
     (then_with (cmp (pr_value_bytes r) (ak_value_bytes k))
     (then_with (cmp (pr_tx_id r) (ak_tx_id k))
       (cmp (pr_asserted r) (ak_asserted k))))))))"

definition compare_vaet_bound :: "pending_fact_record \<Rightarrow> vaet_key \<Rightarrow> ordering" where
  "compare_vaet_bound r k =
     then_with (cmp (ref_target_of r) (rk_ref_target k))
     (then_with (cmp (pr_attribute r) (rk_attribute k))
     (then_with (cmp (pr_valid_from r) (rk_valid_from k))
     (then_with (cmp (pr_valid_to r) (rk_valid_to k))
     (then_with (cmp (pr_entity r) (rk_source_entity k))
     (then_with (cmp (pr_tx_count r) (rk_tx_count k))
     (then_with (cmp (pr_tx_id r) (rk_tx_id k))
       (cmp (pr_asserted r) (rk_asserted k))))))))"

section \<open>Sorted runs\<close>

record sorted_runs =
  sr_levels :: "pending_fact_id list option list"
  sr_len :: nat
  sr_merge_count :: nat

definition runs_empty :: sorted_runs where
  "runs_empty = \<lparr> sr_levels = [], sr_len = 0, sr_merge_count = 0 \<rparr>"

definition merge_runs ::
    "pending_fact_record list \<Rightarrow> index_order \<Rightarrow> pending_fact_id list \<Rightarrow> pending_fact_id list \<Rightarrow>
     pending_fact_id list" where
  "merge_runs records order l r = merge_by (compare_ids records order) l r"

text \<open>\<open>n.next_power_of_two().trailing_zeros()\<close>.\<close>

function run_level :: "nat \<Rightarrow> nat" where
  "run_level n = (if n \<le> 1 then 0 else Suc (run_level ((n + 1) div 2)))"
  by pat_completeness auto

termination by (relation "measure id") auto

declare run_level.simps [simp del]

definition resize_levels :: "'a option list \<Rightarrow> nat \<Rightarrow> 'a option list" where
  "resize_levels levels n =
     (if length levels < n then levels @ replicate (n - length levels) None else levels)"

function place_run ::
    "pending_fact_record list \<Rightarrow> index_order \<Rightarrow> pending_fact_id list option list \<Rightarrow> nat \<Rightarrow>
     pending_fact_id list \<Rightarrow> nat \<Rightarrow> pending_fact_id list option list \<times> nat" where
  "place_run records order levels level run merges =
     (let levels = resize_levels levels (level + 1) in
      case levels ! level of
        None \<Rightarrow> (levels[level := Some run], merges)
      | Some existing \<Rightarrow>
          place_run records order (levels[level := None]) (sat_add level 1)
            (merge_runs records order existing run) (sat_add merges 1))"
  by pat_completeness auto

definition occupied :: "'a option list \<Rightarrow> nat" where
  "occupied levels = length (filter (\<lambda>l. l \<noteq> None) levels)"

lemma occupied_resize [simp]: "occupied (resize_levels levels n) = occupied levels"
  by (simp add: occupied_def resize_levels_def)

lemma length_resize [simp]: "length (resize_levels levels n) = max (length levels) n"
  by (simp add: resize_levels_def)

lemma occupied_take:
  "level < length levels \<Longrightarrow> levels ! level \<noteq> None \<Longrightarrow> occupied (levels[level := None]) < occupied levels"
proof (induction levels arbitrary: level)
  case (Cons l ls)
  then show ?case by (cases level) (auto simp: occupied_def)
qed simp

termination place_run
proof (relation "measure (\<lambda>(records, order, levels, level, run, merges). occupied levels)", goal_cases)
  case (2 records order levels level run merges levels' existing)
  then have "occupied (levels'[level := None]) < occupied levels'"
    by (intro occupied_take) auto
  with 2 show ?case by simp
qed simp

declare place_run.simps [simp del]

definition runs_insert ::
    "sorted_runs \<Rightarrow> pending_fact_id list \<Rightarrow> pending_fact_record list \<Rightarrow> index_order \<Rightarrow> sorted_runs" where
  "runs_insert sr run records order =
     (if run = [] then sr
      else
        let run = sort_by (compare_ids records order) run;
            (levels, merges) = place_run records order (sr_levels sr) (run_level (length run)) run
                                 (sr_merge_count sr)
        in \<lparr> sr_levels = levels, sr_len = sat_add (sr_len sr) (length run), sr_merge_count = merges \<rparr>)"

text \<open>\<open>levels.iter().filter_map(Option::as_deref)\<close>.\<close>

definition live_runs :: "'a list option list \<Rightarrow> 'a list list" where
  "live_runs levels = List.map_filter (\<lambda>l. l) levels"

definition run_slice ::
    "pending_fact_record list \<Rightarrow> (pending_fact_record \<Rightarrow> ordering) \<Rightarrow> (pending_fact_record \<Rightarrow> ordering) \<Rightarrow>
     pending_fact_id list \<Rightarrow> pending_fact_id list option" where
  "run_slice records lower upper run =
     (let start = partition_point (\<lambda>i. lower (records ! id_index i) = Less) run;
          stop = partition_point (\<lambda>i. upper (records ! id_index i) = Less) run
      in if start < stop then Some (take (stop - start) (drop start run)) else None)"

definition runs_range ::
    "sorted_runs \<Rightarrow> pending_fact_record list \<Rightarrow> index_order \<Rightarrow> (pending_fact_record \<Rightarrow> ordering) \<Rightarrow>
     (pending_fact_record \<Rightarrow> ordering) \<Rightarrow> nat \<Rightarrow> pending_fact_id list \<times> bool" where
  "runs_range sr records order lower upper max_entries =
     kway (compare_ids records order) max_entries
       (List.map_filter (run_slice records lower upper) (live_runs (sr_levels sr))) []"

section \<open>The overlay\<close>

datatype duplicate_bucket = Empty | One pending_fact_id | Many "pending_fact_id list"

record pending_overlay =
  ov_records :: "pending_fact_record list"
  ov_attributes :: "attribute list"
  ov_duplicates :: "(u64, duplicate_bucket) hash_map"
  ov_eavt :: sorted_runs
  ov_aevt :: sorted_runs
  ov_avet :: sorted_runs
  ov_vaet :: sorted_runs

definition overlay_new :: pending_overlay where
  "overlay_new = \<lparr> ov_records = [], ov_attributes = [], ov_duplicates = [], ov_eavt = runs_empty,
     ov_aevt = runs_empty, ov_avet = runs_empty, ov_vaet = runs_empty \<rparr>"

definition overlay_clear :: "pending_overlay \<Rightarrow> pending_overlay" where
  "overlay_clear ov = overlay_new"

text \<open>The tuple that \<open>identity_hash\<close> feeds to the hasher; the hash function over it is the
  parameter \<open>h\<close> of the operations below.\<close>

type_synonym fact_identity = "uuid \<times> attribute \<times> bytes \<times> i64 \<times> i64 \<times> u64 \<times> u64 \<times> bool"

definition fact_identity :: "fact \<Rightarrow> fact_identity" where
  "fact_identity f = (entity f, attr f, encode_value (val f), valid_from f, valid_to f, tx_count f,
     tx_id f, asserted f)"

definition find_duplicate :: "(fact_identity \<Rightarrow> u64) \<Rightarrow> pending_overlay \<Rightarrow> fact \<Rightarrow> pending_fact_id option" where
  "find_duplicate h ov f =
     (let encoded = encode_value (val f) in
      case hm_get (ov_duplicates ov) (h (fact_identity f)) of
        None \<Rightarrow> None
      | Some Empty \<Rightarrow> None
      | Some (One i) \<Rightarrow> if equals_fact (ov_records ov ! id_index i) f encoded then Some i else None
      | Some (Many ids) \<Rightarrow> List.find (\<lambda>i. equals_fact (ov_records ov ! id_index i) f encoded) ids)"

fun bucket_add :: "duplicate_bucket \<Rightarrow> pending_fact_id \<Rightarrow> duplicate_bucket" where
  "bucket_add Empty i = One i"
| "bucket_add (One j) i = Many [j, i]"
| "bucket_add (Many js) i = Many (js @ [i])"

definition add_duplicate :: "pending_overlay \<Rightarrow> u64 \<Rightarrow> pending_fact_id \<Rightarrow> pending_overlay" where
  "add_duplicate ov hash i =
     ov\<lparr> ov_duplicates := hm_modify_or_insert hash (\<lambda>b. bucket_add b i) (One i) (ov_duplicates ov) \<rparr>"

definition overlay_push ::
    "(fact_identity \<Rightarrow> u64) \<Rightarrow> pending_overlay \<Rightarrow> fact \<Rightarrow> overlay_error + (pending_overlay \<times> pending_fact_id)" where
  "overlay_push h ov f =
     (let attributes = List.insert (attr f) (ov_attributes ov) in
      case id_from_index (length (ov_records ov)) of
        Inl e \<Rightarrow> Inl e
      | Inr i \<Rightarrow>
          Inr (add_duplicate
                 (ov\<lparr> ov_attributes := attributes,
                      ov_records := ov_records ov @ [record_from_fact f (attr f)] \<rparr>)
                 (h (fact_identity f)) i, i))"

fun insert_records ::
    "(fact_identity \<Rightarrow> u64) \<Rightarrow> bool \<Rightarrow> fact list \<Rightarrow> pending_overlay \<Rightarrow> pending_fact_id list \<Rightarrow>
     pending_overlay \<times> (overlay_error + pending_fact_id list)" where
  "insert_records h reject [] ov inserted = (ov, Inr inserted)"
| "insert_records h reject (f # fs) ov inserted =
     (if find_duplicate h ov f \<noteq> None \<and> reject then insert_records h reject fs ov inserted
      else case overlay_push h ov f of
        Inl e \<Rightarrow> (ov\<lparr> ov_attributes := List.insert (attr f) (ov_attributes ov) \<rparr>, Inl e)
      | Inr (ov', i) \<Rightarrow> insert_records h reject fs ov' (inserted @ [i]))"

definition is_ref :: "value \<Rightarrow> bool" where
  "is_ref v = (case v of Ref _ \<Rightarrow> True | _ \<Rightarrow> False)"

definition insert_batch ::
    "(fact_identity \<Rightarrow> u64) \<Rightarrow> pending_overlay \<Rightarrow> fact list \<Rightarrow> bool \<Rightarrow>
     pending_overlay \<times> (overlay_error + nat)" where
  "insert_batch h ov facts reject =
     (case insert_records h reject facts ov [] of
        (ov', Inl e) \<Rightarrow> (ov', Inl e)
      | (ov', Inr inserted) \<Rightarrow>
          if inserted = [] then (ov', Inr 0)
          else
            let records = ov_records ov';
                refs = filter (\<lambda>i. is_ref (pr_value (records ! id_index i))) inserted
            in (ov'\<lparr> ov_eavt := runs_insert (ov_eavt ov') inserted records Eavt,
                     ov_aevt := runs_insert (ov_aevt ov') inserted records Aevt,
                     ov_avet := runs_insert (ov_avet ov') inserted records Avet,
                     ov_vaet := runs_insert (ov_vaet ov') refs records Vaet \<rparr>,
                Inr (length inserted)))"

definition overlay_get :: "pending_overlay \<Rightarrow> pending_fact_id \<Rightarrow> overlay_error + pending_fact_record" where
  "overlay_get ov i =
     (case list_get (ov_records ov) (id_index i) of
        Some r \<Rightarrow> Inr r
      | None \<Rightarrow> Inl (IdOutOfBounds (id_index i)))"

definition overlay_facts :: "pending_overlay \<Rightarrow> fact list" where
  "overlay_facts ov = map record_to_fact (ov_records ov)"

definition range_eavt_page ::
    "pending_overlay \<Rightarrow> eavt_key \<Rightarrow> eavt_key \<Rightarrow> nat \<Rightarrow> pending_fact_id list \<times> bool" where
  "range_eavt_page ov start stop max_entries =
     runs_range (ov_eavt ov) (ov_records ov) Eavt (\<lambda>r. compare_eavt_bound r start)
       (\<lambda>r. compare_eavt_bound r stop) max_entries"

definition range_eavt :: "pending_overlay \<Rightarrow> eavt_key \<Rightarrow> eavt_key \<Rightarrow> pending_fact_id list" where
  "range_eavt ov start stop =
     fst (runs_range (ov_eavt ov) (ov_records ov) Eavt (\<lambda>r. compare_eavt_bound r start)
       (\<lambda>r. compare_eavt_bound r stop) usize_MAX)"

definition range_eavt_bounded ::
    "pending_overlay \<Rightarrow> eavt_key \<Rightarrow> eavt_key \<Rightarrow> nat \<Rightarrow> overlay_error + pending_fact_id list" where
  "range_eavt_bounded ov start stop max_entries =
     (case runs_range (ov_eavt ov) (ov_records ov) Eavt (\<lambda>r. compare_eavt_bound r start)
         (\<lambda>r. compare_eavt_bound r stop) max_entries of
        (entries, overflowed) \<Rightarrow>
          if overflowed then Inl (HistoryWorkExceeded max_entries) else Inr entries)"

definition range_aevt :: "pending_overlay \<Rightarrow> aevt_key \<Rightarrow> aevt_key option \<Rightarrow> pending_fact_id list" where
  "range_aevt ov start stop =
     fst (runs_range (ov_aevt ov) (ov_records ov) Aevt (\<lambda>r. compare_aevt_bound r start)
       (\<lambda>r. case stop of None \<Rightarrow> Less | Some k \<Rightarrow> compare_aevt_bound r k) usize_MAX)"

definition range_vaet_bounded ::
    "pending_overlay \<Rightarrow> vaet_key \<Rightarrow> vaet_key \<Rightarrow> nat \<Rightarrow> overlay_error + pending_fact_id list" where
  "range_vaet_bounded ov start stop max_entries =
     (case runs_range (ov_vaet ov) (ov_records ov) Vaet (\<lambda>r. compare_vaet_bound r start)
         (\<lambda>r. compare_vaet_bound r stop) max_entries of
        (entries, overflowed) \<Rightarrow>
          if overflowed then Inl (HistoryWorkExceeded max_entries) else Inr entries)"

definition compare_aevt_projection ::
    "pending_overlay \<Rightarrow> pending_fact_id \<Rightarrow> current_aevt_entry \<Rightarrow> overlay_error + ordering" where
  "compare_aevt_projection ov i key =
     (case overlay_get ov i of
        Inl e \<Rightarrow> Inl e
      | Inr rec \<Rightarrow> let r = record_aevt_entry rec in
          Inr (cmp (ca_entity r, ca_valid_from r, ca_valid_to r, ca_tx_count r, ca_value_bytes r,
                    ca_tx_id r, ca_asserted r)
                   (ca_entity key, ca_valid_from key, ca_valid_to key, ca_tx_count key,
                    ca_value_bytes key, ca_tx_id key, ca_asserted key)))"

definition compare_eavt_projection ::
    "pending_overlay \<Rightarrow> pending_fact_id \<Rightarrow> current_eavt_entry \<Rightarrow> overlay_error + ordering" where
  "compare_eavt_projection ov i key =
     (case overlay_get ov i of
        Inl e \<Rightarrow> Inl e
      | Inr rec \<Rightarrow> let r = record_eavt_entry rec in
          Inr (cmp (ce_entity r, ce_attribute r, ce_valid_from r, ce_valid_to r, ce_tx_count r,
                    ce_value_bytes r, ce_tx_id r, ce_asserted r)
                   (ce_entity key, ce_attribute key, ce_valid_from key, ce_valid_to key,
                    ce_tx_count key, ce_value_bytes key, ce_tx_id key, ce_asserted key)))"

definition compare_vaet_projection ::
    "pending_overlay \<Rightarrow> pending_fact_id \<Rightarrow> current_vaet_entry \<Rightarrow> overlay_error + ordering" where
  "compare_vaet_projection ov i key =
     (case overlay_get ov i of
        Inl e \<Rightarrow> Inl e
      | Inr rec \<Rightarrow> (case record_vaet_entry rec of
          Inl e \<Rightarrow> Inl e
        | Inr r \<Rightarrow>
            Inr (cmp (cv_ref_target r, cv_attribute r, cv_valid_from r, cv_valid_to r,
                      cv_source_entity r, cv_tx_count r, cv_tx_id r, cv_asserted r)
                     (cv_ref_target key, cv_attribute key, cv_valid_from key, cv_valid_to key,
                      cv_source_entity key, cv_tx_count key, cv_tx_id key, cv_asserted key))))"

definition index_counts :: "pending_overlay \<Rightarrow> nat \<times> nat \<times> nat \<times> nat" where
  "index_counts ov = (sr_len (ov_eavt ov), sr_len (ov_aevt ov), sr_len (ov_avet ov), sr_len (ov_vaet ov))"

section \<open>The comparisons are key orders\<close>

definition record_eavt_key :: "pending_fact_record \<Rightarrow> eavt_key" where
  "record_eavt_key r = EavtKey (pr_entity r) (pr_attribute r) (pr_valid_from r) (pr_valid_to r)
     (pr_tx_count r) (pr_value_bytes r) (pr_tx_id r) (pr_asserted r)"

definition record_aevt_key :: "pending_fact_record \<Rightarrow> aevt_key" where
  "record_aevt_key r = AevtKey (pr_attribute r) (pr_entity r) (pr_valid_from r) (pr_valid_to r)
     (pr_tx_count r) (pr_value_bytes r) (pr_tx_id r) (pr_asserted r)"

definition record_avet_key :: "pending_fact_record \<Rightarrow> avet_key" where
  "record_avet_key r = AvetKey (pr_attribute r) (pr_value_bytes r) (pr_valid_from r) (pr_valid_to r)
     (pr_entity r) (pr_tx_count r) (pr_tx_id r) (pr_asserted r)"

definition record_vaet_key :: "pending_fact_record \<Rightarrow> vaet_key" where
  "record_vaet_key r = VaetKey (ref_target_of r) (pr_attribute r) (pr_valid_from r) (pr_valid_to r)
     (pr_entity r) (pr_tx_count r) (pr_tx_id r) (pr_asserted r)"

lemma avet_cmp_tuple: "cmp x y = cmp (avet_tuple x) (avet_tuple y)"
  by (simp add: cmp_def key_order)

lemma compare_records_cmp:
  "compare_records l r Eavt = cmp (record_eavt_key l) (record_eavt_key r)"
  "compare_records l r Aevt = cmp (record_aevt_key l) (record_aevt_key r)"
  "compare_records l r Avet = cmp (record_avet_key l) (record_avet_key r)"
  "compare_records l r Vaet = cmp (record_vaet_key l) (record_vaet_key r)"
  by (simp_all add: then_with_cmp_pair key_cmp_tuple avet_cmp_tuple record_eavt_key_def
      record_aevt_key_def record_avet_key_def record_vaet_key_def)

declare compare_records.simps [simp del]

lemma compare_bounds_cmp:
  "compare_eavt_bound r ke = cmp (record_eavt_key r) ke"
  "compare_aevt_bound r ka = cmp (record_aevt_key r) ka"
  "compare_vaet_bound r kv = cmp (record_vaet_key r) kv"
  by (cases ke; cases ka; cases kv;
      simp add: compare_eavt_bound_def compare_aevt_bound_def compare_vaet_bound_def
        then_with_cmp_pair key_cmp_tuple record_eavt_key_def record_aevt_key_def record_vaet_key_def)+

lemma strict_cmp_pair:
  "strict_cmp (\<lambda>l r :: 'a :: linorder. then_with (cmp (k l :: 'b :: linorder) (k r)) (cmp l r))"
  by unfold_locales (auto simp: cmp_def split: if_splits)

lemma strict_cmp_compare_ids: "strict_cmp (compare_ids records order)"
  unfolding compare_ids_def [abs_def]
  by (cases order) (simp_all only: compare_records_cmp strict_cmp_pair)

interpretation pending_ids: strict_cmp "compare_ids records order" for records order
  by (rule strict_cmp_compare_ids)

lemma compare_ids_Less_records: "compare_ids records order l r = Less \<Longrightarrow>
    compare_records (records ! id_index l) (records ! id_index r) order \<noteq> Greater"
  by (auto simp: compare_ids_def)

lemma compare_ids_append:
  "id_index l < length records \<Longrightarrow> id_index r < length records \<Longrightarrow>
    compare_ids (records @ extra) order l r = compare_ids records order l r"
  by (simp add: compare_ids_def nth_append)

section \<open>Placing a run\<close>

abbreviation run_ids :: "'a list option list \<Rightarrow> 'a list" where
  "run_ids levels \<equiv> concat (live_runs levels)"

lemma run_ids_mset: "mset (run_ids levels) = (\<Sum>l\<in>#mset levels. case l of None \<Rightarrow> {#} | Some r \<Rightarrow> mset r)"
  by (induction levels) (auto simp: live_runs_def map_filter_simps split: option.splits)

lemma set_live_runs: "set (live_runs levels) = {r. Some r \<in> set levels}"
  by (induction levels) (auto simp: live_runs_def map_filter_simps split: option.splits)

lemma run_ids_resize [simp]: "mset (run_ids (resize_levels levels n)) = mset (run_ids levels)"
  by (simp add: run_ids_mset resize_levels_def)

lemma run_ids_put:
  "i < length levels \<Longrightarrow> levels ! i = None \<Longrightarrow>
    mset (run_ids (levels[i := Some r])) = mset r + mset (run_ids levels)"
proof -
  assume i: "i < length levels" "levels ! i = None"
  then obtain M where M: "mset levels = add_mset None M" by (metis insert_DiffM nth_mem_mset)
  then have "mset (levels[i := Some r]) = add_mset (Some r) M" using i by (simp add: mset_update)
  with M show ?thesis by (simp add: run_ids_mset)
qed

lemma run_ids_take:
  "i < length levels \<Longrightarrow> levels ! i = Some r \<Longrightarrow>
    mset r + mset (run_ids (levels[i := None])) = mset (run_ids levels)"
proof -
  assume i: "i < length levels" "levels ! i = Some r"
  then obtain M where M: "mset levels = add_mset (Some r) M" by (metis insert_DiffM nth_mem_mset)
  then have "mset (levels[i := None]) = add_mset None M" using i by (simp add: mset_update)
  with M show ?thesis by (simp add: run_ids_mset)
qed

definition levels_ok :: "pending_fact_record list \<Rightarrow> index_order \<Rightarrow> pending_fact_id list option list \<Rightarrow> bool" where
  "levels_ok records order levels \<longleftrightarrow>
     (\<forall>r. Some r \<in> set levels \<longrightarrow> r \<noteq> [] \<and> sorted_wrt (\<lambda>x y. compare_ids records order x y = Less) r)"

lemma levels_ok_resize [simp]: "levels_ok records order (resize_levels levels n) = levels_ok records order levels"
  by (auto simp: levels_ok_def resize_levels_def)

lemma levels_ok_update:
  "levels_ok records order levels \<Longrightarrow>
   (\<And>r. new = Some r \<Longrightarrow> r \<noteq> [] \<and> sorted_wrt (\<lambda>x y. compare_ids records order x y = Less) r) \<Longrightarrow>
   levels_ok records order (levels[i := new])"
proof -
  assume ok: "levels_ok records order levels"
    and new: "\<And>r. new = Some r \<Longrightarrow> r \<noteq> [] \<and> sorted_wrt (\<lambda>x y. compare_ids records order x y = Less) r"
  have "Some r \<in> set levels \<or> new = Some r" if "Some r \<in> set (levels[i := new])" for r
    using that set_update_subset_insert [of levels i new] by auto
  then show ?thesis using ok new unfolding levels_ok_def by blast
qed

lemma place_run_correct:
  assumes "levels_ok records order levels" "distinct (run @ run_ids levels)"
    "run \<noteq> []" "sorted_wrt (\<lambda>x y. compare_ids records order x y = Less) run"
  shows "levels_ok records order (fst (place_run records order levels level run merges)) \<and>
    mset (run_ids (fst (place_run records order levels level run merges))) = mset run + mset (run_ids levels)"
  using assms
proof (induction records order levels level run merges rule: place_run.induct)
  case (1 records order levels level run merges)
  let ?ls = "resize_levels levels (level + 1)"
  have lvl: "level < length ?ls" by simp
  have ok: "levels_ok records order ?ls" using "1.prems"(1) by simp
  show ?case
  proof (cases "?ls ! level")
    case None
    then have "place_run records order levels level run merges = (?ls[level := Some run], merges)"
      by (simp add: place_run.simps Let_def)
    then show ?thesis
      using levels_ok_update [OF ok, of "Some run" level] run_ids_put [OF lvl None, of run]
        "1.prems"(3,4) run_ids_resize [of levels "level + 1"] by auto
  next
    case (Some existing)
    let ?ls' = "?ls[level := None]"
    let ?run = "merge_runs records order existing run"
    have m: "mset existing + mset (run_ids ?ls') = mset (run_ids levels)"
      using run_ids_take [OF lvl Some] by simp
    have run: "mset ?run = mset existing + mset run" by (simp add: merge_runs_def)
    have "mset (run @ existing @ run_ids ?ls') = mset (run @ run_ids levels)"
      by (simp only: mset_append m)
    then have dd: "distinct (run @ existing @ run_ids ?ls')"
      using "1.prems"(2) mset_eq_imp_distinct_iff by blast
    have "mset (?run @ run_ids ?ls') = mset (run @ existing @ run_ids ?ls')"
      by (simp only: mset_append run ac_simps)
    then have d2: "distinct (?run @ run_ids ?ls')"
      using dd mset_eq_imp_distinct_iff by blast
    have d1: "set existing \<inter> set run = {}" using dd by auto
    have ex: "existing \<noteq> []" "sorted_wrt (\<lambda>x y. compare_ids records order x y = Less) existing"
      using ok lvl Some unfolding levels_ok_def by (metis nth_mem)+
    have "levels_ok records order (fst (place_run records order ?ls' (sat_add level 1) ?run (sat_add merges 1))) \<and>
        mset (run_ids (fst (place_run records order ?ls' (sat_add level 1) ?run (sat_add merges 1)))) =
          mset ?run + mset (run_ids ?ls')"
    proof (rule "1.IH" [OF refl Some])
      show "levels_ok records order ?ls'" using levels_ok_update [OF ok, of None] by simp
      show "distinct (?run @ run_ids ?ls')" by (rule d2)
      show "?run \<noteq> []" using ex(1) by (metis merge_runs_def length_0_conv length_merge_by add_is_0)
      show "sorted_wrt (\<lambda>x y. compare_ids records order x y = Less) ?run"
        unfolding merge_runs_def using ex(2) "1.prems"(4) d1 by (rule pending_ids.merge_by_sorted)
    qed
    moreover have "place_run records order levels level run merges =
        place_run records order ?ls' (sat_add level 1) ?run (sat_add merges 1)"
      using Some by (subst place_run.simps) (simp add: Let_def)
    moreover have "mset ?run + mset (run_ids ?ls') = mset run + mset (run_ids levels)"
      by (simp only: run m [symmetric] ac_simps)
    ultimately show ?thesis by simp
  qed
qed

section \<open>Runs hold the inserted identifiers\<close>

definition runs_inv ::
    "pending_fact_record list \<Rightarrow> index_order \<Rightarrow> sorted_runs \<Rightarrow> pending_fact_id list \<Rightarrow> bool" where
  "runs_inv records order sr ids \<longleftrightarrow>
     levels_ok records order (sr_levels sr) \<and> mset (run_ids (sr_levels sr)) = mset ids"

lemma runs_inv_empty: "runs_inv records order runs_empty []"
  by (simp add: runs_inv_def levels_ok_def runs_empty_def live_runs_def map_filter_simps)

lemma runs_inv_append_records:
  assumes "runs_inv records order sr ids" "\<forall>i\<in>set ids. id_index i < length records"
  shows "runs_inv (records @ extra) order sr ids"
proof -
  have "set (run_ids (sr_levels sr)) = set ids"
    using assms(1) unfolding runs_inv_def by (metis mset_eq_setD)
  then have "\<forall>i\<in>set r. id_index i < length records" if "Some r \<in> set (sr_levels sr)" for r
    using that assms(2) by (auto simp: set_live_runs)
  then show ?thesis
    using assms(1) unfolding runs_inv_def levels_ok_def
    by (auto intro: sorted_wrt_mono_rel [rotated] simp: compare_ids_append)
qed

lemma runs_insert_inv:
  assumes "runs_inv records order sr ids" "distinct (ids @ run)"
  shows "runs_inv records order (runs_insert sr run records order) (ids @ run)"
proof (cases "run = []")
  case True
  then show ?thesis using assms by (simp add: runs_insert_def)
next
  case False
  let ?run = "sort_by (compare_ids records order) run"
  have set_run: "set ?run = set run" "length ?run = length run" by simp_all
  have d: "distinct run" "distinct ids" "set ids \<inter> set run = {}" using assms(2) by auto
  then have run: "mset ?run = mset run"
    by (metis card_distinct distinct_card set_eq_iff_mset_eq_distinct set_run)
  have ids: "mset (run_ids (sr_levels sr)) = mset ids" using assms(1) by (simp add: runs_inv_def)
  have "mset (?run @ run_ids (sr_levels sr)) = mset (ids @ run)"
    by (simp only: mset_append run ids ac_simps)
  then have dr: "distinct (?run @ run_ids (sr_levels sr))"
    using assms(2) mset_eq_imp_distinct_iff by blast
  have ne: "?run \<noteq> []" using False set_run(2) by (metis length_0_conv)
  have srt: "sorted_wrt (\<lambda>x y. compare_ids records order x y = Less) ?run"
    using d(1) by (rule pending_ids.sort_by_sorted)
  have ok: "levels_ok records order (sr_levels sr)" using assms(1) by (simp add: runs_inv_def)
  have "levels_ok records order (fst (place_run records order (sr_levels sr) l ?run m)) \<and>
      mset (run_ids (fst (place_run records order (sr_levels sr) l ?run m))) = mset ?run + mset ids" for l m
    using place_run_correct [OF ok dr ne srt, of l m] unfolding ids .
  then show ?thesis
    using False run
    by (auto simp: runs_insert_def runs_inv_def Let_def case_prod_unfold simp del: length_sort_by)
qed

section \<open>Range queries\<close>

definition in_range ::
    "(pending_fact_record \<Rightarrow> ordering) \<Rightarrow> (pending_fact_record \<Rightarrow> ordering) \<Rightarrow> pending_fact_record \<Rightarrow> bool" where
  "in_range lower upper r \<longleftrightarrow> lower r \<noteq> Less \<and> upper r = Less"

text \<open>A bound is monotone when a record that does not come after another is below it whenever the
  other is.\<close>

definition bound_mono :: "index_order \<Rightarrow> (pending_fact_record \<Rightarrow> ordering) \<Rightarrow> bool" where
  "bound_mono order b \<longleftrightarrow>
     (\<forall>l r. compare_records l r order \<noteq> Greater \<longrightarrow> b r = Less \<longrightarrow> b l = Less)"

lemma bound_mono_cmp:
  "bound_mono Eavt (\<lambda>r. compare_eavt_bound r ke)"
  "bound_mono Aevt (\<lambda>r. compare_aevt_bound r ka)"
  "bound_mono Vaet (\<lambda>r. compare_vaet_bound r kv)"
  "bound_mono order (\<lambda>r. Less)"
  by (auto simp: bound_mono_def compare_bounds_cmp compare_records_cmp not_less)

lemma run_slice_filter:
  assumes "sorted_wrt (\<lambda>x y. compare_ids records order x y = Less) run"
    and "bound_mono order lower" "bound_mono order upper"
  shows "run_slice records lower upper run =
    (let s = filter (\<lambda>i. in_range lower upper (records ! id_index i)) run in if s = [] then None else Some s)"
proof -
  let ?low = "\<lambda>i. lower (records ! id_index i) = Less"
  let ?up = "\<lambda>i. upper (records ! id_index i) = Less"
  have mono: "compare_ids records order x y = Less \<Longrightarrow> b (records ! id_index y) = Less \<Longrightarrow>
      b (records ! id_index x) = Less" if "bound_mono order b" for b x y
    using that compare_ids_Less_records unfolding bound_mono_def by blast
  have slice: "take (partition_point ?up run - partition_point ?low run)
        (drop (partition_point ?low run) run) = filter (\<lambda>i. \<not> ?low i \<and> ?up i) run"
    by (rule partition_slice [OF assms(1)]) (use mono assms(2,3) in blast)+
  have "partition_point ?up run \<le> length run"
    by (simp add: partition_point_def length_takeWhile_le)
  then have "partition_point ?low run < partition_point ?up run \<longleftrightarrow>
      filter (\<lambda>i. \<not> ?low i \<and> ?up i) run \<noteq> []"
    unfolding slice [symmetric] by auto
  then show ?thesis
    unfolding run_slice_def Let_def in_range_def using slice by auto
qed

lemma map_filter_nonempty:
  "\<forall>r \<in> set rs. g r = (let s = f r in if s = [] then None else Some s) \<Longrightarrow>
    List.map_filter g rs = filter (\<lambda>s. s \<noteq> []) (map f rs)"
  by (induction rs) (auto simp: map_filter_simps Let_def)

lemma live_slices:
  assumes "levels_ok records order levels" "bound_mono order lower" "bound_mono order upper"
  shows "List.map_filter (run_slice records lower upper) (live_runs levels) =
    filter (\<lambda>s. s \<noteq> []) (map (filter (\<lambda>i. in_range lower upper (records ! id_index i))) (live_runs levels))"
proof -
  have "sorted_wrt (\<lambda>x y. compare_ids records order x y = Less) r" if "r \<in> set (live_runs levels)" for r
    using that assms(1) by (auto simp: set_live_runs levels_ok_def)
  then have "\<forall>r \<in> set (live_runs levels). run_slice records lower upper r =
      (let s = filter (\<lambda>i. in_range lower upper (records ! id_index i)) r in if s = [] then None else Some s)"
    using run_slice_filter assms(2,3) by blast
  then show ?thesis by (rule map_filter_nonempty)
qed

lemma concat_filter_nonempty: "concat (filter (\<lambda>s. s \<noteq> []) xss) = concat xss"
  by (induction xss) auto

lemma runs_range_exact:
  assumes inv: "runs_inv records order sr ids" and d: "distinct ids"
    and mono: "bound_mono order lower" "bound_mono order upper"
  defines "S \<equiv> sort_by (compare_ids records order)
    (filter (\<lambda>i. in_range lower upper (records ! id_index i)) ids)"
  shows "runs_range sr records order lower upper max_entries =
    (take (Suc max_entries) S, max_entries < length S)"
proof -
  let ?P = "\<lambda>i. in_range lower upper (records ! id_index i)"
  let ?cs = "filter (\<lambda>s. s \<noteq> []) (map (filter ?P) (live_runs (sr_levels sr)))"
  have ok: "levels_ok records order (sr_levels sr)" and m: "mset (run_ids (sr_levels sr)) = mset ids"
    using inv by (simp_all add: runs_inv_def)
  have c: "concat ?cs = filter ?P (run_ids (sr_levels sr))"
    by (simp add: concat_filter_nonempty filter_concat)
  have dr: "distinct (run_ids (sr_levels sr))" using d m mset_eq_imp_distinct_iff by blast
  have "pending_ids.runs_ok records order ?cs"
    unfolding pending_ids.runs_ok_def c using ok dr
    by (auto simp: levels_ok_def set_live_runs intro: sorted_wrt_filter)
  then have k: "kway (compare_ids records order) max_entries ?cs [] =
      (take (Suc max_entries) (sort_by (compare_ids records order) (concat ?cs)),
       max_entries < length (concat ?cs))"
    using pending_ids.kway_sorted [of records order ?cs "[]" max_entries] by simp
  have "mset (filter ?P (run_ids (sr_levels sr))) = mset (filter ?P ids)"
    by (simp only: mset_filter m)
  note eq = mset_eq_setD [OF this] mset_eq_length [OF this]
  have "sort_by (compare_ids records order) (concat ?cs) = S"
    unfolding c S_def using d dr eq(1)
    by (intro pending_ids.sort_by_unique pending_ids.sort_by_sorted) (simp_all only: set_sort_by distinct_filter)
  moreover have "length (concat ?cs) = length S"
    unfolding c S_def length_sort_by by (rule eq(2))
  ultimately show ?thesis
    unfolding runs_range_def live_slices [OF ok mono] k by simp
qed

section \<open>Overlay invariant\<close>

definition record_identity :: "pending_fact_record \<Rightarrow> fact_identity" where
  "record_identity r = (pr_entity r, pr_attribute r, pr_value_bytes r, pr_valid_from r, pr_valid_to r,
     pr_tx_count r, pr_tx_id r, pr_asserted r)"

lemma equals_fact_iff: "equals_fact r f (encode_value (val f)) \<longleftrightarrow> record_identity r = fact_identity f"
  by (auto simp: equals_fact_def record_identity_def fact_identity_def)

fun bucket_ids :: "duplicate_bucket option \<Rightarrow> pending_fact_id list" where
  "bucket_ids None = []"
| "bucket_ids (Some Empty) = []"
| "bucket_ids (Some (One i)) = [i]"
| "bucket_ids (Some (Many ids)) = ids"

definition overlay_ids :: "pending_overlay \<Rightarrow> pending_fact_id list" where
  "overlay_ids ov = map of_nat [0..<length (ov_records ov)]"

definition ref_ids :: "pending_overlay \<Rightarrow> pending_fact_id list" where
  "ref_ids ov = filter (\<lambda>i. is_ref (pr_value (ov_records ov ! id_index i))) (overlay_ids ov)"

definition buckets_inv :: "(fact_identity \<Rightarrow> u64) \<Rightarrow> pending_overlay \<Rightarrow> bool" where
  "buckets_inv h ov \<longleftrightarrow> length (ov_records ov) \<le> 2 ^ 32 \<and>
     (\<forall>r \<in> set (ov_records ov). pr_value_bytes r = encode_value (pr_value r)) \<and>
     (\<forall>v. bucket_ids (hm_get (ov_duplicates ov) v) =
        filter (\<lambda>i. h (record_identity (ov_records ov ! id_index i)) = v) (overlay_ids ov))"

definition overlay_inv :: "(fact_identity \<Rightarrow> u64) \<Rightarrow> pending_overlay \<Rightarrow> bool" where
  "overlay_inv h ov \<longleftrightarrow> buckets_inv h ov \<and>
     runs_inv (ov_records ov) Eavt (ov_eavt ov) (overlay_ids ov) \<and>
     runs_inv (ov_records ov) Aevt (ov_aevt ov) (overlay_ids ov) \<and>
     runs_inv (ov_records ov) Avet (ov_avet ov) (overlay_ids ov) \<and>
     runs_inv (ov_records ov) Vaet (ov_vaet ov) (ref_ids ov)"

lemma overlay_inv_new: "overlay_inv h overlay_new"
  by (simp add: overlay_inv_def buckets_inv_def overlay_new_def overlay_ids_def ref_ids_def runs_inv_empty)

lemma id_index_of_nat: "n < 2 ^ 32 \<Longrightarrow> id_index (of_nat n) = n"
  by (simp add: unat_of_nat)

lemma overlay_ids_index:
  "length (ov_records ov) \<le> 2 ^ 32 \<Longrightarrow> i \<in> set (overlay_ids ov) \<Longrightarrow> id_index i < length (ov_records ov)"
  by (auto simp: overlay_ids_def unat_of_nat)

lemma overlay_ids_distinct: "length (ov_records ov) \<le> 2 ^ 32 \<Longrightarrow> distinct (overlay_ids ov)"
  unfolding overlay_ids_def distinct_map
  using inj_on_subset [OF inj_on_word_of_nat [where 'a = 32], of "{0..<length (ov_records ov)}"] by simp

section \<open>Duplicate detection\<close>

lemma find_duplicate_find:
  "find_duplicate h ov f =
     List.find (\<lambda>i. equals_fact (ov_records ov ! id_index i) f (encode_value (val f)))
       (bucket_ids (hm_get (ov_duplicates ov) (h (fact_identity f))))"
  by (auto simp: find_duplicate_def Let_def split: option.splits duplicate_bucket.splits)

lemma overlay_ids_nth:
  assumes "length (ov_records ov) \<le> 2 ^ 32"
  shows "(\<lambda>i. ov_records ov ! id_index i) ` set (overlay_ids ov) = set (ov_records ov)"
proof -
  have "ov_records ov ! id_index (of_nat n) = ov_records ov ! n" if "n < length (ov_records ov)" for n
    using that assms by (simp add: id_index_of_nat)
  then show ?thesis
    by (auto simp: overlay_ids_def image_image set_conv_nth intro!: image_eqI)
qed

lemma find_duplicate_iff:
  assumes "buckets_inv h ov"
  shows "find_duplicate h ov f \<noteq> None \<longleftrightarrow> fact_identity f \<in> record_identity ` set (ov_records ov)"
proof -
  have len: "length (ov_records ov) \<le> 2 ^ 32" using assms by (simp add: buckets_inv_def)
  have "find_duplicate h ov f \<noteq> None \<longleftrightarrow>
      (\<exists>i \<in> set (overlay_ids ov). record_identity (ov_records ov ! id_index i) = fact_identity f)"
    using assms unfolding find_duplicate_find find_None_iff buckets_inv_def equals_fact_iff
    by auto metis
  also have "\<dots> \<longleftrightarrow> fact_identity f \<in> record_identity ` (\<lambda>i. ov_records ov ! id_index i) ` set (overlay_ids ov)"
    by (metis (no_types, lifting) image_iff)
  finally show ?thesis unfolding overlay_ids_nth [OF len] .
qed

lemma bucket_ids_add: "bucket_ids (Some (bucket_add b i)) = bucket_ids (Some b) @ [i]"
  by (cases b) simp_all

abbreviation record_of :: "fact \<Rightarrow> pending_fact_record" where
  "record_of f \<equiv> record_from_fact f (attr f)"

lemma record_of_facts [simp]: "record_to_fact (record_of f) = f" "record_identity (record_of f) = fact_identity f"
    "pr_value (record_of f) = val f" "pr_value_bytes (record_of f) = encode_value (val f)"
  by (simp_all add: record_to_fact_def record_from_fact_def record_identity_def fact_identity_def)

lemma overlay_push_ok:
  assumes inv: "buckets_inv h ov" and len: "length (ov_records ov) < 2 ^ 32"
  obtains ov' where "overlay_push h ov f = Inr (ov', of_nat (length (ov_records ov)))"
    "ov_records ov' = ov_records ov @ [record_of f]" "buckets_inv h ov'"
    "ov_eavt ov' = ov_eavt ov" "ov_aevt ov' = ov_aevt ov" "ov_avet ov' = ov_avet ov" "ov_vaet ov' = ov_vaet ov"
proof -
  let ?i = "of_nat (length (ov_records ov)) :: pending_fact_id"
  let ?ov' = "add_duplicate (ov\<lparr> ov_attributes := List.insert (attr f) (ov_attributes ov),
      ov_records := ov_records ov @ [record_of f] \<rparr>) (h (fact_identity f)) ?i"
  have push: "overlay_push h ov f = Inr (?ov', ?i)"
    using len by (simp add: overlay_push_def id_from_index_def Let_def)
  have recs: "ov_records ?ov' = ov_records ov @ [record_of f]" by (simp add: add_duplicate_def)
  have ids: "overlay_ids ?ov' = overlay_ids ov @ [?i]" by (simp add: overlay_ids_def recs)
  have old: "ov_records ?ov' ! id_index i = ov_records ov ! id_index i" if "i \<in> set (overlay_ids ov)" for i
    using overlay_ids_index [of ov i] that len by (simp add: recs nth_append)
  have new: "ov_records ?ov' ! id_index ?i = record_of f"
    using len by (simp add: recs id_index_of_nat nth_append)
  have "filter (\<lambda>i. h (record_identity (ov_records ?ov' ! id_index i)) = v) (overlay_ids ?ov') =
      filter (\<lambda>i. h (record_identity (ov_records ov ! id_index i)) = v) (overlay_ids ov) @
        (if h (fact_identity f) = v then [?i] else [])" for v
    unfolding ids filter_append using new old by (auto intro!: filter_cong)
  moreover have "bucket_ids (hm_get (ov_duplicates ?ov') v) =
      bucket_ids (hm_get (ov_duplicates ov) v) @ (if h (fact_identity f) = v then [?i] else [])" for v
    by (auto simp: add_duplicate_def bucket_ids_add split: option.splits)
  ultimately have "buckets_inv h ?ov'"
    using inv len unfolding buckets_inv_def by (auto simp: recs)
  then show ?thesis using push recs by (intro that [of ?ov']) (simp_all add: add_duplicate_def)
qed

text \<open>What duplicate rejection keeps: the first fact of each identity not seen before.\<close>

fun dedup_new :: "fact_identity set \<Rightarrow> fact list \<Rightarrow> fact list" where
  "dedup_new seen [] = []"
| "dedup_new seen (f # fs) =
     (if fact_identity f \<in> seen then dedup_new seen fs
      else f # dedup_new (insert (fact_identity f) seen) fs)"

definition accepted :: "bool \<Rightarrow> pending_overlay \<Rightarrow> fact list \<Rightarrow> fact list" where
  "accepted reject ov facts =
     (if reject then dedup_new (record_identity ` set (ov_records ov)) facts else facts)"

lemma insert_records_ok:
  assumes "buckets_inv h ov" "length (ov_records ov) + length (accepted reject ov facts) \<le> 2 ^ 32"
  shows "\<exists>ov'. insert_records h reject facts ov inserted =
      (ov', Inr (inserted @ map of_nat
        [length (ov_records ov)..<length (ov_records ov) + length (accepted reject ov facts)])) \<and>
    ov_records ov' = ov_records ov @ map record_of (accepted reject ov facts) \<and> buckets_inv h ov' \<and>
    ov_eavt ov' = ov_eavt ov \<and> ov_aevt ov' = ov_aevt ov \<and> ov_avet ov' = ov_avet ov \<and> ov_vaet ov' = ov_vaet ov"
  using assms
proof (induction facts arbitrary: ov inserted)
  case Nil
  then show ?case by (simp add: accepted_def)
next
  case (Cons f fs)
  show ?case
  proof (cases "find_duplicate h ov f \<noteq> None \<and> reject")
    case True
    then have "accepted reject ov (f # fs) = accepted reject ov fs"
      using find_duplicate_iff [OF Cons.prems(1), of f] by (simp add: accepted_def)
    then show ?thesis using Cons.IH [of ov inserted] Cons.prems True by simp
  next
    case False
    then have acc: "accepted reject ov (f # fs) = f # (if reject
        then dedup_new (insert (fact_identity f) (record_identity ` set (ov_records ov))) fs else fs)"
      using find_duplicate_iff [OF Cons.prems(1), of f] by (auto simp: accepted_def)
    then have "length (ov_records ov) < 2 ^ 32" using Cons.prems(2) by simp
    then obtain ov' where push: "overlay_push h ov f = Inr (ov', of_nat (length (ov_records ov)))"
      and ov': "ov_records ov' = ov_records ov @ [record_of f]" "buckets_inv h ov'"
        "ov_eavt ov' = ov_eavt ov" "ov_aevt ov' = ov_aevt ov" "ov_avet ov' = ov_avet ov" "ov_vaet ov' = ov_vaet ov"
      using overlay_push_ok [OF Cons.prems(1)] by metis
    have acc': "accepted reject ov (f # fs) = f # accepted reject ov' fs"
      unfolding acc by (simp add: accepted_def ov')
    have "length (ov_records ov') + length (accepted reject ov' fs) \<le> 2 ^ 32"
      using Cons.prems(2) unfolding acc' by (simp add: ov')
    from Cons.IH [OF ov'(2) this, of "inserted @ [of_nat (length (ov_records ov))]"]
    obtain ov'' where ih: "insert_records h reject fs ov' (inserted @ [of_nat (length (ov_records ov))]) =
        (ov'', Inr ((inserted @ [of_nat (length (ov_records ov))]) @ map of_nat
          [length (ov_records ov')..<length (ov_records ov') + length (accepted reject ov' fs)]))"
      "ov_records ov'' = ov_records ov' @ map record_of (accepted reject ov' fs)" "buckets_inv h ov''"
      "ov_eavt ov'' = ov_eavt ov'" "ov_aevt ov'' = ov_aevt ov'" "ov_avet ov'' = ov_avet ov'" "ov_vaet ov'' = ov_vaet ov'"
      by blast
    have "insert_records h reject (f # fs) ov inserted =
        insert_records h reject fs ov' (inserted @ [of_nat (length (ov_records ov))])"
      using False push by auto
    moreover have "[length (ov_records ov)..<length (ov_records ov) + length (f # accepted reject ov' fs)] =
        length (ov_records ov) # [length (ov_records ov')..<length (ov_records ov') + length (accepted reject ov' fs)]"
      by (simp add: ov'(1) upt_conv_Cons del: upt_Suc)
    ultimately show ?thesis
      unfolding acc' using ih ov'
      by (intro exI [of _ ov'']) (simp del: insert_records.simps upt_Suc)
  qed
qed

lemma length_dedup_new: "length (dedup_new seen fs) \<le> length fs"
proof (induction fs arbitrary: seen)
  case (Cons f fs)
  then show ?case by (simp add: le_SucI)
qed simp

lemma length_accepted: "length (accepted reject ov facts) \<le> length facts"
  by (simp add: accepted_def length_dedup_new)

lemma runs_grow:
  assumes "runs_inv records order sr ids" "distinct (ids @ run)" "\<forall>i\<in>set ids. id_index i < length records"
  shows "runs_inv (records @ extra) order (runs_insert sr run (records @ extra) order) (ids @ run)"
  using runs_insert_inv [OF runs_inv_append_records [OF assms(1,3)] assms(2)] .

lemma overlay_ids_grow:
  "ov_records ov' = ov_records ov @ map record_of new \<Longrightarrow>
    overlay_ids ov' = overlay_ids ov @ map of_nat [length (ov_records ov)..<length (ov_records ov) + length new]"
  unfolding overlay_ids_def
  by (simp only: length_append length_map upt_add_eq_append [OF le0] map_append)

lemma ref_ids_grow:
  assumes "ov_records ov' = ov_records ov @ map record_of new" "length (ov_records ov') \<le> 2 ^ 32"
  shows "ref_ids ov' = ref_ids ov @ filter (\<lambda>i. is_ref (pr_value (ov_records ov' ! id_index i)))
    (map of_nat [length (ov_records ov)..<length (ov_records ov) + length new])"
proof -
  have "ov_records ov' ! id_index i = ov_records ov ! id_index i" if "i \<in> set (overlay_ids ov)" for i
    using overlay_ids_index [of ov i] that assms by (simp add: nth_append)
  then have "filter (\<lambda>i. is_ref (pr_value (ov_records ov' ! id_index i))) (overlay_ids ov) = ref_ids ov"
    unfolding ref_ids_def by (auto intro!: filter_cong)
  then show ?thesis
    unfolding ref_ids_def [of ov'] overlay_ids_grow [OF assms(1)] filter_append by simp
qed

lemma overlay_inv_len: "overlay_inv h ov \<Longrightarrow> length (ov_records ov) \<le> 2 ^ 32"
  by (simp add: overlay_inv_def buckets_inv_def)

lemma insert_batch_ok:
  assumes inv: "overlay_inv h ov"
    and room: "length (ov_records ov) + length (accepted reject ov facts) \<le> 2 ^ 32"
  shows "\<exists>ov'. insert_batch h ov facts reject = (ov', Inr (length (accepted reject ov facts))) \<and>
    overlay_inv h ov' \<and> ov_records ov' = ov_records ov @ map record_of (accepted reject ov facts)"
proof -
  let ?new = "accepted reject ov facts"
  let ?ids = "map of_nat [length (ov_records ov)..<length (ov_records ov) + length ?new] :: pending_fact_id list"
  have b: "buckets_inv h ov" using inv by (simp add: overlay_inv_def)
  from insert_records_ok [OF b room, of "[]"] obtain ov1 where
    ins: "insert_records h reject facts ov [] = (ov1, Inr ?ids)"
    and recs: "ov_records ov1 = ov_records ov @ map record_of ?new" and b1: "buckets_inv h ov1"
    and runs: "ov_eavt ov1 = ov_eavt ov" "ov_aevt ov1 = ov_aevt ov" "ov_avet ov1 = ov_avet ov" "ov_vaet ov1 = ov_vaet ov"
    by auto
  show ?thesis
  proof (cases "?new = []")
    case True
    then have "insert_batch h ov facts reject = (ov1, Inr (length ?new))"
      using ins by (simp add: insert_batch_def)
    moreover have "overlay_inv h ov1"
      using inv b1 recs runs True by (simp add: overlay_inv_def overlay_ids_def ref_ids_def)
    ultimately show ?thesis using recs by blast
  next
    case False
    let ?refs = "filter (\<lambda>i. is_ref (pr_value (ov_records ov1 ! id_index i))) ?ids"
    let ?ov2 = "ov1\<lparr> ov_eavt := runs_insert (ov_eavt ov) ?ids (ov_records ov1) Eavt,
        ov_aevt := runs_insert (ov_aevt ov) ?ids (ov_records ov1) Aevt,
        ov_avet := runs_insert (ov_avet ov) ?ids (ov_records ov1) Avet,
        ov_vaet := runs_insert (ov_vaet ov) ?refs (ov_records ov1) Vaet \<rparr>"
    have len1: "length (ov_records ov1) \<le> 2 ^ 32" using recs room by simp
    have grow: "overlay_ids ov1 = overlay_ids ov @ ?ids" by (rule overlay_ids_grow [OF recs])
    then have d: "distinct (overlay_ids ov @ ?ids)" using overlay_ids_distinct [OF len1] by simp
    have refs: "ref_ids ov1 = ref_ids ov @ ?refs" by (rule ref_ids_grow [OF recs len1])
    then have dr: "distinct (ref_ids ov @ ?refs)"
      using overlay_ids_distinct [OF len1] by (metis distinct_filter ref_ids_def)
    have idx: "\<forall>i\<in>set (overlay_ids ov). id_index i < length (ov_records ov)"
      using overlay_ids_index overlay_inv_len [OF inv] by blast
    then have idr: "\<forall>i\<in>set (ref_ids ov). id_index i < length (ov_records ov)"
      by (simp add: ref_ids_def)
    have "?ids \<noteq> []" using False by simp
    then have "insert_batch h ov facts reject = (?ov2, Inr (length ?new))"
      using ins runs by (simp add: insert_batch_def Let_def del: upt_Suc)
    moreover have "overlay_inv h ?ov2"
    proof -
      have "overlay_ids ?ov2 = overlay_ids ov @ ?ids" "ref_ids ?ov2 = ref_ids ov @ ?refs"
        using grow refs by (simp_all add: overlay_ids_def ref_ids_def)
      moreover have "buckets_inv h ?ov2" using b1 by (simp add: buckets_inv_def overlay_ids_def)
      ultimately show ?thesis
        using inv runs_grow [OF _ d idx] runs_grow [OF _ dr idr] recs
        unfolding overlay_inv_def by (simp del: upt_Suc)
    qed
    ultimately show ?thesis using recs by (intro exI [of _ ?ov2]) simp
  qed
qed

text \<open>
  C12: inserting a batch keeps the overlay invariant (hash buckets list the records of each hash in
  order, and the four collections of runs are sorted and hold exactly the record identifiers) and
  appends the accepted facts in order: all of them, or, when duplicates are rejected, the first of
  each identity that the overlay does not already hold. This holds for every hash function; the
  only hypothesis is that the identifiers still fit in 32 bits.
\<close>

theorem insert_batch_correct:
  assumes "overlay_inv h ov" "length (overlay_facts ov) + length facts \<le> 2 ^ 32"
  shows "case insert_batch h ov facts reject of (ov', r) \<Rightarrow>
    overlay_inv h ov' \<and> overlay_facts ov' = overlay_facts ov @ accepted reject ov facts \<and>
    r = Inr (length (accepted reject ov facts))"
proof -
  have "length (ov_records ov) + length (accepted reject ov facts) \<le> 2 ^ 32"
    using assms(2) length_accepted [of reject ov facts] by (simp add: overlay_facts_def)
  from insert_batch_ok [OF assms(1) this] show ?thesis
    by (auto simp: overlay_facts_def o_def)
qed

theorem insert_batch_correct_witness:
  "let f = fact_new 7 '':a'' Null 5 in
   case insert_batch (\<lambda>_. 0) overlay_new [f, f] True of (ov', r) \<Rightarrow>
     overlay_inv (\<lambda>_. 0) ov' \<and> overlay_facts ov' = [f] \<and> r = Inr 1"
proof -
  have "overlay_inv (\<lambda>_. 0) overlay_new" by (rule overlay_inv_new)
  moreover have "length (overlay_facts overlay_new) + length [f, f] \<le> 2 ^ 32" for f :: fact
    by (simp add: overlay_facts_def overlay_new_def)
  ultimately show ?thesis
    using insert_batch_correct [of "\<lambda>_. 0" overlay_new "[f, f]" True for f]
    by (simp add: Let_def accepted_def overlay_facts_def overlay_new_def)
qed

lemma overlay_ids_length: "length (overlay_ids ov) = length (ov_records ov)"
  by (simp add: overlay_ids_def)

lemma in_range_eavt:
  "in_range (\<lambda>r. compare_eavt_bound r start) (\<lambda>r. compare_eavt_bound r stop) r \<longleftrightarrow>
     start \<le> record_eavt_key r \<and> record_eavt_key r < stop"
  by (auto simp: in_range_def compare_bounds_cmp)

lemma range_eavt_sorted:
  assumes "overlay_inv h ov"
  shows "runs_range (ov_eavt ov) (ov_records ov) Eavt (\<lambda>r. compare_eavt_bound r start)
      (\<lambda>r. compare_eavt_bound r stop) m =
    (take (Suc m) (range_eavt ov start stop), m < length (range_eavt ov start stop))"
    and "range_eavt ov start stop = sort_by (compare_ids (ov_records ov) Eavt)
      (filter (\<lambda>i. start \<le> record_eavt_key (ov_records ov ! id_index i) \<and>
        record_eavt_key (ov_records ov ! id_index i) < stop) (overlay_ids ov))"
proof -
  let ?S = "sort_by (compare_ids (ov_records ov) Eavt)
    (filter (\<lambda>i. start \<le> record_eavt_key (ov_records ov ! id_index i) \<and>
        record_eavt_key (ov_records ov ! id_index i) < stop) (overlay_ids ov))"
  have len: "length (ov_records ov) \<le> 2 ^ 32" using assms by (rule overlay_inv_len)
  have inv: "runs_inv (ov_records ov) Eavt (ov_eavt ov) (overlay_ids ov)"
    using assms by (simp add: overlay_inv_def)
  have rng: "runs_range (ov_eavt ov) (ov_records ov) Eavt (\<lambda>r. compare_eavt_bound r start)
      (\<lambda>r. compare_eavt_bound r stop) n = (take (Suc n) ?S, n < length ?S)" for n
    using runs_range_exact [OF inv overlay_ids_distinct [OF len] bound_mono_cmp(1) bound_mono_cmp(1),
        of start stop n] unfolding in_range_eavt .
  have "length ?S \<le> length (ov_records ov)"
    using length_filter_le [of _ "overlay_ids ov"] by (simp add: overlay_ids_length)
  then have "length ?S \<le> usize_MAX" using len by (simp add: usize_MAX_def)
  then show S: "range_eavt ov start stop = ?S" by (simp add: range_eavt_def rng)
  show "runs_range (ov_eavt ov) (ov_records ov) Eavt (\<lambda>r. compare_eavt_bound r start)
      (\<lambda>r. compare_eavt_bound r stop) m =
    (take (Suc m) (range_eavt ov start stop), m < length (range_eavt ov start stop))"
    unfolding S by (rule rng)
qed

text \<open>
  C24: an EAVT range query over the overlay returns exactly the records whose key lies between the
  bounds, each once, in strictly ascending index order; the page variant returns a prefix of one
  more than the limit together with an overflow flag that is set exactly when there are more
  entries than the limit, and the bounded variant fails exactly then.
\<close>

theorem range_eavt_exact:
  assumes "overlay_inv h ov"
  shows "set (range_eavt ov start stop) =
      {i \<in> set (overlay_ids ov). start \<le> record_eavt_key (ov_records ov ! id_index i) \<and>
         record_eavt_key (ov_records ov ! id_index i) < stop} \<and>
    sorted_wrt (\<lambda>i j. compare_ids (ov_records ov) Eavt i j = Less) (range_eavt ov start stop) \<and>
    range_eavt_page ov start stop m =
      (take (Suc m) (range_eavt ov start stop), m < length (range_eavt ov start stop)) \<and>
    range_eavt_bounded ov start stop m =
      (if m < length (range_eavt ov start stop) then Inl (HistoryWorkExceeded m)
       else Inr (range_eavt ov start stop))"
proof -
  note r = range_eavt_sorted [OF assms, of start stop]
  have d: "distinct (overlay_ids ov)" using overlay_ids_distinct overlay_inv_len [OF assms] by blast
  show ?thesis
  proof (intro conjI)
    show "set (range_eavt ov start stop) =
        {i \<in> set (overlay_ids ov). start \<le> record_eavt_key (ov_records ov ! id_index i) \<and>
           record_eavt_key (ov_records ov ! id_index i) < stop}"
      unfolding r(2) by auto
    show "sorted_wrt (\<lambda>i j. compare_ids (ov_records ov) Eavt i j = Less) (range_eavt ov start stop)"
      unfolding r(2) by (rule pending_ids.sort_by_sorted) (simp add: d)
    show "range_eavt_page ov start stop m =
        (take (Suc m) (range_eavt ov start stop), m < length (range_eavt ov start stop))"
      unfolding range_eavt_page_def by (rule r(1))
    show "range_eavt_bounded ov start stop m =
        (if m < length (range_eavt ov start stop) then Inl (HistoryWorkExceeded m)
         else Inr (range_eavt ov start stop))"
      unfolding range_eavt_bounded_def r(1) by auto
  qed
qed

lemma insert_batch_new:
  obtains ov' where "insert_batch h overlay_new [f] reject = (ov', Inr 1)" "overlay_inv h ov'"
    "ov_records ov' = [record_of f]"
proof -
  have acc: "accepted reject overlay_new [f] = [f]" by (simp add: accepted_def overlay_new_def)
  have "length (ov_records overlay_new) + length (accepted reject overlay_new [f]) \<le> 2 ^ 32"
    unfolding acc by (simp add: overlay_new_def)
  from insert_batch_ok [OF overlay_inv_new this, of h] that show ?thesis
    unfolding acc by (auto simp: overlay_new_def)
qed

theorem range_eavt_exact_witness:
  "let f = fact_new 7 '':a'' Null 5;
       ov = fst (insert_batch (\<lambda>_. 0) overlay_new [f] True);
       start = EavtKey 7 [] i64_MIN i64_MIN 0 [] 0 False;
       stop = EavtKey 8 [] i64_MIN i64_MIN 0 [] 0 False
   in set (range_eavt ov start stop) = {0} \<and> range_eavt_page ov start stop 1 = (range_eavt ov start stop, False)"
proof -
  define f where "f = fact_new 7 '':a'' Null 5"
  define start where "start = EavtKey 7 [] i64_MIN i64_MIN 0 [] 0 False"
  define stop where "stop = EavtKey 8 [] i64_MIN i64_MIN 0 [] 0 False"
  obtain ov where ov: "insert_batch (\<lambda>_. 0) overlay_new [f] True = (ov, Inr 1)" "overlay_inv (\<lambda>_. 0) ov"
    "ov_records ov = [record_of f]" by (rule insert_batch_new)
  have ids: "overlay_ids ov = [0]" by (simp add: overlay_ids_def ov)
  have "start \<le> record_eavt_key (record_of f)" "record_eavt_key (record_of f) < stop"
    by (simp_all add: start_def stop_def f_def record_eavt_key_def record_from_fact_def fact_new_def
        less_eavt_key_def less_eq_eavt_key_def less_eq_prod_def)
  note exact = range_eavt_exact [OF ov(2), of start stop 1]
  have "set (range_eavt ov start stop) = {i \<in> set (overlay_ids ov).
      start \<le> record_eavt_key (ov_records ov ! id_index i) \<and> record_eavt_key (ov_records ov ! id_index i) < stop}"
    by (rule conjunct1 [OF exact])
  also have "\<dots> = {0}" unfolding ids ov(3) using \<open>start \<le> _\<close> \<open>_ < stop\<close> by auto
  finally have set: "set (range_eavt ov start stop) = {0}" .
  have "distinct (range_eavt ov start stop)"
    by (rule pending_ids.sorted_distinct [OF conjunct1 [OF conjunct2 [OF exact]]])
  then have "length (range_eavt ov start stop) = 1" using distinct_card set by (metis card.empty card_insert_disjoint empty_iff finite.emptyI One_nat_def)
  then have "range_eavt_page ov start stop 1 = (range_eavt ov start stop, False)"
    using conjunct1 [OF conjunct2 [OF conjunct2 [OF exact]]] by simp
  with set show ?thesis using ov(1) by (simp add: Let_def f_def start_def stop_def)
qed

lemma in_range_aevt:
  "in_range (\<lambda>r. compare_aevt_bound r start)
     (\<lambda>r. case stop of None \<Rightarrow> Less | Some k \<Rightarrow> compare_aevt_bound r k) r \<longleftrightarrow>
   start \<le> record_aevt_key r \<and> (case stop of None \<Rightarrow> True | Some k \<Rightarrow> record_aevt_key r < k)"
  by (auto simp: in_range_def compare_bounds_cmp split: option.splits)

lemma range_aevt_sorted:
  assumes "overlay_inv h ov"
  shows "range_aevt ov start stop = sort_by (compare_ids (ov_records ov) Aevt)
      (filter (\<lambda>i. start \<le> record_aevt_key (ov_records ov ! id_index i) \<and>
        (case stop of None \<Rightarrow> True | Some k \<Rightarrow> record_aevt_key (ov_records ov ! id_index i) < k))
        (overlay_ids ov))" (is "_ = ?S")
proof -
  have len: "length (ov_records ov) \<le> 2 ^ 32" using assms by (rule overlay_inv_len)
  have inv: "runs_inv (ov_records ov) Aevt (ov_aevt ov) (overlay_ids ov)"
    using assms by (simp add: overlay_inv_def)
  have "bound_mono Aevt (\<lambda>r. case stop of None \<Rightarrow> Less | Some k \<Rightarrow> compare_aevt_bound r k)"
    by (cases stop) (simp_all add: bound_mono_cmp)
  from runs_range_exact [OF inv overlay_ids_distinct [OF len] bound_mono_cmp(2) this, of start usize_MAX]
  have "range_aevt ov start stop = take (Suc usize_MAX) ?S"
    unfolding in_range_aevt range_aevt_def by simp
  moreover have "length ?S \<le> length (ov_records ov)"
    using length_filter_le [of _ "overlay_ids ov"] by (simp add: overlay_ids_length)
  then have "length ?S \<le> usize_MAX" using len by (simp add: usize_MAX_def)
  ultimately show ?thesis by simp
qed

end
