(* ===== verification/Fact_Store.thy ===== *)
theory Fact_Store
  imports Pending_Overlay
begin

text \<open>
  The fact store of \<open>src/src/graph/storage.rs\<close>: the pending overlay, the optional readers of
  committed facts and indexes, the publication generation and the transaction counter.  Committed
  readers are trait objects in the source; here they are records of functions, and what a lookup
  needs of them is the predicate \<open>eavt_reader_ok\<close>.  The clock (\<open>tx_id_now\<close>) and the hash used for
  duplicate detection are parameters.  The lemmas follow assertions and retractions through the
  temporal views and determine what the entity and attribute lookups return.
\<close>

section \<open>State\<close>

datatype store_error = LockPoisoned | Overlay overlay_error | PendingRefOnDisk
  | NoCommittedReader u64 | ReaderError nat | WorkExceeded nat

record committed_fact_reader =
  cf_resolve :: "fact_ref \<Rightarrow> store_error + fact"
  cf_stream_all :: "store_error + fact list"

record committed_index_reader =
  ci_range_scan_eavt :: "eavt_key \<Rightarrow> eavt_key option \<Rightarrow> store_error + fact_ref list"
  ci_range_scan_aevt :: "aevt_key \<Rightarrow> aevt_key option \<Rightarrow> store_error + fact_ref list"
  ci_visit_eavt :: "eavt_key \<Rightarrow> eavt_key option \<Rightarrow> store_error + (current_eavt_entry \<times> fact_ref) list"
  ci_visit_aevt :: "aevt_key \<Rightarrow> aevt_key option \<Rightarrow> store_error + (current_aevt_entry \<times> fact_ref) list"

record fact_store =
  fs_pending :: pending_overlay
  fs_committed :: "committed_fact_reader option"
  fs_index_reader :: "committed_index_reader option"
  fs_generation :: u64
  fs_tx_counter :: u64
  fs_poisoned :: bool

definition fs_new :: fact_store where
  "fs_new = \<lparr> fs_pending = overlay_new, fs_committed = None, fs_index_reader = None,
     fs_generation = 0, fs_tx_counter = 0, fs_poisoned = False \<rparr>"

definition u64_sat_inc :: "u64 \<Rightarrow> u64" where
  "u64_sat_inc w = (if w = -1 then -1 else w + 1)"

definition bump_generation :: "fact_store \<Rightarrow> fact_store" where
  "bump_generation fs = fs\<lparr> fs_generation := u64_sat_inc (fs_generation fs) \<rparr>"

text \<open>\<open>tx_counter.fetch_add(1).saturating_add(1)\<close>: the stored counter wraps, the value given out
  saturates.\<close>

definition allocate_tx_count :: "fact_store \<Rightarrow> fact_store \<times> u64" where
  "allocate_tx_count fs =
     (fs\<lparr> fs_tx_counter := fs_tx_counter fs + 1 \<rparr>, u64_sat_inc (fs_tx_counter fs))"

section \<open>Writing\<close>

definition default_valid_from :: "u64 \<Rightarrow> i64" where
  "default_valid_from tid = get_or i64_MAX (i64_try_from tid)"

definition no_options :: transact_options where
  "no_options = \<lparr> opt_valid_from = None, opt_valid_to = None \<rparr>"

definition assertion_of ::
    "u64 \<Rightarrow> u64 \<Rightarrow> transact_options \<Rightarrow> uuid \<Rightarrow> attribute \<Rightarrow> value \<Rightarrow> fact" where
  "assertion_of tid cnt opts e a v =
     fact_with_valid_time e a v tid cnt (get_or (default_valid_from tid) (opt_valid_from opts))
       (get_or VALID_TIME_FOREVER (opt_valid_to opts))"

text \<open>Append a batch under the write lock and publish it; the lock check comes after the counter
  was advanced.\<close>

definition append_facts ::
    "(fact_identity \<Rightarrow> u64) \<Rightarrow> fact_store \<Rightarrow> fact list \<Rightarrow> fact_store \<times> (store_error + unit)" where
  "append_facts h fs facts =
     (if fs_poisoned fs then (fs, Inl LockPoisoned)
      else case insert_batch h (fs_pending fs) facts False of
        (ov, Inl e) \<Rightarrow> (fs\<lparr> fs_pending := ov \<rparr>, Inl (Overlay e))
      | (ov, Inr n) \<Rightarrow> (bump_generation (fs\<lparr> fs_pending := ov \<rparr>), Inr ()))"

definition transact ::
    "(fact_identity \<Rightarrow> u64) \<Rightarrow> u64 \<Rightarrow> fact_store \<Rightarrow> (uuid \<times> attribute \<times> value) list \<Rightarrow>
     transact_options option \<Rightarrow> fact_store \<times> (store_error + u64)" where
  "transact h now fs tuples opts =
     (let tid = now;
          (fs, cnt) = allocate_tx_count fs;
          opts = get_or no_options opts;
          facts = map (\<lambda>(e, a, v). assertion_of tid cnt opts e a v) tuples
      in case append_facts h fs facts of
           (fs, Inl e) \<Rightarrow> (fs, Inl e)
         | (fs, Inr _) \<Rightarrow> (fs, Inr tid))"

type_synonym batch_tuple = "uuid \<times> attribute \<times> value \<times> transact_options option"

definition transact_batch ::
    "(fact_identity \<Rightarrow> u64) \<Rightarrow> u64 \<Rightarrow> fact_store \<Rightarrow> batch_tuple list \<Rightarrow>
     transact_options option \<Rightarrow> fact_store \<times> (store_error + u64 \<times> u64)" where
  "transact_batch h now fs tuples default_opts =
     (let tid = now;
          (fs, cnt) = allocate_tx_count fs;
          default_opts = get_or no_options default_opts;
          facts = map (\<lambda>(e, a, v, opts). assertion_of tid cnt (get_or default_opts opts) e a v) tuples
      in case append_facts h fs facts of
           (fs, Inl e) \<Rightarrow> (fs, Inl e)
         | (fs, Inr _) \<Rightarrow> (fs, Inr (tid, cnt)))"

definition retraction_of ::
    "u64 \<Rightarrow> u64 \<Rightarrow> transact_options option \<Rightarrow> batch_tuple \<Rightarrow> fact" where
  "retraction_of tid cnt default_opts = (\<lambda>(e, a, v, per_fact_opts).
     if per_fact_opts \<noteq> None \<or> default_opts \<noteq> None then
       let opts = get_or (get_or no_options default_opts) per_fact_opts in
       fact_retract_with_valid_time e a v tid cnt
         (get_or (default_valid_from tid) (opt_valid_from opts))
         (get_or VALID_TIME_FOREVER (opt_valid_to opts))
     else (fact_retract e a v tid)\<lparr> tx_count := cnt \<rparr>)"

definition retract_batch ::
    "(fact_identity \<Rightarrow> u64) \<Rightarrow> u64 \<Rightarrow> fact_store \<Rightarrow> batch_tuple list \<Rightarrow>
     transact_options option \<Rightarrow> fact_store \<times> (store_error + u64 \<times> u64)" where
  "retract_batch h now fs tuples default_opts =
     (let tid = now;
          (fs, cnt) = allocate_tx_count fs;
          facts = map (retraction_of tid cnt default_opts) tuples
      in case append_facts h fs facts of
           (fs, Inl e) \<Rightarrow> (fs, Inl e)
         | (fs, Inr _) \<Rightarrow> (fs, Inr (tid, cnt)))"

definition load_fact ::
    "(fact_identity \<Rightarrow> u64) \<Rightarrow> fact_store \<Rightarrow> fact \<Rightarrow> fact_store \<times> (store_error + bool)" where
  "load_fact h fs f =
     (if fs_poisoned fs then (fs, Inl LockPoisoned)
      else case insert_batch h (fs_pending fs) [f] True of
        (ov, Inl e) \<Rightarrow> (fs\<lparr> fs_pending := ov \<rparr>, Inl (Overlay e))
      | (ov, Inr n) \<Rightarrow>
          if n = 1 then (bump_generation (fs\<lparr> fs_pending := ov \<rparr>), Inr True)
          else (fs\<lparr> fs_pending := ov \<rparr>, Inr False))"

definition restore_tx_counter :: "fact_store \<Rightarrow> fact_store \<times> (store_error + unit)" where
  "restore_tx_counter fs =
     (if fs_poisoned fs then (fs, Inl LockPoisoned)
      else (fs\<lparr> fs_tx_counter := fold max (map pr_tx_count (ov_records (fs_pending fs))) 0 \<rparr>, Inr ()))"

definition restore_tx_counter_from :: "fact_store \<Rightarrow> u64 \<Rightarrow> fact_store" where
  "restore_tx_counter_from fs m = fs\<lparr> fs_tx_counter := m \<rparr>"

definition current_tx_count :: "fact_store \<Rightarrow> u64" where
  "current_tx_count fs = fs_tx_counter fs"

definition fs_clear :: "fact_store \<Rightarrow> fact_store \<times> (store_error + unit)" where
  "fs_clear fs =
     (if fs_poisoned fs then (fs, Inl LockPoisoned)
      else ((bump_generation (fs\<lparr> fs_pending := overlay_clear (fs_pending fs), fs_committed := None,
               fs_index_reader := None \<rparr>))\<lparr> fs_tx_counter := 0 \<rparr>, Inr ()))"

definition post_checkpoint_clear :: "fact_store \<Rightarrow> fact_store" where
  "post_checkpoint_clear fs = bump_generation (fs\<lparr> fs_pending := overlay_clear (fs_pending fs) \<rparr>)"

definition set_committed_reader :: "fact_store \<Rightarrow> committed_fact_reader \<Rightarrow> fact_store" where
  "set_committed_reader fs r = bump_generation (fs\<lparr> fs_committed := Some r \<rparr>)"

definition publish_committed_readers ::
    "fact_store \<Rightarrow> committed_fact_reader \<Rightarrow> committed_index_reader option \<Rightarrow> fact_store" where
  "publish_committed_readers fs r ir =
     bump_generation (fs\<lparr> fs_committed := Some r, fs_index_reader := ir,
       fs_pending := overlay_clear (fs_pending fs) \<rparr>)"

text \<open>The callback grows the readers in place while the write lock is held.\<close>

definition publish_incremental_committed ::
    "fact_store \<Rightarrow> (committed_fact_reader \<Rightarrow> committed_fact_reader) \<Rightarrow>
     (committed_index_reader \<Rightarrow> committed_index_reader) \<Rightarrow> fact_store" where
  "publish_incremental_committed fs grow grow_index =
     bump_generation (fs\<lparr> fs_committed := map_option grow (fs_committed fs),
       fs_index_reader := map_option grow_index (fs_index_reader fs),
       fs_pending := overlay_clear (fs_pending fs) \<rparr>)"

section \<open>Full scans\<close>

definition get_all_facts :: "fact_store \<Rightarrow> store_error + fact list" where
  "get_all_facts fs =
     (if fs_poisoned fs then Inl LockPoisoned
      else case fs_committed fs of
        None \<Rightarrow> Inr (overlay_facts (fs_pending fs))
      | Some loader \<Rightarrow> (case cf_stream_all loader of
          Inl e \<Rightarrow> Inl e
        | Inr committed \<Rightarrow> Inr (committed @ overlay_facts (fs_pending fs))))"

definition get_pending_facts :: "fact_store \<Rightarrow> fact list" where
  "get_pending_facts fs = overlay_facts (fs_pending fs)"

definition get_asserted_facts :: "fact_store \<Rightarrow> store_error + fact list" where
  "get_asserted_facts fs = map_sum id (filter asserted) (get_all_facts fs)"

text \<open>Visiting facts one by one with a visitor that may fail.\<close>

fun visit_each :: "('a \<Rightarrow> 's \<Rightarrow> store_error + 's) \<Rightarrow> 'a list \<Rightarrow> 's \<Rightarrow> store_error + 's" where
  "visit_each visit [] st = Inr st"
| "visit_each visit (x # xs) st = (case visit x st of Inl e \<Rightarrow> Inl e | Inr st' \<Rightarrow> visit_each visit xs st')"

definition for_each_fact ::
    "fact_store \<Rightarrow> (fact \<Rightarrow> 's \<Rightarrow> store_error + 's) \<Rightarrow> 's \<Rightarrow> store_error + 's" where
  "for_each_fact fs visit st =
     (if fs_poisoned fs then Inl LockPoisoned
      else case (case fs_committed fs of
          None \<Rightarrow> Inr st
        | Some loader \<Rightarrow> (case cf_stream_all loader of
            Inl e \<Rightarrow> Inl e | Inr committed \<Rightarrow> visit_each visit committed st)) of
        Inl e \<Rightarrow> Inl e
      | Inr st' \<Rightarrow> visit_each visit (overlay_facts (fs_pending fs)) st')"

definition push_bounded_query_fact :: "nat \<Rightarrow> fact \<Rightarrow> fact list \<Rightarrow> store_error + fact list" where
  "push_bounded_query_fact max_facts f facts =
     (if max_facts \<le> length facts then Inl (WorkExceeded max_facts) else Inr (facts @ [f]))"

definition get_all_facts_bounded :: "fact_store \<Rightarrow> nat \<Rightarrow> store_error + fact list" where
  "get_all_facts_bounded fs max_facts = for_each_fact fs (push_bounded_query_fact max_facts) []"

definition for_each_fact_since ::
    "fact_store \<Rightarrow> u64 \<Rightarrow> (fact \<Rightarrow> 's \<Rightarrow> store_error + 's) \<Rightarrow> 's \<Rightarrow> store_error + 's" where
  "for_each_fact_since fs since visit st =
     for_each_fact fs (\<lambda>f st. if tx_count f > since then visit f st else Inr st) st"

section \<open>Index-driven lookups\<close>

definition resolve_fact_ref :: "fact_store \<Rightarrow> fact_ref \<Rightarrow> store_error + fact" where
  "resolve_fact_ref fs r =
     (if page_id r = 0 then Inl PendingRefOnDisk
      else case fs_committed fs of
        Some loader \<Rightarrow> cf_resolve loader r
      | None \<Rightarrow> Inl (NoCommittedReader (page_id r)))"

text \<open>\<open>next_string_prefix\<close> increments the last byte below \<open>0xFF\<close> and drops what follows it; the
  bytes are given in reverse.\<close>

fun next_prefix_rev :: "bytes \<Rightarrow> bytes option" where
  "next_prefix_rev [] = None"
| "next_prefix_rev (b # bs) = (if b < 0xFF then Some (rev ((b + 1) # bs)) else next_prefix_rev bs)"

definition next_string_prefix :: "string \<Rightarrow> string option" where
  "next_string_prefix s =
     (case next_prefix_rev (rev (as_bytes s)) of
        None \<Rightarrow> None
      | Some bs \<Rightarrow> if utf8_valid bs then Some (of_bytes bs) else None)"

definition entity_bound :: "uuid \<Rightarrow> eavt_key" where
  "entity_bound e = EavtKey e [] i64_MIN i64_MIN 0 [] 0 False"

definition attribute_bound :: "attribute \<Rightarrow> aevt_key" where
  "attribute_bound a = AevtKey a 0 i64_MIN i64_MIN 0 [] 0 False"

definition pending_fact :: "fact_store \<Rightarrow> pending_fact_id \<Rightarrow> store_error + fact" where
  "pending_fact fs i =
     (case overlay_get (fs_pending fs) i of Inl e \<Rightarrow> Inl (Overlay e) | Inr r \<Rightarrow> Inr (record_to_fact r))"

definition push_result :: "('a \<Rightarrow> store_error + 'b) \<Rightarrow> 'a \<Rightarrow> 'b list \<Rightarrow> store_error + 'b list" where
  "push_result f x acc = (case f x of Inl e \<Rightarrow> Inl e | Inr y \<Rightarrow> Inr (acc @ [y]))"

definition sort_refs :: "fact_ref list \<Rightarrow> fact_ref list" where
  "sort_refs = sort_key (\<lambda>r. (page_id r, slot_index r))"

definition get_facts_by_entity :: "fact_store \<Rightarrow> uuid \<Rightarrow> store_error + fact list" where
  "get_facts_by_entity fs e =
     (let start = entity_bound e; stop = entity_bound (e + 1);
          scan = map record_to_fact (filter (\<lambda>r. pr_entity r = e) (ov_records (fs_pending fs)))
      in if ov_records (fs_pending fs) = [] \<and> fs_index_reader fs = None then
           (case fs_committed fs of
              None \<Rightarrow> Inr scan
            | Some loader \<Rightarrow> (case cf_stream_all loader of
                Inl err \<Rightarrow> Inl err
              | Inr committed \<Rightarrow> Inr (scan @ filter (\<lambda>f. entity f = e) committed)))
         else case visit_each (push_result (pending_fact fs)) (range_eavt (fs_pending fs) start stop) [] of
           Inl err \<Rightarrow> Inl err
         | Inr facts \<Rightarrow> (case fs_index_reader fs of
             None \<Rightarrow> Inr facts
           | Some reader \<Rightarrow> (case ci_range_scan_eavt reader start (Some stop) of
               Inl err \<Rightarrow> Inl err
             | Inr refs \<Rightarrow> visit_each (push_result (resolve_fact_ref fs)) (sort_refs refs) facts)))"

definition push_bounded :: "nat \<Rightarrow> ('a \<Rightarrow> store_error + fact) \<Rightarrow> 'a \<Rightarrow> fact list \<Rightarrow> store_error + fact list" where
  "push_bounded max_facts f x facts =
     (case f x of Inl e \<Rightarrow> Inl e | Inr y \<Rightarrow> push_bounded_query_fact max_facts y facts)"

definition collect_refs :: "nat \<Rightarrow> nat \<Rightarrow> 'k \<times> fact_ref \<Rightarrow> fact_ref list \<Rightarrow> store_error + fact_ref list" where
  "collect_refs max_facts n = (\<lambda>(_, r) refs.
     if max_facts \<le> sat_add n (length refs) then Inl (WorkExceeded max_facts) else Inr (refs @ [r]))"

definition get_facts_by_entity_bounded :: "fact_store \<Rightarrow> uuid \<Rightarrow> nat \<Rightarrow> store_error + fact list" where
  "get_facts_by_entity_bounded fs e max_facts =
     (let start = entity_bound e; stop = entity_bound (e + 1)
      in case visit_each (push_bounded max_facts (pending_fact fs)) (range_eavt (fs_pending fs) start stop) [] of
           Inl err \<Rightarrow> Inl err
         | Inr facts \<Rightarrow> (case fs_index_reader fs of
             Some reader \<Rightarrow> (case ci_visit_eavt reader start (Some stop) of
               Inl err \<Rightarrow> Inl err
             | Inr entries \<Rightarrow> (case visit_each (collect_refs max_facts (length facts)) entries [] of
                 Inl err \<Rightarrow> Inl err
               | Inr refs \<Rightarrow>
                   visit_each (push_bounded max_facts (resolve_fact_ref fs)) (sort_refs refs) facts))
           | None \<Rightarrow> (case fs_committed fs of
               None \<Rightarrow> Inr facts
             | Some loader \<Rightarrow> (case cf_stream_all loader of
                 Inl err \<Rightarrow> Inl err
               | Inr committed \<Rightarrow>
                   visit_each (\<lambda>f acc. if entity f = e then push_bounded_query_fact max_facts f acc else Inr acc)
                     committed facts))))"

definition facts_for_triple :: "fact_store \<Rightarrow> uuid \<Rightarrow> attribute \<Rightarrow> value \<Rightarrow> store_error + fact list" where
  "facts_for_triple fs e a v =
     map_sum id (filter (\<lambda>f. attr f = a \<and> encode_value (val f) = encode_value v)) (get_facts_by_entity fs e)"

definition attribute_stop :: "attribute \<Rightarrow> aevt_key option" where
  "attribute_stop a = map_option attribute_bound (next_string_prefix a)"

definition push_attribute ::
    "(fact \<Rightarrow> fact list \<Rightarrow> store_error + fact list) \<Rightarrow> fact_store \<Rightarrow> attribute \<Rightarrow> fact_ref \<Rightarrow> fact list \<Rightarrow>
     store_error + fact list" where
  "push_attribute push fs a r facts =
     (case resolve_fact_ref fs r of
        Inl e \<Rightarrow> Inl e
      | Inr f \<Rightarrow> if attr f = a then push f facts else Inr facts)"

definition get_facts_by_attribute :: "fact_store \<Rightarrow> attribute \<Rightarrow> store_error + fact list" where
  "get_facts_by_attribute fs a =
     (if ov_records (fs_pending fs) = [] \<and> fs_index_reader fs = None then
        map_sum id (filter (\<lambda>f. attr f = a)) (get_all_facts fs)
      else
        let start = attribute_bound a; stop = attribute_stop a
        in case visit_each (push_result (pending_fact fs)) (range_aevt (fs_pending fs) start stop) [] of
             Inl err \<Rightarrow> Inl err
           | Inr facts \<Rightarrow> (case fs_index_reader fs of
               None \<Rightarrow> Inr facts
             | Some reader \<Rightarrow> (case ci_range_scan_aevt reader start stop of
                 Inl err \<Rightarrow> Inl err
               | Inr refs \<Rightarrow>
                   visit_each (push_attribute (\<lambda>f acc. Inr (acc @ [f])) fs a) (sort_refs refs) facts)))"

definition get_facts_by_attribute_bounded :: "fact_store \<Rightarrow> attribute \<Rightarrow> nat \<Rightarrow> store_error + fact list" where
  "get_facts_by_attribute_bounded fs a max_facts =
     (let start = attribute_bound a; stop = attribute_stop a
      in case visit_each (push_bounded max_facts (pending_fact fs)) (range_aevt (fs_pending fs) start stop) [] of
           Inl err \<Rightarrow> Inl err
         | Inr facts \<Rightarrow> (case fs_index_reader fs of
             Some reader \<Rightarrow> (case ci_visit_aevt reader start stop of
               Inl err \<Rightarrow> Inl err
             | Inr entries \<Rightarrow> (case visit_each (collect_refs max_facts (length facts)) entries [] of
                 Inl err \<Rightarrow> Inl err
               | Inr refs \<Rightarrow>
                   visit_each (push_attribute (push_bounded_query_fact max_facts) fs a) (sort_refs refs) facts))
           | None \<Rightarrow> (case fs_committed fs of
               None \<Rightarrow> Inr facts
             | Some loader \<Rightarrow> (case cf_stream_all loader of
                 Inl err \<Rightarrow> Inl err
               | Inr committed \<Rightarrow>
                   visit_each (\<lambda>f acc. if attr f = a then push_bounded_query_fact max_facts f acc else Inr acc)
                     committed facts))))"

section \<open>Store invariant\<close>

definition store_facts :: "fact_store \<Rightarrow> fact list" where
  "store_facts fs = (case get_all_facts fs of Inl _ \<Rightarrow> [] | Inr facts \<Rightarrow> facts)"

text \<open>The overlay is well formed, the committed facts can be read, and no fact is newer than the
  transaction counter.\<close>

definition store_inv :: "(fact_identity \<Rightarrow> u64) \<Rightarrow> fact_store \<Rightarrow> bool" where
  "store_inv h fs \<longleftrightarrow> overlay_inv h (fs_pending fs) \<and> get_all_facts fs = Inr (store_facts fs) \<and>
     (\<forall>f\<in>set (store_facts fs). tx_count f \<le> fs_tx_counter fs)"

lemma overlay_facts_new [simp]: "overlay_facts overlay_new = []"
  by (simp add: overlay_facts_def overlay_new_def)

lemma store_inv_new: "store_inv h fs_new"
  by (simp add: store_inv_def store_facts_def get_all_facts_def fs_new_def overlay_inv_new)

lemma store_inv_unpoisoned: "store_inv h fs \<Longrightarrow> \<not> fs_poisoned fs"
  by (auto simp: store_inv_def get_all_facts_def split: if_splits)

lemma u64_inc_less: "w \<noteq> -1 \<Longrightarrow> w < w + (1 :: u64)"
proof -
  assume "w \<noteq> -1"
  then have "1 + w \<noteq> 0" by (metis add.commute add_eq_0_iff)
  then have "unat (1 + w) = Suc (unat w)" by (rule unatSuc)
  then show ?thesis by (simp add: word_less_nat_alt add.commute)
qed

definition room_for :: "fact_store \<Rightarrow> nat \<Rightarrow> bool" where
  "room_for fs n \<longleftrightarrow> length (get_pending_facts fs) + n \<le> 2 ^ 32 \<and> fs_tx_counter fs \<noteq> -1"

text \<open>The step shared by assertions and retractions: the counter is advanced by one and the facts,
  all stamped with the new count, are appended.\<close>

lemma append_facts_ok:
  assumes inv: "store_inv h fs" and room: "room_for fs (length facts)"
    and stamp: "\<forall>f\<in>set facts. tx_count f = fs_tx_counter fs + 1"
  shows "\<exists>fs'. append_facts h (fst (allocate_tx_count fs)) facts = (fs', Inr ()) \<and> store_inv h fs' \<and>
    store_facts fs' = store_facts fs @ facts \<and> fs_tx_counter fs' = fs_tx_counter fs + 1"
proof -
  let ?ov = "fs_pending fs"
  have ok: "overlay_inv h ?ov" "length (overlay_facts ?ov) + length facts \<le> 2 ^ 32"
    using inv room by (simp_all add: store_inv_def room_for_def get_pending_facts_def)
  from insert_batch_ok [OF ok(1), of False facts] ok(2)
  obtain ov' where ins: "insert_batch h ?ov facts False = (ov', Inr (length facts))"
    and ov': "overlay_inv h ov'" "overlay_facts ov' = overlay_facts ?ov @ facts"
    by (auto simp: accepted_def overlay_facts_def o_def)
  let ?fs' = "bump_generation (fs\<lparr> fs_tx_counter := fs_tx_counter fs + 1, fs_pending := ov' \<rparr>)"
  have up: "\<not> fs_poisoned fs" using inv by (rule store_inv_unpoisoned)
  have "append_facts h (fst (allocate_tx_count fs)) facts = (?fs', Inr ())"
    using up ins by (simp add: append_facts_def allocate_tx_count_def)
  moreover have all: "get_all_facts ?fs' = Inr (store_facts fs @ facts)"
    using inv ov'(2) by (auto simp: store_inv_def get_all_facts_def bump_generation_def
        split: if_splits option.splits sum.splits)
  moreover have "tx_count f \<le> fs_tx_counter fs + 1" if "f \<in> set (store_facts fs @ facts)" for f
    using that stamp inv u64_inc_less [of "fs_tx_counter fs"] room
    by (auto simp: store_inv_def room_for_def)
  ultimately show ?thesis
    using ov'(1) by (intro exI [of _ ?fs']) (auto simp: store_inv_def store_facts_def bump_generation_def)
qed

definition batch_assertions :: "u64 \<Rightarrow> fact_store \<Rightarrow> transact_options option \<Rightarrow> batch_tuple list \<Rightarrow> fact list" where
  "batch_assertions now fs default_opts =
     map (\<lambda>(e, a, v, opts). assertion_of now (fs_tx_counter fs + 1) (get_or (get_or no_options default_opts) opts) e a v)"

definition batch_retractions :: "u64 \<Rightarrow> fact_store \<Rightarrow> transact_options option \<Rightarrow> batch_tuple list \<Rightarrow> fact list" where
  "batch_retractions now fs default_opts = map (retraction_of now (fs_tx_counter fs + 1) default_opts)"

lemma assertion_of_simps [simp]:
  "tx_count (assertion_of tid cnt opts e a v) = cnt" "tx_id (assertion_of tid cnt opts e a v) = tid"
  "asserted (assertion_of tid cnt opts e a v)" "eav_key_of (assertion_of tid cnt opts e a v) = (e, a, canonical_value v)"
  by (simp_all add: assertion_of_def fact_with_valid_time_def eav_key_of_def)

lemma retraction_of_simps [simp]:
  "tx_count (retraction_of tid cnt opts t) = cnt" "\<not> asserted (retraction_of tid cnt opts t)"
  by (cases t; simp add: retraction_of_def fact_retract_with_valid_time_def fact_retract_def Let_def)+

lemma allocate_unsaturated: "fs_tx_counter fs \<noteq> -1 \<Longrightarrow> snd (allocate_tx_count fs) = fs_tx_counter fs + 1"
  by (simp add: allocate_tx_count_def u64_sat_inc_def)

lemma transact_batch_ok:
  assumes "store_inv h fs" "room_for fs (length tuples)"
  shows "\<exists>fs'. transact_batch h now fs tuples opts = (fs', Inr (now, fs_tx_counter fs + 1)) \<and>
    store_inv h fs' \<and> store_facts fs' = store_facts fs @ batch_assertions now fs opts tuples \<and>
    fs_tx_counter fs' = fs_tx_counter fs + 1"
proof -
  let ?facts = "batch_assertions now fs opts tuples"
  have "room_for fs (length ?facts)" using assms(2) by (simp add: batch_assertions_def)
  moreover have "\<forall>f\<in>set ?facts. tx_count f = fs_tx_counter fs + 1"
    by (auto simp: batch_assertions_def)
  ultimately obtain fs' where app: "append_facts h (fst (allocate_tx_count fs)) ?facts = (fs', Inr ())"
    and fs': "store_inv h fs'" "store_facts fs' = store_facts fs @ ?facts" "fs_tx_counter fs' = fs_tx_counter fs + 1"
    using append_facts_ok [OF assms(1)] by blast
  have "transact_batch h now fs tuples opts = (fs', Inr (now, fs_tx_counter fs + 1))"
    using app allocate_unsaturated assms(2)
    by (auto simp: transact_batch_def Let_def case_prod_unfold batch_assertions_def room_for_def)
  with fs' show ?thesis by blast
qed

lemma retract_batch_ok:
  assumes "store_inv h fs" "room_for fs (length tuples)"
  shows "\<exists>fs'. retract_batch h now fs tuples opts = (fs', Inr (now, fs_tx_counter fs + 1)) \<and>
    store_inv h fs' \<and> store_facts fs' = store_facts fs @ batch_retractions now fs opts tuples \<and>
    fs_tx_counter fs' = fs_tx_counter fs + 1"
proof -
  let ?facts = "batch_retractions now fs opts tuples"
  have "room_for fs (length ?facts)" using assms(2) by (simp add: batch_retractions_def)
  moreover have "\<forall>f\<in>set ?facts. tx_count f = fs_tx_counter fs + 1"
    by (auto simp: batch_retractions_def)
  ultimately obtain fs' where app: "append_facts h (fst (allocate_tx_count fs)) ?facts = (fs', Inr ())"
    and fs': "store_inv h fs'" "store_facts fs' = store_facts fs @ ?facts" "fs_tx_counter fs' = fs_tx_counter fs + 1"
    using append_facts_ok [OF assms(1)] by blast
  have "retract_batch h now fs tuples opts = (fs', Inr (now, fs_tx_counter fs + 1))"
    using app allocate_unsaturated assms(2)
    by (auto simp: retract_batch_def Let_def case_prod_unfold batch_retractions_def room_for_def)
  with fs' show ?thesis by blast
qed

section \<open>Writes are append-only and keep every past view\<close>

text \<open>
  C25: a batch of assertions returns the clock value and the next transaction count, appends its
  facts in order after everything stored before, all stamped with that count, and keeps the store
  invariant (the overlay is well formed and no fact is newer than the counter).
\<close>

theorem transact_batch_appends:
  assumes "store_inv h fs" "room_for fs (length tuples)"
  shows "case transact_batch h now fs tuples opts of (fs', r) \<Rightarrow>
    r = Inr (now, fs_tx_counter fs + 1) \<and> store_inv h fs' \<and> fs_tx_counter fs' = fs_tx_counter fs + 1 \<and>
    get_all_facts fs' = Inr (store_facts fs @ map (\<lambda>(e, a, v, o').
      assertion_of now (fs_tx_counter fs + 1) (get_or (get_or no_options opts) o') e a v) tuples)"
  using transact_batch_ok [OF assms, of now opts] by (auto simp: store_inv_def batch_assertions_def)

theorem transact_batch_appends_witness:
  "case transact_batch (\<lambda>_. 0) 1000 fs_new [(1, '':name'', String ''Ann'', None)] None of (fs', r) \<Rightarrow>
    r = Inr (1000, 1) \<and> store_inv (\<lambda>_. 0) fs' \<and> fs_tx_counter fs' = 1 \<and>
    get_all_facts fs' = Inr [fact_with_valid_time 1 '':name'' (String ''Ann'') 1000 1 (I64 1000) i64_MAX]"
proof -
  have "room_for fs_new 1" by (simp add: room_for_def get_pending_facts_def fs_new_def)
  then show ?thesis
    using transact_batch_appends [of "\<lambda>_. 0" fs_new "[(1, '':name'', String ''Ann'', None)]" 1000 None] store_inv_new
    by (simp add: fs_new_def store_facts_def get_all_facts_def assertion_of_def no_options_def
        default_valid_from_def i64_try_from_def VALID_TIME_FOREVER_def)
qed

lemma filter_as_of_append:
  assumes "\<forall>f\<in>set new. n < tx_count f"
  shows "filter_facts_as_of (old @ new) (Counter n) = filter_facts_as_of old (Counter n)"
  using assms by (auto simp: filter_facts_as_of_def filter_empty_conv not_le)

text \<open>
  C10: no write changes a past view: for every transaction count up to the current one, the facts
  visible as of that count, and hence the net-asserted view of them, are the same before and after
  a batch of assertions and before and after a batch of retractions.
\<close>

theorem as_of_views_stable:
  assumes "store_inv h fs" "room_for fs (length tuples)" "n \<le> fs_tx_counter fs"
  shows "filter_facts_as_of (store_facts (fst (transact_batch h now fs tuples opts))) (Counter n) =
      filter_facts_as_of (store_facts fs) (Counter n) \<and>
    filter_facts_as_of (store_facts (fst (retract_batch h now fs tuples opts))) (Counter n) =
      filter_facts_as_of (store_facts fs) (Counter n)"
proof -
  have n: "n < fs_tx_counter fs + 1"
    using assms(2,3) u64_inc_less [of "fs_tx_counter fs"] by (auto simp: room_for_def)
  have "\<forall>f\<in>set (batch_assertions now fs opts tuples). n < tx_count f"
    "\<forall>f\<in>set (batch_retractions now fs opts tuples). n < tx_count f"
    using n by (auto simp: batch_assertions_def batch_retractions_def)
  then show ?thesis
    using transact_batch_ok [OF assms(1,2), of now opts] retract_batch_ok [OF assms(1,2), of now opts]
      filter_as_of_append by auto
qed

theorem as_of_views_stable_witness:
  "filter_facts_as_of (store_facts (fst (retract_batch (\<lambda>_. 0) 5 fs_new [(1, '':a'', Null, None)] None)))
     (Counter 0) = filter_facts_as_of (store_facts fs_new) (Counter 0)"
proof -
  have "room_for fs_new (length [(1 :: uuid, '':a'', Null, None :: transact_options option)])"
    by (simp add: room_for_def get_pending_facts_def fs_new_def)
  then show ?thesis
    using as_of_views_stable [of "\<lambda>_. 0" fs_new "[(1, '':a'', Null, None)]" 0 5 None] store_inv_new
    by (simp add: fs_new_def)
qed

section \<open>Assertions appear, retractions remove\<close>

text \<open>
  C26: after a retraction without valid-time options, no window of the retracted entity, attribute
  and value is visible in the net-asserted view of the store.
\<close>

theorem retract_batch_removes:
  assumes "store_inv h fs" "room_for fs (length tuples)" "(e, a, v, None) \<in> set tuples"
  shows "(e, a, canonical_value v) \<notin>
    eav_key_of ` set (net_asserted_facts (store_facts (fst (retract_batch h now fs tuples None))))"
proof
  assume "(e, a, canonical_value v) \<in>
    eav_key_of ` set (net_asserted_facts (store_facts (fst (retract_batch h now fs tuples None))))"
  then obtain f where key: "eav_key_of f = (e, a, canonical_value v)"
    and mem: "f \<in> set (net_asserted_facts (store_facts (fst (retract_batch h now fs tuples None))))" by auto
  let ?g = "retraction_of now (fs_tx_counter fs + 1) None (e, a, v, None)"
  obtain fs' where fs': "fst (retract_batch h now fs tuples None) = fs'" "store_inv h fs'"
    "store_facts fs' = store_facts fs @ batch_retractions now fs None tuples"
    "fs_tx_counter fs' = fs_tx_counter fs + 1"
    using retract_batch_ok [OF assms(1,2), of now None] by auto
  have g: "?g \<in> set (store_facts fs')"
    using assms(3) by (force simp: fs' batch_retractions_def)
  have "retracts ?g f"
    using key by (simp add: retracts_def retraction_of_def fact_retract_def is_unscoped_def eav_key_of_def)
  obtain i where i: "survives (store_facts fs') i" "store_facts fs' ! i = f"
    using mem by (auto simp: fs'(1) net_asserted_facts_nths set_nths_iff)
  then have "tx_count ?g < tx_count f" using g \<open>retracts ?g f\<close> by (auto simp: survives_def)
  moreover have "tx_count f \<le> fs_tx_counter fs'"
    using i fs'(2) unfolding survives_def first_max_def store_inv_def by (metis nth_mem)
  ultimately show False by (simp add: fs')
qed

lemma pending_le_all: "get_all_facts fs = Inr all \<Longrightarrow> length (get_pending_facts fs) \<le> length all"
  by (auto simp: get_all_facts_def get_pending_facts_def split: if_splits option.splits sum.splits)

lemma one_fact_store:
  obtains fs' where "fst (transact_batch h 5 fs_new [(1, '':a'', Null, None)] None) = fs'" "store_inv h fs'"
    "room_for fs' 1" "fs_tx_counter fs' = 1"
    "store_facts fs' = [fact_with_valid_time 1 '':a'' Null 5 1 (I64 5) i64_MAX]"
proof -
  have room: "room_for fs_new (length [(1 :: uuid, '':a'', Null, None :: transact_options option)])"
    by (simp add: room_for_def get_pending_facts_def fs_new_def)
  obtain fs' where fs': "transact_batch h 5 fs_new [(1, '':a'', Null, None)] None = (fs', Inr (5, fs_tx_counter fs_new + 1))"
    "store_inv h fs'" "fs_tx_counter fs' = fs_tx_counter fs_new + 1"
    "store_facts fs' = store_facts fs_new @ batch_assertions 5 fs_new None [(1, '':a'', Null, None)]"
    using transact_batch_ok [OF store_inv_new room] by blast
  have facts: "store_facts fs' = [fact_with_valid_time 1 '':a'' Null 5 1 (I64 5) i64_MAX]"
    unfolding fs'(4) by (simp add: batch_assertions_def store_facts_def get_all_facts_def fs_new_def
        assertion_of_def no_options_def default_valid_from_def i64_try_from_def VALID_TIME_FOREVER_def)
  have cnt: "fs_tx_counter fs' = 1" unfolding fs'(3) by (simp add: fs_new_def)
  have "length (get_pending_facts fs') \<le> length (store_facts fs')"
    using fs'(2) pending_le_all by (simp add: store_inv_def)
  then have "room_for fs' 1" using facts cnt by (simp add: room_for_def)
  then show ?thesis using fs' facts cnt by (intro that [of fs']) auto
qed

theorem retract_batch_removes_witness:
  "let fs = fst (transact_batch (\<lambda>_. 0) 5 fs_new [(1, '':a'', Null, None)] None) in
   eav_key_of ` set (store_facts fs) = {(1, '':a'', Null)} \<and>
   (1, '':a'', Null) \<notin> eav_key_of ` set (net_asserted_facts (store_facts
     (fst (retract_batch (\<lambda>_. 0) 6 fs [(1, '':a'', Null, None)] None))))"
proof -
  obtain fs where fs: "fst (transact_batch (\<lambda>_. 0) 5 fs_new [(1, '':a'', Null, None)] None) = fs"
    "store_inv (\<lambda>_. 0) fs" "room_for fs 1" "fs_tx_counter fs = 1"
    "store_facts fs = [fact_with_valid_time 1 '':a'' Null 5 1 (I64 5) i64_MAX]" by (rule one_fact_store)
  then show ?thesis
    using retract_batch_removes [OF fs(2), of "[(1, '':a'', Null, None)]" 1 "'':a''" Null 6]
    by (simp add: Let_def eav_key_of_def fact_with_valid_time_def)
qed

text \<open>
  A batch of assertions makes each of its facts visible: the net-asserted view of the store
  afterwards has a fact with that entity, attribute, value and validity window, at the new count.
\<close>

theorem transact_batch_visible:
  assumes "store_inv h fs" "room_for fs (length tuples)" "f \<in> set (batch_assertions now fs opts tuples)"
  shows "(window_key_of f, fs_tx_counter fs + 1) \<in>
    visible_windows (store_facts (fst (transact_batch h now fs tuples opts)))"
proof -
  obtain fs' where fs': "fst (transact_batch h now fs tuples opts) = fs'" "store_inv h fs'"
    "store_facts fs' = store_facts fs @ batch_assertions now fs opts tuples"
    "fs_tx_counter fs' = fs_tx_counter fs + 1"
    using transact_batch_ok [OF assms(1,2), of now opts] by auto
  have f: "asserted f" "tx_count f = fs_tx_counter fs + 1"
    using assms(3) by (auto simp: batch_assertions_def)
  have new: "asserted g" if "g \<in> set (batch_assertions now fs opts tuples)" for g
    using that by (auto simp: batch_assertions_def)
  have lt: "fs_tx_counter fs < fs_tx_counter fs + 1"
    using assms(2) u64_inc_less by (simp add: room_for_def)
  have "tx_count g \<le> fs_tx_counter fs" if "g \<in> set (store_facts fs)" for g
    using that assms(1) by (simp add: store_inv_def)
  then have "tx_count g < fs_tx_counter fs + 1" if "g \<in> set (store_facts fs')" "retracts g f" for g
    using that new lt by (force simp: fs' retracts_def)
  moreover have "tx_count g \<le> fs_tx_counter fs + 1" if "g \<in> set (store_facts fs')" for g
    using that fs'(2,4) by (simp add: store_inv_def)
  moreover have "0 < fs_tx_counter fs + 1" using lt by (metis word_gt_0 word_not_simps(1))
  ultimately show ?thesis
    unfolding fs'(1) visible_windows_iff using f assms(3) by (auto simp: fs'(3) intro!: bexI [of _ f])
qed

theorem transact_batch_visible_witness:
  "(window_key_of (fact_with_valid_time 1 '':a'' Null 5 1 (I64 5) i64_MAX), 1) \<in>
   visible_windows (store_facts (fst (transact_batch (\<lambda>_. 0) 5 fs_new [(1, '':a'', Null, None)] None)))"
proof -
  have room: "room_for fs_new (length [(1 :: uuid, '':a'', Null, None :: transact_options option)])"
    by (simp add: room_for_def get_pending_facts_def fs_new_def)
  have mem: "fact_with_valid_time 1 '':a'' Null 5 1 (I64 5) i64_MAX \<in>
      set (batch_assertions 5 fs_new None [(1, '':a'', Null, None)])"
    by (simp add: batch_assertions_def fs_new_def assertion_of_def no_options_def default_valid_from_def
        i64_try_from_def VALID_TIME_FOREVER_def)
  have "fs_tx_counter fs_new + 1 = 1" by (simp add: fs_new_def)
  then show ?thesis
    using transact_batch_visible [OF store_inv_new room mem, of "\<lambda>_. 0"] by simp
qed

section \<open>Replaying a fact twice\<close>

lemma identities_of_records:
  "overlay_inv h ov \<Longrightarrow> record_identity ` set (ov_records ov) = fact_identity ` set (overlay_facts ov)"
proof -
  assume "overlay_inv h ov"
  then have "record_identity r = fact_identity (record_to_fact r)" if "r \<in> set (ov_records ov)" for r
    using that by (auto simp: overlay_inv_def buckets_inv_def record_identity_def fact_identity_def record_to_fact_def)
  then show ?thesis by (auto simp: overlay_facts_def image_image)
qed

lemma load_fact_ok:
  assumes inv: "overlay_inv h (fs_pending fs)" and up: "\<not> fs_poisoned fs"
    and room: "length (get_pending_facts fs) < 2 ^ 32 \<or> fact_identity f \<in> fact_identity ` set (get_pending_facts fs)"
  shows "\<exists>fs1. load_fact h fs f = (fs1, Inr (fact_identity f \<notin> fact_identity ` set (get_pending_facts fs))) \<and>
    overlay_inv h (fs_pending fs1) \<and> \<not> fs_poisoned fs1 \<and>
    get_pending_facts fs1 = get_pending_facts fs @
      (if fact_identity f \<in> fact_identity ` set (get_pending_facts fs) then [] else [f]) \<and>
    fs_generation fs1 = (if fact_identity f \<in> fact_identity ` set (get_pending_facts fs)
      then fs_generation fs else u64_sat_inc (fs_generation fs))"
proof -
  let ?ov = "fs_pending fs"
  let ?new = "if fact_identity f \<in> fact_identity ` set (get_pending_facts fs) then [] else [f]"
  have acc: "accepted True ?ov [f] = ?new"
    by (simp add: accepted_def identities_of_records [OF inv] get_pending_facts_def)
  have "length (ov_records ?ov) \<le> 2 ^ 32" using inv by (rule overlay_inv_len)
  then have "length (ov_records ?ov) + length (accepted True ?ov [f]) \<le> 2 ^ 32"
    unfolding acc using room by (auto simp: get_pending_facts_def overlay_facts_def)
  from insert_batch_ok [OF inv this] obtain ov' where
    ins: "insert_batch h ?ov [f] True = (ov', Inr (length ?new))" and inv': "overlay_inv h ov'"
    and recs: "overlay_facts ov' = overlay_facts ?ov @ ?new"
    unfolding acc by (auto simp: overlay_facts_def o_def)
  then show ?thesis
    using up by (auto simp: load_fact_def get_pending_facts_def bump_generation_def)
qed

lemma load_fact_seen:
  assumes "overlay_inv h (fs_pending fs)" "\<not> fs_poisoned fs"
    "fact_identity f \<in> fact_identity ` set (get_pending_facts fs)"
  shows "\<exists>fs2. load_fact h fs f = (fs2, Inr False) \<and> get_pending_facts fs2 = get_pending_facts fs \<and>
    fs_generation fs2 = fs_generation fs"
  using load_fact_ok [OF assms(1,2), of f] assms(3) by auto

text \<open>
  Loading a fact is idempotent: the first load stores it exactly when its identity is not
  pending yet and says so, a second load changes neither the facts nor the publication generation
  and answers \<open>false\<close>.
\<close>

theorem load_fact_idempotent:
  assumes "overlay_inv h (fs_pending fs)" "\<not> fs_poisoned fs" "length (get_pending_facts fs) < 2 ^ 32"
  shows "case load_fact h fs f of (fs1, r1) \<Rightarrow>
    r1 = Inr (fact_identity f \<notin> fact_identity ` set (get_pending_facts fs)) \<and>
    get_pending_facts fs1 = get_pending_facts fs @
      (if fact_identity f \<in> fact_identity ` set (get_pending_facts fs) then [] else [f]) \<and>
    (case load_fact h fs1 f of (fs2, r2) \<Rightarrow> r2 = Inr False \<and>
       get_pending_facts fs2 = get_pending_facts fs1 \<and> fs_generation fs2 = fs_generation fs1)"
proof -
  obtain fs1 where l1: "load_fact h fs f =
      (fs1, Inr (fact_identity f \<notin> fact_identity ` set (get_pending_facts fs)))"
    and fs1: "overlay_inv h (fs_pending fs1)" "\<not> fs_poisoned fs1"
      "get_pending_facts fs1 = get_pending_facts fs @
        (if fact_identity f \<in> fact_identity ` set (get_pending_facts fs) then [] else [f])"
    using load_fact_ok [OF assms(1,2), of f] assms(3) by blast
  have seen: "fact_identity f \<in> fact_identity ` set (get_pending_facts fs1)"
    unfolding fs1(3) by auto
  obtain fs2 where l2: "load_fact h fs1 f = (fs2, Inr False)" "get_pending_facts fs2 = get_pending_facts fs1"
      "fs_generation fs2 = fs_generation fs1"
    using load_fact_seen [OF fs1(1,2) seen] by blast
  show ?thesis unfolding l1 using fs1(3) l2 by simp
qed

theorem load_fact_idempotent_witness:
  "let f = fact_new 1 '':a'' Null 5 in
   case load_fact (\<lambda>_. 0) fs_new f of (fs1, r1) \<Rightarrow> r1 = Inr True \<and> get_pending_facts fs1 = [f] \<and>
     (case load_fact (\<lambda>_. 0) fs1 f of (fs2, r2) \<Rightarrow> r2 = Inr False \<and> get_pending_facts fs2 = [f])"
proof -
  have "overlay_inv (\<lambda>_. 0) (fs_pending fs_new)" "\<not> fs_poisoned fs_new" "get_pending_facts fs_new = []"
    by (simp_all add: fs_new_def overlay_inv_new get_pending_facts_def)
  then show ?thesis
    using load_fact_idempotent [of "\<lambda>_. 0" fs_new "fact_new 1 '':a'' Null 5"]
    by (simp add: Let_def case_prod_unfold)
qed

section \<open>Lookups\<close>

lemma visit_each_push:
  "(\<And>x. x \<in> set xs \<Longrightarrow> g x = Inr (k x)) \<Longrightarrow>
    visit_each (push_result g) xs acc = Inr (acc @ map k xs)"
  by (induction xs arbitrary: acc) (auto simp: push_result_def)

lemma pending_fact_ok:
  "overlay_inv h (fs_pending fs) \<Longrightarrow> i \<in> set (overlay_ids (fs_pending fs)) \<Longrightarrow>
    pending_fact fs i = Inr (record_to_fact (ov_records (fs_pending fs) ! id_index i))"
  using overlay_ids_index [of "fs_pending fs" i] overlay_inv_len
  by (auto simp: pending_fact_def overlay_get_def list_get_def)

lemma entity_bound_le: "entity_bound e \<le> k \<longleftrightarrow> e \<le> ek_entity k"
proof (cases k)
  case (EavtKey e' a vf vt c vb t b)
  have "([] :: attribute, i64_MIN, i64_MIN, 0 :: u64, [] :: bytes, 0 :: u64, False) \<le> (a, vf, vt, c, vb, t, b)"
    by (auto intro!: key_bounds)
  then show ?thesis
    by (auto simp: EavtKey entity_bound_def less_eq_eavt_key_def less_eq_prod_def [of "(e, _)"])
qed

lemma attribute_bound_le: "attribute_bound a \<le> k \<longleftrightarrow> a \<le> ak_attribute k"
proof (cases k)
  case (AevtKey a' e vf vt c vb t b)
  have "(0 :: uuid, i64_MIN, i64_MIN, 0 :: u64, [] :: bytes, 0 :: u64, False) \<le> (e, vf, vt, c, vb, t, b)"
    by (auto intro!: key_bounds)
  then show ?thesis
    by (auto simp: AevtKey attribute_bound_def less_eq_aevt_key_def less_eq_prod_def [of "(a, _)"])
qed

lemma uuid_inc_less_iff: "e \<noteq> max_uuid \<Longrightarrow> u < e + 1 \<longleftrightarrow> u \<le> e"
proof -
  assume "e \<noteq> max_uuid"
  then have "1 + e \<noteq> 0" unfolding max_uuid_eq by (metis add.commute add_eq_0_iff)
  then have "unat (1 + e) = Suc (unat e)" by (rule unatSuc)
  then show ?thesis by (simp add: word_less_nat_alt word_le_nat_alt add.commute less_Suc_eq_le)
qed

lemma entity_bounds_iff:
  assumes "e \<noteq> max_uuid"
  shows "entity_bound e \<le> k \<and> k < entity_bound (e + 1) \<longleftrightarrow> ek_entity k = e"
proof -
  have "k < entity_bound (e + 1) \<longleftrightarrow> ek_entity k \<le> e"
    using entity_bound_le [of "e + 1" k] uuid_inc_less_iff [OF assms, of "ek_entity k"]
    by (simp add: linorder_not_le [symmetric])
  then show ?thesis using entity_bound_le [of e k] by auto
qed

text \<open>What the lookups need of the committed side: with an index reader, every EAVT scan answers
  with references that resolve to exactly the committed facts in the range; without one, there are
  no committed facts.\<close>

definition eavt_reader_ok :: "fact_store \<Rightarrow> fact set \<Rightarrow> bool" where
  "eavt_reader_ok fs committed \<longleftrightarrow> (case fs_index_reader fs of
     None \<Rightarrow> fs_committed fs = None \<and> committed = {}
   | Some reader \<Rightarrow> (\<forall>start stop. \<exists>refs k. ci_range_scan_eavt reader start (Some stop) = Inr refs \<and>
       (\<forall>r\<in>set refs. resolve_fact_ref fs r = Inr (k r)) \<and>
       k ` set refs = {f \<in> committed. start \<le> eavt_key_of f \<and> eavt_key_of f < stop}))"

lemma record_eavt_key_fact:
  "overlay_inv h ov \<Longrightarrow> r \<in> set (ov_records ov) \<Longrightarrow> record_eavt_key r = eavt_key_of (record_to_fact r)"
  by (auto simp: overlay_inv_def buckets_inv_def record_eavt_key_def eavt_key_of_def record_to_fact_def)

lemma image_Collect_cond: "k ` {i \<in> A. P (k i)} = {f \<in> k ` A. P f}"
  by auto

lemma pending_entity_scan:
  assumes inv: "overlay_inv h (fs_pending fs)"
  shows "\<exists>facts. visit_each (push_result (pending_fact fs)) (range_eavt (fs_pending fs) start stop) [] = Inr facts \<and>
    set facts = {f \<in> set (get_pending_facts fs). start \<le> eavt_key_of f \<and> eavt_key_of f < stop}"
proof -
  let ?ov = "fs_pending fs"
  let ?k = "\<lambda>i. record_to_fact (ov_records ?ov ! id_index i)"
  have len: "length (ov_records ?ov) \<le> 2 ^ 32" using inv by (rule overlay_inv_len)
  have rng: "set (range_eavt ?ov start stop) = {i \<in> set (overlay_ids ?ov).
      start \<le> record_eavt_key (ov_records ?ov ! id_index i) \<and> record_eavt_key (ov_records ?ov ! id_index i) < stop}"
    unfolding range_eavt_sorted(2) [OF inv] by auto
  have v: "visit_each (push_result (pending_fact fs)) (range_eavt ?ov start stop) [] =
      Inr ([] @ map ?k (range_eavt ?ov start stop))"
    by (rule visit_each_push) (use rng pending_fact_ok [OF inv] in auto)
  have key: "record_eavt_key (ov_records ?ov ! id_index i) = eavt_key_of (?k i)" if "i \<in> set (overlay_ids ?ov)" for i
    using record_eavt_key_fact [OF inv] overlay_ids_index [OF len that] by simp
  have "?k ` set (overlay_ids ?ov) = set (get_pending_facts fs)"
  proof -
    have "?k ` set (overlay_ids ?ov) = record_to_fact ` (\<lambda>i. ov_records ?ov ! id_index i) ` set (overlay_ids ?ov)"
      by (simp add: image_image)
    then show ?thesis unfolding overlay_ids_nth [OF len] by (simp add: get_pending_facts_def overlay_facts_def)
  qed
  moreover have "set (range_eavt ?ov start stop) =
      {i \<in> set (overlay_ids ?ov). start \<le> eavt_key_of (?k i) \<and> eavt_key_of (?k i) < stop}"
    unfolding rng using key by auto
  ultimately have "?k ` set (range_eavt ?ov start stop) =
      {f \<in> set (get_pending_facts fs). start \<le> eavt_key_of f \<and> eavt_key_of f < stop}"
    using image_Collect_cond [of ?k "set (overlay_ids ?ov)" "\<lambda>f. start \<le> eavt_key_of f \<and> eavt_key_of f < stop"] by simp
  with v show ?thesis by simp
qed

lemma set_sort_refs [simp]: "set (sort_refs refs) = set refs"
  by (simp add: sort_refs_def)

lemma get_facts_by_entity_range:
  assumes inv: "overlay_inv h (fs_pending fs)" and rd: "eavt_reader_ok fs committed"
    and ne: "get_pending_facts fs \<noteq> [] \<or> fs_index_reader fs \<noteq> None"
  shows "\<exists>facts. get_facts_by_entity fs e = Inr facts \<and>
    set facts = {f \<in> set (get_pending_facts fs) \<union> committed.
      entity_bound e \<le> eavt_key_of f \<and> eavt_key_of f < entity_bound (e + 1)}"
proof -
  obtain facts where facts: "visit_each (push_result (pending_fact fs))
      (range_eavt (fs_pending fs) (entity_bound e) (entity_bound (e + 1))) [] = Inr facts"
    "set facts = {f \<in> set (get_pending_facts fs). entity_bound e \<le> eavt_key_of f \<and> eavt_key_of f < entity_bound (e + 1)}"
    using pending_entity_scan [OF inv] by blast
  have cond: "\<not> (ov_records (fs_pending fs) = [] \<and> fs_index_reader fs = None)"
    using ne by (auto simp: get_pending_facts_def overlay_facts_def)
  show ?thesis
  proof (cases "fs_index_reader fs")
    case None
    then have "get_facts_by_entity fs e = Inr facts" "committed = {}"
      using cond facts(1) rd by (simp_all add: get_facts_by_entity_def Let_def eavt_reader_ok_def)
    then show ?thesis using facts(2) by simp
  next
    case (Some reader)
    then have "\<exists>refs k. ci_range_scan_eavt reader start (Some stop) = Inr refs \<and>
        (\<forall>r\<in>set refs. resolve_fact_ref fs r = Inr (k r)) \<and>
        k ` set refs = {f \<in> committed. start \<le> eavt_key_of f \<and> eavt_key_of f < stop}" for start stop
      using rd by (simp add: eavt_reader_ok_def)
    then obtain refs k where scan: "ci_range_scan_eavt reader (entity_bound e) (Some (entity_bound (e + 1))) = Inr refs"
      "\<forall>r\<in>set refs. resolve_fact_ref fs r = Inr (k r)"
      "k ` set refs = {f \<in> committed. entity_bound e \<le> eavt_key_of f \<and> eavt_key_of f < entity_bound (e + 1)}"
      by blast
    have "visit_each (push_result (resolve_fact_ref fs)) (sort_refs refs) facts = Inr (facts @ map k (sort_refs refs))"
      by (rule visit_each_push) (simp add: scan)
    moreover have "set (facts @ map k (sort_refs refs)) = {f \<in> set (get_pending_facts fs) \<union> committed.
      entity_bound e \<le> eavt_key_of f \<and> eavt_key_of f < entity_bound (e + 1)}"
      using facts(2) scan(3) by auto
    moreover have "get_facts_by_entity fs e =
        visit_each (push_result (resolve_fact_ref fs)) (sort_refs refs) facts"
      using Some by (simp add: get_facts_by_entity_def Let_def facts(1) scan(1))
    ultimately show ?thesis by simp
  qed
qed


text \<open>A store with one committed fact behind its readers.\<close>

definition one_committed :: "fact \<Rightarrow> fact_store" where
  "one_committed g = fs_new\<lparr>
     fs_committed := Some \<lparr> cf_resolve = (\<lambda>_. Inr g), cf_stream_all = Inr [g] \<rparr>,
     fs_index_reader := Some
       \<lparr> ci_range_scan_eavt = (\<lambda>start stop. Inr (if start \<le> eavt_key_of g \<and>
            (case stop of None \<Rightarrow> True | Some k \<Rightarrow> eavt_key_of g < k) then [FactRef 1 0] else [])),
         ci_range_scan_aevt = (\<lambda>start stop. Inr []),
         ci_visit_eavt = (\<lambda>start stop. Inr []), ci_visit_aevt = (\<lambda>start stop. Inr []) \<rparr> \<rparr>"

lemma one_committed_ok: "eavt_reader_ok (one_committed g) {g}"
proof -
  have "\<exists>refs k. ci_range_scan_eavt (the (fs_index_reader (one_committed g))) start (Some stop) = Inr refs \<and>
      (\<forall>r\<in>set refs. resolve_fact_ref (one_committed g) r = Inr (k r)) \<and>
      k ` set refs = {f \<in> {g}. start \<le> eavt_key_of f \<and> eavt_key_of f < stop}" for start stop
    by (intro exI [of _ "if start \<le> eavt_key_of g \<and> eavt_key_of g < stop then [FactRef 1 0] else []"]
        exI [of _ "\<lambda>_. g"]) (auto simp: one_committed_def resolve_fact_ref_def)
  then show ?thesis by (simp add: eavt_reader_ok_def one_committed_def)
qed


text \<open>
  For the largest UUID the exclusive upper bound wraps around to the nil UUID, the range is
  empty, and facts that are stored about that entity are not returned.
\<close>

theorem get_facts_by_max_entity_empty:
  assumes "overlay_inv h (fs_pending fs)" "eavt_reader_ok fs committed"
    "f \<in> set (get_pending_facts fs)" "entity f = max_uuid"
  shows "get_facts_by_entity fs max_uuid = Inr []"
proof -
  have "get_pending_facts fs \<noteq> []" using assms(3) by auto
  then obtain facts where facts: "get_facts_by_entity fs max_uuid = Inr facts"
    "set facts = {f \<in> set (get_pending_facts fs) \<union> committed.
      entity_bound max_uuid \<le> eavt_key_of f \<and> eavt_key_of f < entity_bound (max_uuid + 1)}"
    using get_facts_by_entity_range [OF assms(1,2), of max_uuid] by blast
  have "max_uuid + 1 = 0" by (simp add: max_uuid_eq)
  moreover have "entity_bound 0 \<le> k" for k by (simp add: entity_bound_le)
  ultimately have "set facts = {}" unfolding facts(2) by (auto simp: not_less)
  then show ?thesis using facts(1) by simp
qed

lemma loaded_store:
  obtains fs where "load_fact h fs_new f = (fs, Inr True)" "overlay_inv h (fs_pending fs)"
    "get_pending_facts fs = [f]" "fs_index_reader fs = None" "fs_committed fs = None" "\<not> fs_poisoned fs"
proof -
  have new: "overlay_inv h (fs_pending fs_new)" "\<not> fs_poisoned fs_new" "get_pending_facts fs_new = []"
    by (simp_all add: fs_new_def overlay_inv_new get_pending_facts_def)
  obtain fs where fs: "load_fact h fs_new f = (fs, Inr True)" "overlay_inv h (fs_pending fs)"
    "get_pending_facts fs = [f]" "\<not> fs_poisoned fs"
    using load_fact_ok [OF new(1,2), of f] new(3) by auto
  have "fs_index_reader fs = None \<and> fs_committed fs = None"
    using fs(1) by (auto simp: load_fact_def fs_new_def bump_generation_def split: prod.splits sum.splits if_splits)
  with fs that show ?thesis by blast
qed

theorem get_facts_by_max_entity_empty_witness:
  "let f = fact_new max_uuid '':a'' Null 5; fs = fst (load_fact (\<lambda>_. 0) fs_new f) in
   get_pending_facts fs = [f] \<and> get_facts_by_entity fs max_uuid = Inr []"
proof -
  let ?f = "fact_new max_uuid '':a'' Null 5"
  obtain fs where fs: "load_fact (\<lambda>_. 0) fs_new ?f = (fs, Inr True)" "overlay_inv (\<lambda>_. 0) (fs_pending fs)"
    "get_pending_facts fs = [?f]" "fs_index_reader fs = None" "fs_committed fs = None" by (rule loaded_store)
  have "eavt_reader_ok fs {}" using fs(4,5) by (simp add: eavt_reader_ok_def)
  moreover have "entity ?f = max_uuid" by (simp add: fact_new_def)
  ultimately have "get_facts_by_entity fs max_uuid = Inr []"
    using get_facts_by_max_entity_empty [OF fs(2), of "{}" ?f] fs(3) by simp
  with fs(1,3) show ?thesis by (simp add: Let_def)
qed

section \<open>Attribute lookups and prefixes\<close>

lemma next_prefix_rev_greater: "next_prefix_rev (rev xs) = Some bs \<Longrightarrow> xs @ ys < bs"
proof (induction xs arbitrary: ys rule: rev_induct)
  case (snoc x xs)
  show ?case
  proof (cases "x < 0xFF")
    case True
    have "unat x < 255" using True by (simp add: word_less_nat_alt)
    then have "unat (1 + x) = Suc (unat x)" by (simp add: unat_word_ariths)
    then have "x < x + 1" by (simp add: word_less_nat_alt add.commute)
    moreover have "bs = xs @ [x + 1]" using snoc.prems True by simp
    ultimately show ?thesis by (simp add: less_append_same_length)
  next
    case False
    then show ?thesis using snoc.IH [of "x # ys"] snoc.prems by simp
  qed
qed simp

lemma next_string_prefix_greater:
  assumes "next_string_prefix a = Some b"
  shows "a @ s < b"
proof -
  obtain bs where bs: "next_prefix_rev (rev (as_bytes a)) = Some bs" "b = of_bytes bs"
    using assms by (auto simp: next_string_prefix_def split: option.splits if_splits)
  then have "as_bytes (a @ s) < as_bytes b"
    using next_prefix_rev_greater [OF bs(1), of "as_bytes s"] by (simp del: as_bytes_less_iff)
  then show ?thesis by (simp only: as_bytes_less_iff)
qed

lemma prefix_le: "a \<le> a @ (s :: string)"
  by (induction a) simp_all

lemma pending_attribute_scan:
  assumes inv: "overlay_inv h (fs_pending fs)"
  shows "\<exists>facts. visit_each (push_result (pending_fact fs)) (range_aevt (fs_pending fs) (attribute_bound a) (attribute_stop a)) [] = Inr facts \<and>
    set facts = {f \<in> set (get_pending_facts fs). a \<le> attr f \<and>
      (case next_string_prefix a of None \<Rightarrow> True | Some b \<Rightarrow> attr f < b)}"
proof -
  let ?ov = "fs_pending fs"
  let ?k = "\<lambda>i. record_to_fact (ov_records ?ov ! id_index i)"
  let ?P = "\<lambda>f. a \<le> attr f \<and> (case next_string_prefix a of None \<Rightarrow> True | Some b \<Rightarrow> attr f < b)"
  have len: "length (ov_records ?ov) \<le> 2 ^ 32" using inv by (rule overlay_inv_len)
  have at: "ak_attribute (record_aevt_key r) = attr (record_to_fact r)" for r
    by (simp add: record_aevt_key_def record_to_fact_def)
  have rng: "set (range_aevt ?ov (attribute_bound a) (attribute_stop a)) = {i \<in> set (overlay_ids ?ov). ?P (?k i)}"
    unfolding range_aevt_sorted [OF inv] attribute_stop_def
    by (auto simp: attribute_bound_le at not_le [symmetric] split: option.splits)
  have v: "visit_each (push_result (pending_fact fs)) (range_aevt ?ov (attribute_bound a) (attribute_stop a)) [] =
      Inr ([] @ map ?k (range_aevt ?ov (attribute_bound a) (attribute_stop a)))"
    by (rule visit_each_push) (use rng pending_fact_ok [OF inv] in auto)
  have "?k ` set (overlay_ids ?ov) = record_to_fact ` (\<lambda>i. ov_records ?ov ! id_index i) ` set (overlay_ids ?ov)"
    by (simp add: image_image)
  also have "\<dots> = set (get_pending_facts fs)"
    unfolding overlay_ids_nth [OF len] by (simp add: get_pending_facts_def overlay_facts_def)
  finally have "?k ` set (range_aevt ?ov (attribute_bound a) (attribute_stop a)) = {f \<in> set (get_pending_facts fs). ?P f}"
    unfolding rng using image_Collect_cond [of ?k "set (overlay_ids ?ov)" ?P] by simp
  with v show ?thesis by simp
qed

text \<open>
  An attribute lookup over pending facts is a prefix lookup: besides the facts of the attribute
  it returns every pending fact whose attribute merely begins with it, unlike the committed side,
  which is filtered by attribute.
\<close>

theorem attribute_lookup_returns_prefixes:
  assumes "overlay_inv h (fs_pending fs)" "fs_index_reader fs = None"
    "f \<in> set (get_pending_facts fs)" "attr f = a @ s"
  shows "\<exists>facts. get_facts_by_attribute fs a = Inr facts \<and> f \<in> set facts"
proof -
  obtain facts where facts: "visit_each (push_result (pending_fact fs))
      (range_aevt (fs_pending fs) (attribute_bound a) (attribute_stop a)) [] = Inr facts"
    "set facts = {f \<in> set (get_pending_facts fs). a \<le> attr f \<and>
      (case next_string_prefix a of None \<Rightarrow> True | Some b \<Rightarrow> attr f < b)}"
    using pending_attribute_scan [OF assms(1)] by blast
  have "ov_records (fs_pending fs) \<noteq> []"
    using assms(3) by (auto simp: get_pending_facts_def overlay_facts_def)
  then have "get_facts_by_attribute fs a = Inr facts"
    using facts(1) assms(2) by (simp add: get_facts_by_attribute_def Let_def)
  moreover have "f \<in> set facts"
    unfolding facts(2) using assms(3,4) prefix_le next_string_prefix_greater by (auto split: option.splits)
  ultimately show ?thesis by blast
qed

theorem attribute_lookup_returns_prefixes_witness:
  "let f = fact_new 1 '':name2'' Null 5; fs = fst (load_fact (\<lambda>_. 0) fs_new f) in
   \<exists>facts. get_facts_by_attribute fs '':name'' = Inr facts \<and> f \<in> set facts"
proof -
  let ?f = "fact_new 1 '':name2'' Null 5"
  obtain fs where fs: "load_fact (\<lambda>_. 0) fs_new ?f = (fs, Inr True)" "overlay_inv (\<lambda>_. 0) (fs_pending fs)"
    "get_pending_facts fs = [?f]" "fs_index_reader fs = None" by (rule loaded_store)
  have "attr ?f = '':name'' @ ''2''" by (simp add: fact_new_def)
  then show ?thesis
    using attribute_lookup_returns_prefixes [OF fs(2,4), of ?f "'':name''" "''2''"] fs(1,3) by (simp add: Let_def)
qed

end
