(* ===== verification/Packed_Pages.thy ===== *)
theory Packed_Pages
  imports Index_Keys Storage_Backends
begin

text \<open>
  Packed fact pages (\<open>src/src/storage/packed_pages.rs\<close>): serialised facts are written from the end
  of a page backwards, a directory of offset and length entries grows from the front.  Serialisation
  (\<open>postcard\<close>) is the pair of parameters \<open>ser\<close> and \<open>de\<close>.  The lemmas show that packing never loses or
  moves a fact: every returned reference reads back its fact, and a full scan gives the facts in order.
\<close>

section \<open>Definitions\<close>

definition PAGE_TYPE_PACKED :: u8 where "PAGE_TYPE_PACKED = 2"
definition PACKED_HEADER_SIZE :: nat where "PACKED_HEADER_SIZE = 12"
definition MAX_FACT_BYTES :: nat where "MAX_FACT_BYTES = PAGE_SIZE - PACKED_HEADER_SIZE - 4"

datatype packed_error = FactNotSerialisable | FactTooLarge nat | PackedPageCountOverflow
  | PackedRegionOutOfBounds nat nat | OffsetOverflowsU16 nat | PackedPageIdOverflow | PackedPageTooShort nat
  | NotPackedPage u8 | SlotOutOfBounds u16 u16 | DirectoryOutOfBounds u16 | RecordBeyondPage u16
  | FactNotDecodable | PackedBackend backend_error | FactPageLength u64 nat | FactPageType u64 u8
  | VisitorError nat

record packer =
  pk_start_page_id :: u64
  pk_completed_page_count :: u64
  pk_pages :: "bytes list"
  pk_current_page :: bytes
  pk_current_record_count :: u16
  pk_dir_offset :: nat
  pk_data_offset :: nat

definition new_packed_page :: bytes where
  "new_packed_page = (replicate PAGE_SIZE 0)[0 := PAGE_TYPE_PACKED]"

definition write_record_count :: "bytes \<Rightarrow> u16 \<Rightarrow> bytes" where
  "write_record_count page n =
     (case slice_get page 2 4 of None \<Rightarrow> page | Some _ \<Rightarrow> put_slice page 2 (u16_to_le_bytes n))"

definition packer_new :: "u64 \<Rightarrow> packer" where
  "packer_new start = \<lparr> pk_start_page_id = start, pk_completed_page_count = 0, pk_pages = [],
     pk_current_page = new_packed_page, pk_current_record_count = 0,
     pk_dir_offset = PACKED_HEADER_SIZE, pk_data_offset = PAGE_SIZE \<rparr>"

text \<open>\<open>page.get_mut(i..i + xs.len()).ok_or_else(..)?.copy_from_slice(xs)\<close>.\<close>

definition copy_into :: "bytes \<Rightarrow> nat \<Rightarrow> bytes \<Rightarrow> packed_error + bytes" where
  "copy_into page i xs =
     (case slice_get page i (i + length xs) of
        None \<Rightarrow> Inl (PackedRegionOutOfBounds i (i + length xs))
      | Some _ \<Rightarrow> Inr (put_slice page i xs))"

definition packer_flush :: "packer \<Rightarrow> packed_error + packer" where
  "packer_flush p =
     res_bind (ok_or PackedPageCountOverflow (u64_checked_add (pk_completed_page_count p) 1)) (\<lambda>n.
       Inr (p\<lparr> pk_pages := pk_pages p @ [write_record_count (pk_current_page p) (pk_current_record_count p)],
               pk_current_page := new_packed_page, pk_completed_page_count := n,
               pk_current_record_count := 0, pk_dir_offset := PACKED_HEADER_SIZE,
               pk_data_offset := PAGE_SIZE \<rparr>))"

definition u16_try_from :: "nat \<Rightarrow> u16 option" where
  "u16_try_from n = (if n < 2 ^ 16 then Some (of_nat n) else None)"

definition usize_wrapping_sub :: "nat \<Rightarrow> nat \<Rightarrow> nat" where
  "usize_wrapping_sub a b = (if b \<le> a then a - b else 2 ^ 64 + a - b)"

definition packer_place :: "packer \<Rightarrow> bytes \<Rightarrow> packed_error + packer \<times> fact_ref" where
  "packer_place p serialised =
     (let len = length serialised; data = usize_wrapping_sub (pk_data_offset p) len; dir = pk_dir_offset p in
     res_bind (copy_into (pk_current_page p) data serialised) (\<lambda>page1.
     res_bind (ok_or (OffsetOverflowsU16 data) (u16_try_from data)) (\<lambda>offset_u16.
     res_bind (ok_or (FactTooLarge len) (u16_try_from len)) (\<lambda>len_u16.
     res_bind (copy_into page1 dir (u16_to_le_bytes offset_u16)) (\<lambda>page2.
     res_bind (copy_into page2 (dir + 2) (u16_to_le_bytes len_u16)) (\<lambda>page3.
     res_bind (ok_or PackedPageIdOverflow
       (u64_checked_add (pk_start_page_id p) (pk_completed_page_count p))) (\<lambda>page_id.
       Inr (p\<lparr> pk_current_page := page3, pk_data_offset := data, pk_dir_offset := dir + 4,
               pk_current_record_count := (if pk_current_record_count p = - 1 then - 1 else pk_current_record_count p + 1) \<rparr>,
            FactRef page_id (pk_current_record_count p)))))))))"

definition packer_push :: "(fact \<Rightarrow> bytes option) \<Rightarrow> packer \<Rightarrow> fact \<Rightarrow> packed_error + packer \<times> fact_ref" where
  "packer_push ser p f =
     res_bind (ok_or FactNotSerialisable (ser f)) (\<lambda>serialised.
     let len = length serialised in
     bail_if (len > MAX_FACT_BYTES) (FactTooLarge len) (
     let free = pk_data_offset p - (pk_dir_offset p + 4) in
     res_bind (if len > free \<or> pk_current_record_count p = - 1 then packer_flush p else Inr p) (\<lambda>p.
     packer_place p serialised)))"

definition packer_finish :: "packer \<Rightarrow> bytes list" where
  "packer_finish p = pk_pages p @ [write_record_count (pk_current_page p) (pk_current_record_count p)]"

definition take_completed_pages :: "packer \<Rightarrow> packer \<times> bytes list" where
  "take_completed_pages p = (p\<lparr> pk_pages := [] \<rparr>, pk_pages p)"

fun pack_loop :: "(fact \<Rightarrow> bytes option) \<Rightarrow> fact list \<Rightarrow> packer \<Rightarrow> packed_error + packer \<times> fact_ref list" where
  "pack_loop ser [] p = Inr (p, [])"
| "pack_loop ser (f # fs) p =
     res_bind (packer_push ser p f) (\<lambda>(p', r). res_bind (pack_loop ser fs p') (\<lambda>(p'', rs). Inr (p'', r # rs)))"

definition pack_facts :: "(fact \<Rightarrow> bytes option) \<Rightarrow> fact list \<Rightarrow> u64 \<Rightarrow> packed_error + bytes list \<times> fact_ref list" where
  "pack_facts ser facts start =
     res_bind (pack_loop ser facts (packer_new start)) (\<lambda>(p, refs). Inr (packer_finish p, refs))"

section \<open>Reading\<close>

abbreviation slot_byte :: "bytes \<Rightarrow> u16 \<Rightarrow> nat \<Rightarrow> packed_error + u8" where
  "slot_byte page slot i \<equiv> ok_or (DirectoryOutOfBounds slot) (list_get page i)"

definition read_slot :: "(bytes \<Rightarrow> fact option) \<Rightarrow> bytes \<Rightarrow> u16 \<Rightarrow> packed_error + fact" where
  "read_slot de page slot =
     bail_if (length page < PAGE_SIZE) (PackedPageTooShort (length page)) (
     res_bind (ok_or (PackedPageTooShort 0) (list_get page 0)) (\<lambda>page_type.
     bail_if (page_type \<noteq> PAGE_TYPE_PACKED) (NotPackedPage page_type) (
     res_bind (slot_byte page slot 2) (\<lambda>b2. res_bind (slot_byte page slot 3) (\<lambda>b3.
     let record_count = u16_from_le_bytes [b2, b3] in
     bail_if (slot \<ge> record_count) (SlotOutOfBounds slot record_count) (
     let dir_base = PACKED_HEADER_SIZE + unat slot * 4 in
     res_bind (slot_byte page slot dir_base) (\<lambda>db0. res_bind (slot_byte page slot (dir_base + 1)) (\<lambda>db1.
     res_bind (slot_byte page slot (dir_base + 2)) (\<lambda>db2. res_bind (slot_byte page slot (dir_base + 3)) (\<lambda>db3.
     let offset = unat (u16_from_le_bytes [db0, db1]); len = unat (u16_from_le_bytes [db2, db3]) in
     bail_if (offset + len > PAGE_SIZE) (RecordBeyondPage slot) (
     res_bind (ok_or (RecordBeyondPage slot) (slice_get page offset (offset + len))) (\<lambda>record.
     ok_or FactNotDecodable (de record)))))))))))))"

definition page_record_count :: "bytes \<Rightarrow> u16" where
  "page_record_count page = u16_from_le_bytes [get_or 0 (list_get page 2), get_or 0 (list_get page 3)]"

definition last_tx_count :: "(bytes \<Rightarrow> fact option) \<Rightarrow> bytes \<Rightarrow> packed_error + u64 option" where
  "last_tx_count de page =
     (if length page < PAGE_SIZE \<or> get_or 0 (list_get page 0) \<noteq> PAGE_TYPE_PACKED then Inr None
      else if page_record_count page = 0 then Inr None
      else res_bind (read_slot de page (page_record_count page - 1)) (\<lambda>f. Inr (Some (tx_count f))))"

definition slots_of :: "u16 \<Rightarrow> u16 list" where
  "slots_of n = map of_nat [0..<unat n]"

definition visit_page_slots ::
    "(bytes \<Rightarrow> fact option) \<Rightarrow> (u16 \<Rightarrow> fact \<Rightarrow> 's \<Rightarrow> packed_error + 's) \<Rightarrow> bytes \<Rightarrow> u16 \<Rightarrow> 's \<Rightarrow> packed_error + 's" where
  "visit_page_slots de visit page n s =
     res_fold (\<lambda>slot s. res_bind (read_slot de page slot) (\<lambda>f. visit slot f s)) (slots_of n) s"

definition visit_fact_refs_in_pages ::
    "(bytes \<Rightarrow> fact option) \<Rightarrow> (u64 \<Rightarrow> backend_error + bytes) \<Rightarrow> u64 \<Rightarrow> u64
     \<Rightarrow> (fact \<Rightarrow> fact_ref \<Rightarrow> 's \<Rightarrow> packed_error + 's) \<Rightarrow> 's \<Rightarrow> packed_error + 's" where
  "visit_fact_refs_in_pages de read start pages visitor =
     res_fold (\<lambda>i s.
       res_bind (ok_or PackedPageIdOverflow (u64_checked_add start (of_nat i))) (\<lambda>page_id.
       res_bind (map_err PackedBackend (read page_id)) (\<lambda>page.
       res_bind (ok_or (PackedPageTooShort (length page)) (slice_get page 2 4)) (\<lambda>count_bytes.
       visit_page_slots de (\<lambda>slot f. visitor f (FactRef page_id slot)) page
         (u16_from_le_bytes count_bytes) s)))) [0..<unat pages]"

definition for_each_from_pages ::
    "(bytes \<Rightarrow> fact option) \<Rightarrow> (u64 \<Rightarrow> backend_error + bytes) \<Rightarrow> u64 \<Rightarrow> u64
     \<Rightarrow> (fact \<Rightarrow> 's \<Rightarrow> packed_error + 's) \<Rightarrow> 's \<Rightarrow> packed_error + 's" where
  "for_each_from_pages de read first_page num_pages visit =
     res_fold (\<lambda>i s.
       let page_id = u64_saturating_add first_page (of_nat i) in
       res_bind (map_err PackedBackend (read page_id)) (\<lambda>page.
       bail_if (length page \<noteq> PAGE_SIZE) (FactPageLength page_id (length page)) (
       bail_if (get_or 0 (list_get page 0) \<noteq> PAGE_TYPE_PACKED) (FactPageType page_id (get_or 0 (list_get page 0))) (
       visit_page_slots de (\<lambda>slot. visit) page (page_record_count page) s)))) [0..<unat num_pages]"

definition read_all_from_pages ::
    "(bytes \<Rightarrow> fact option) \<Rightarrow> (u64 \<Rightarrow> backend_error + bytes) \<Rightarrow> u64 \<Rightarrow> u64 \<Rightarrow> packed_error + fact list" where
  "read_all_from_pages de read first_page num_pages =
     for_each_from_pages de read first_page num_pages (\<lambda>f fs. Inr (fs @ [f])) []"

section \<open>Page contents\<close>

lemma read_u16_put:
  "i + 2 \<le> length page \<Longrightarrow> read_u16_le (put_slice page i (u16_to_le_bytes v)) i = Some v"
  "i + length xs \<le> length page \<Longrightarrow> j + 2 \<le> i \<or> i + length xs \<le> j \<Longrightarrow>
     read_u16_le (put_slice page i xs) j = read_u16_le page j"
proof -
  assume "i + 2 \<le> length page"
  then have "slice_get (put_slice page i (u16_to_le_bytes v)) i (i + 2) = Some (u16_to_le_bytes v)"
    using slice_get_put_same [of i "u16_to_le_bytes v" page] by simp
  then show "read_u16_le (put_slice page i (u16_to_le_bytes v)) i = Some v" by (simp add: read_u16_le_def)
next
  assume "i + length xs \<le> length page" "j + 2 \<le> i \<or> i + length xs \<le> j"
  then show "read_u16_le (put_slice page i xs) j = read_u16_le page j"
    unfolding read_u16_le_def by (subst slice_get_put_other) auto
qed

lemma read_u16_bytes:
  assumes "read_u16_le page i = Some v"
  obtains a b where "list_get page i = Some a" "list_get page (i + 1) = Some b" "u16_from_le_bytes [a, b] = v"
proof
  have i: "i + 2 \<le> length page" and v: "v = u16_from_le_bytes (take 2 (drop i page))"
    using assms by (auto simp: read_u16_le_def slice_get_def split: if_splits)
  show "list_get page i = Some (page ! i)" "list_get page (i + 1) = Some (page ! (i + 1))"
    using i by (simp_all add: list_get_def)
  have "take 2 (drop i page) = [page ! i, page ! (i + 1)]"
    using i by (simp add: numeral_2_eq_2 take_Suc_conv_app_nth)
  then show "u16_from_le_bytes [page ! i, page ! (i + 1)] = v" by (simp add: v)
qed

text \<open>The page holds the records \<open>rs\<close>, all of them at or behind position \<open>data\<close>.\<close>

definition page_records :: "bytes \<Rightarrow> bytes list \<Rightarrow> nat \<Rightarrow> bool" where
  "page_records page rs data \<longleftrightarrow> length page = PAGE_SIZE \<and> list_get page 0 = Some PAGE_TYPE_PACKED \<and>
     (\<forall>k < length rs. \<exists>off. data \<le> off \<and> off + length (rs ! k) \<le> PAGE_SIZE \<and>
        read_u16_le page (12 + 4 * k) = Some (of_nat off) \<and>
        read_u16_le page (14 + 4 * k) = Some (of_nat (length (rs ! k))) \<and>
        slice_get page off (off + length (rs ! k)) = Some (rs ! k))"

lemma page_records_mono: "page_records page rs data \<Longrightarrow> data' \<le> data \<Longrightarrow> page_records page rs data'"
  unfolding page_records_def by (meson order.trans)

lemma list_get_put_before:
  "j < i \<Longrightarrow> i + length xs \<le> length page \<Longrightarrow> list_get (put_slice page i xs) j = list_get page j"
  by (auto simp: list_get_def put_slice_nth)

lemma page_records_put:
  assumes "page_records page rs data" "0 < i" "i + length xs \<le> data" "data \<le> PAGE_SIZE"
    "i + length xs \<le> 12 \<or> 12 + 4 * length rs \<le> i"
  shows "page_records (put_slice page i xs) rs data"
proof -
  have len: "length page = PAGE_SIZE" using assms(1) by (simp add: page_records_def)
  have fits: "i + length xs \<le> length page" using assms(3,4) len by simp
  have dir: "read_u16_le (put_slice page i xs) j = read_u16_le page j"
    if "12 \<le> j" "j + 2 \<le> 12 + 4 * length rs" for j
    using read_u16_put(2) [OF fits] assms(5) that by auto
  have rec: "slice_get (put_slice page i xs) off m = slice_get page off m" if "data \<le> off" for off m
    using assms(3) that fits by (intro slice_get_put_other) auto
  show ?thesis
    unfolding page_records_def
  proof (intro conjI allI impI)
    show "length (put_slice page i xs) = PAGE_SIZE" using fits len by simp
    show "list_get (put_slice page i xs) 0 = Some PAGE_TYPE_PACKED"
      using assms(1,2) fits by (simp add: list_get_put_before page_records_def)
    fix k assume k: "k < length rs"
    obtain off where off: "data \<le> off" "off + length (rs ! k) \<le> PAGE_SIZE"
      "read_u16_le page (12 + 4 * k) = Some (of_nat off)"
      "read_u16_le page (14 + 4 * k) = Some (of_nat (length (rs ! k)))"
      "slice_get page off (off + length (rs ! k)) = Some (rs ! k)"
      using assms(1) k unfolding page_records_def by blast
    show "\<exists>off. data \<le> off \<and> off + length (rs ! k) \<le> PAGE_SIZE \<and>
        read_u16_le (put_slice page i xs) (12 + 4 * k) = Some (of_nat off) \<and>
        read_u16_le (put_slice page i xs) (14 + 4 * k) = Some (of_nat (length (rs ! k))) \<and>
        slice_get (put_slice page i xs) off (off + length (rs ! k)) = Some (rs ! k)"
      using off k by (intro exI [of _ off]) (simp add: dir rec)
  qed
qed

lemma page_records_add:
  assumes "page_records page rs data" "12 + 4 * length rs + 4 + length bs \<le> data" "data \<le> PAGE_SIZE"
  defines "dir \<equiv> 12 + 4 * length rs" and "off \<equiv> data - length bs"
  shows "page_records (put_slice (put_slice (put_slice page off bs) dir (u16_to_le_bytes (of_nat off)))
      (dir + 2) (u16_to_le_bytes (of_nat (length bs)))) (rs @ [bs]) off"
    (is "page_records ?page _ _")
proof -
  let ?p1 = "put_slice page off bs"
  let ?p2 = "put_slice ?p1 dir (u16_to_le_bytes (of_nat off))"
  have len: "length page = PAGE_SIZE" using assms(1) by (simp add: page_records_def)
  have b: "off + length bs \<le> PAGE_SIZE" "dir + 4 \<le> off" using assms(2,3) by (auto simp: off_def dir_def)
  have l1: "length ?p1 = PAGE_SIZE" using b(1) len by simp
  have l2: "length ?p2 = PAGE_SIZE" using b l1 by simp
  have r1: "page_records ?p1 rs data"
    using assms(2,3) b by (intro page_records_put assms(1)) (auto simp: off_def dir_def)
  have r2: "page_records ?p2 rs data"
    using assms(2,3) b by (intro page_records_put r1) (auto simp: dir_def)
  have r3: "page_records ?page rs data"
    using assms(2,3) b by (intro page_records_put r2) (auto simp: dir_def)
  have d1: "read_u16_le ?page dir = Some (of_nat off)"
    using b l1 l2 by (simp add: read_u16_put)
  have d2: "read_u16_le ?page (dir + 2) = Some (of_nat (length bs))"
    using b l2 by (intro read_u16_put(1)) simp
  have "slice_get ?page off (off + length bs) = slice_get ?p2 off (off + length bs)"
    using b l2 by (intro slice_get_put_other) auto
  also have "\<dots> = slice_get ?p1 off (off + length bs)"
    using b l1 by (intro slice_get_put_other) auto
  also have "\<dots> = Some bs" using b len by (intro slice_get_put_same) simp
  finally have rec: "slice_get ?page off (off + length bs) = Some bs" .
  have d2': "read_u16_le ?page (14 + 4 * length rs) = Some (of_nat (length bs))"
    using d2 by (simp add: dir_def)
  show ?thesis
    unfolding page_records_def
  proof (intro conjI allI impI)
    show "length ?page = PAGE_SIZE" "list_get ?page 0 = Some PAGE_TYPE_PACKED"
      using r3 by (simp_all add: page_records_def)
    fix k assume k: "k < length (rs @ [bs])"
    show "\<exists>off'. off \<le> off' \<and> off' + length ((rs @ [bs]) ! k) \<le> PAGE_SIZE \<and>
        read_u16_le ?page (12 + 4 * k) = Some (of_nat off') \<and>
        read_u16_le ?page (14 + 4 * k) = Some (of_nat (length ((rs @ [bs]) ! k))) \<and>
        slice_get ?page off' (off' + length ((rs @ [bs]) ! k)) = Some ((rs @ [bs]) ! k)"
    proof (cases "k < length rs")
      case True
      then show ?thesis
        using page_records_mono [OF r3, of off] by (simp add: page_records_def nth_append off_def)
    next
      case False
      then have "k = length rs" using k by simp
      then show ?thesis using d1 d2' rec b by (intro exI [of _ off]) (simp add: dir_def)
    qed
  qed
qed

section \<open>Reading a slot\<close>

text \<open>A finished page: its records and their number.\<close>

definition page_full :: "bytes \<Rightarrow> bytes list \<Rightarrow> bool" where
  "page_full page rs \<longleftrightarrow> page_records page rs 12 \<and> length rs < 2 ^ 16 \<and>
     read_u16_le page 2 = Some (of_nat (length rs))"

lemma write_record_count_full:
  assumes "page_records page rs data" "12 \<le> data" "data \<le> PAGE_SIZE" "length rs < 2 ^ 16"
  shows "page_full (write_record_count page (of_nat (length rs))) rs"
proof -
  have len: "length page = PAGE_SIZE" using assms(1) by (simp add: page_records_def)
  then have w: "write_record_count page (of_nat (length rs)) = put_slice page 2 (u16_to_le_bytes (of_nat (length rs)))"
    by (simp add: write_record_count_def slice_get_def PAGE_SIZE_def)
  have "page_records (put_slice page 2 (u16_to_le_bytes (of_nat (length rs)))) rs 12"
    using assms(2,3) len by (intro page_records_put page_records_mono [OF assms(1)]) (auto simp: PAGE_SIZE_def)
  moreover have "read_u16_le (put_slice page 2 (u16_to_le_bytes (of_nat (length rs)))) 2 = Some (of_nat (length rs))"
    using len by (intro read_u16_put(1)) (simp add: PAGE_SIZE_def)
  ultimately show ?thesis using assms(4) by (simp add: page_full_def w)
qed

lemma page_full_count: "page_full page rs \<Longrightarrow> page_record_count page = of_nat (length rs)"
  unfolding page_full_def page_record_count_def by (elim conjE read_u16_bytes) simp

lemma read_slot_full:
  assumes "page_full page rs" "k < length rs"
  shows "read_slot de page (of_nat k) = ok_or FactNotDecodable (de (rs ! k))"
proof -
  have len: "length page = PAGE_SIZE" "list_get page 0 = Some PAGE_TYPE_PACKED" "length rs < 2 ^ 16"
    using assms(1) by (auto simp: page_full_def page_records_def)
  obtain off where off: "off + length (rs ! k) \<le> PAGE_SIZE" "read_u16_le page (12 + 4 * k) = Some (of_nat off)"
    "read_u16_le page (14 + 4 * k) = Some (of_nat (length (rs ! k)))"
    "slice_get page off (off + length (rs ! k)) = Some (rs ! k)"
    using assms unfolding page_full_def page_records_def by blast
  obtain c0 c1 where c: "list_get page 2 = Some c0" "list_get page 3 = Some c1" "u16_from_le_bytes [c0, c1] = of_nat (length rs)"
    using assms(1) unfolding page_full_def by (elim conjE read_u16_bytes) simp
  obtain a0 a1 where a: "list_get page (12 + 4 * k) = Some a0" "list_get page (12 + 4 * k + 1) = Some a1"
    "u16_from_le_bytes [a0, a1] = of_nat off" using off(2) by (rule read_u16_bytes)
  obtain b0 b1 where b: "list_get page (14 + 4 * k) = Some b0" "list_get page (14 + 4 * k + 1) = Some b1"
    "u16_from_le_bytes [b0, b1] = of_nat (length (rs ! k))" using off(3) by (rule read_u16_bytes)
  have kk: "unat (of_nat k :: u16) = k" using assms(2) len(3) by (intro unat_of_nat_eq) simp
  have ll: "unat (of_nat (length rs) :: u16) = length rs" using len(3) by (intro unat_of_nat_eq) simp
  have o: "unat (of_nat off :: u16) = off" "unat (of_nat (length (rs ! k)) :: u16) = length (rs ! k)"
    using off(1) by (auto intro!: unat_of_nat_eq simp: PAGE_SIZE_def)
  have cmp: "\<not> (of_nat (length rs) :: u16) \<le> of_nat k"
    using assms(2) by (simp add: word_le_nat_alt kk ll)
  have idx: "PACKED_HEADER_SIZE + unat (of_nat k :: u16) * 4 = 12 + 4 * k"
    "12 + 4 * k + 2 = 14 + 4 * k" "12 + 4 * k + 3 = 14 + 4 * k + 1"
    by (simp_all add: kk PACKED_HEADER_SIZE_def)
  show ?thesis
    unfolding read_slot_def Let_def idx
    using len(1,2) off(1,4) cmp by (simp only: idx a b c o ok_or_simps res_bind.simps bail_if_simps) (simp add: o bail_if_def)
qed

section \<open>The packer\<close>

text \<open>The packer has finished the pages with the records \<open>fin\<close> and holds \<open>cur\<close> on the current one.\<close>

definition packer_inv :: "u64 \<Rightarrow> bytes list list \<Rightarrow> bytes list \<Rightarrow> packer \<Rightarrow> bool" where
  "packer_inv start fin cur p \<longleftrightarrow> pk_start_page_id p = start \<and>
     unat (pk_completed_page_count p) = length fin \<and> list_all2 page_full (pk_pages p) fin \<and>
     page_records (pk_current_page p) cur (pk_data_offset p) \<and>
     unat (pk_current_record_count p) = length cur \<and> pk_dir_offset p = 12 + 4 * length cur \<and>
     pk_dir_offset p \<le> pk_data_offset p \<and> pk_data_offset p \<le> PAGE_SIZE"

lemma packer_inv_new: "packer_inv start [] [] (packer_new start)"
  by (simp add: packer_inv_def packer_new_def page_records_def new_packed_page_def PACKED_HEADER_SIZE_def
      list_get_def) (simp add: PAGE_SIZE_def)

lemma packer_inv_count: "packer_inv start fin cur p \<Longrightarrow> length cur < 2 ^ 16"
  using unat_lt2p [of "pk_current_record_count p"] by (simp add: packer_inv_def)

lemma packer_flush_inv:
  assumes "packer_inv start fin cur p" "length fin + 1 < 2 ^ 64"
  shows "\<exists>p'. packer_flush p = Inr p' \<and> packer_inv start (fin @ [cur]) [] p'"
proof -
  have n: "unat (pk_completed_page_count p) = length fin" using assms(1) by (simp add: packer_inv_def)
  have add: "u64_checked_add (pk_completed_page_count p) 1 = Some (pk_completed_page_count p + 1)"
    "unat (pk_completed_page_count p + 1) = length fin + 1"
    using assms(2) n unat_suc64 [of "pk_completed_page_count p"] by (simp_all add: u64_checked_add_def)
  have cnt: "pk_current_record_count p = of_nat (length cur)"
    using assms(1) by (metis packer_inv_def word_of_unat)
  have "page_full (write_record_count (pk_current_page p) (pk_current_record_count p)) cur"
    unfolding cnt using assms(1) packer_inv_count [OF assms(1)]
    by (intro write_record_count_full [of _ _ "pk_data_offset p"]) (auto simp: packer_inv_def)
  then show ?thesis
    using assms(1) add packer_inv_new [of start]
    by (auto simp: packer_flush_def packer_inv_def packer_new_def intro!: list_all2_appendI)
qed

lemma packer_place_inv:
  assumes "packer_inv start fin cur p" "pk_dir_offset p + 4 + length bs \<le> pk_data_offset p"
    "length cur + 1 < 2 ^ 16" "unat start + length fin < 2 ^ 64"
  shows "\<exists>p'. packer_place p bs = Inr (p', FactRef (start + of_nat (length fin)) (of_nat (length cur))) \<and>
    packer_inv start fin (cur @ [bs]) p'"
proof -
  let ?off = "pk_data_offset p - length bs" and ?dir = "pk_dir_offset p"
  note inv = assms(1) [unfolded packer_inv_def]
  have len: "length (pk_current_page p) = PAGE_SIZE" using inv by (simp add: page_records_def)
  have dir: "?dir = 12 + 4 * length cur" using inv by simp
  have off: "usize_wrapping_sub (pk_data_offset p) (length bs) = ?off" "?off + length bs \<le> PAGE_SIZE"
    "?dir + 4 \<le> ?off" "?off < 2 ^ 16" "length bs < 2 ^ 16"
    using assms(2) inv by (auto simp: usize_wrapping_sub_def PAGE_SIZE_def)
  let ?p1 = "put_slice (pk_current_page p) ?off bs"
  let ?p2 = "put_slice ?p1 ?dir (u16_to_le_bytes (of_nat ?off))"
  let ?p3 = "put_slice ?p2 (?dir + 2) (u16_to_le_bytes (of_nat (length bs)))"
  have l1: "length ?p1 = PAGE_SIZE" using off len by simp
  have l2: "length ?p2 = PAGE_SIZE" using off l1 by simp
  have c1: "copy_into (pk_current_page p) ?off bs = Inr ?p1"
    using off len by (simp add: copy_into_def slice_get_def)
  have c2: "copy_into ?p1 ?dir (u16_to_le_bytes (of_nat ?off)) = Inr ?p2"
    using off l1 by (simp add: copy_into_def slice_get_def)
  have c3: "copy_into ?p2 (?dir + 2) (u16_to_le_bytes (of_nat (length bs))) = Inr ?p3"
    using off l2 by (simp add: copy_into_def slice_get_def)
  have recs: "page_records ?p3 (cur @ [bs]) ?off"
    using page_records_add [of "pk_current_page p" cur "pk_data_offset p" bs] inv assms(2) by (simp add: dir)
  have pid: "u64_checked_add (pk_start_page_id p) (pk_completed_page_count p) = Some (start + of_nat (length fin))"
    using inv assms(4) by (simp add: u64_checked_add_def) (metis word_of_unat)
  have cnt: "pk_current_record_count p = of_nat (length cur)" using inv by (metis word_of_unat)
  have cnt1: "unat (of_nat (length cur) + 1 :: u16) = length cur + 1" "of_nat (length cur) \<noteq> (- 1 :: u16)"
  proof -
    have "unat (of_nat (length cur + 1) :: u16) = length cur + 1" using assms(3) by (intro unat_of_nat_eq) simp
    then show "unat (of_nat (length cur) + 1 :: u16) = length cur + 1" by (simp add: add.commute)
    then show "of_nat (length cur) \<noteq> (- 1 :: u16)" by (metis add.commute add_eq_0_iff add_is_0 one_neq_zero unat_0 ab_left_minus)
  qed
  have fit16: "u16_try_from ?off = Some (of_nat ?off)" "u16_try_from (length bs) = Some (of_nat (length bs))"
    using off(4,5) by (simp_all only: u16_try_from_def if_True)
  have "packer_place p bs =
      Inr (p\<lparr> pk_current_page := ?p3, pk_data_offset := ?off, pk_dir_offset := ?dir + 4,
              pk_current_record_count := of_nat (length cur) + 1 \<rparr>,
           FactRef (start + of_nat (length fin)) (of_nat (length cur)))"
    unfolding packer_place_def Let_def off(1)
    by (simp only: c1 c2 c3 fit16 pid cnt cnt1(2) ok_or_simps res_bind.simps if_False)
  moreover have "packer_inv start fin (cur @ [bs]) (p\<lparr> pk_current_page := ?p3, pk_data_offset := ?off, pk_dir_offset := ?dir + 4,
              pk_current_record_count := of_nat (length cur) + 1 \<rparr>)"
  proof -
    have "?off \<le> PAGE_SIZE" using inv by (meson diff_le_self order.trans)
    then show ?thesis using inv recs cnt1(1) off(3) by (simp add: packer_inv_def)
  qed
  ultimately show ?thesis by blast
qed

lemma packer_push_inv:
  assumes "packer_inv start fin cur p" "ser f = Some bs" "0 < length bs" "length bs \<le> MAX_FACT_BYTES"
    "unat start + length fin + 1 < 2 ^ 64"
  shows "\<exists>p' fin' cur'. packer_push ser p f =
      Inr (p', FactRef (start + of_nat (length fin')) (of_nat (length cur'))) \<and>
    packer_inv start fin' (cur' @ [bs]) p' \<and>
    (fin' = fin \<and> cur' = cur \<or> fin' = fin @ [cur] \<and> cur' = [])"
proof -
  have cnt: "pk_current_record_count p = - 1 \<longleftrightarrow> \<not> length cur + 1 < 2 ^ 16"
  proof -
    have u: "unat (pk_current_record_count p) = length cur" using assms(1) by (simp add: packer_inv_def)
    have m1: "(- 1 :: u16) = 0xFFFF" by (simp add: word_eq_iff_unsigned)
    have m: "unat (- 1 :: u16) = 2 ^ 16 - 1" unfolding m1 by simp
    show ?thesis using u m packer_inv_count [OF assms(1)] by (auto simp: word_unat_eq_iff)
  qed
  let ?full = "length bs > pk_data_offset p - (pk_dir_offset p + 4) \<or> pk_current_record_count p = - 1"
  have push: "packer_push ser p f = res_bind (if ?full then packer_flush p else Inr p) (\<lambda>p. packer_place p bs)"
    using assms(2,4) by (simp add: packer_push_def Let_def)
  show ?thesis
  proof (cases ?full)
    case True
    obtain p1 where p1: "packer_flush p = Inr p1" "packer_inv start (fin @ [cur]) [] p1"
      using packer_flush_inv [OF assms(1)] assms(5) by auto
    have off: "pk_dir_offset p1 = 12" "pk_data_offset p1 = PAGE_SIZE"
      using p1(1) by (auto simp: packer_flush_def res_Inr PACKED_HEADER_SIZE_def)
    have "pk_dir_offset p1 + 4 + length bs \<le> pk_data_offset p1"
      using assms(4) by (simp add: off MAX_FACT_BYTES_def PACKED_HEADER_SIZE_def PAGE_SIZE_def)
    from packer_place_inv [OF p1(2) this]
    obtain p' where "packer_place p1 bs = Inr (p', FactRef (start + of_nat (length (fin @ [cur]))) (of_nat (length ([] :: bytes list))))"
      "packer_inv start (fin @ [cur]) ([] @ [bs]) p'" using assms(5) by auto
    moreover have "packer_push ser p f = packer_place p1 bs"
      unfolding push if_P [OF True] p1(1) by simp
    ultimately show ?thesis by (intro exI [of _ p'] exI [of _ "fin @ [cur]"] exI [of _ "[]"]) simp
  next
    case False
    then have fits: "pk_dir_offset p + 4 + length bs \<le> pk_data_offset p" and c: "length cur + 1 < 2 ^ 16"
      using assms(3) cnt by (simp_all only: de_Morgan_disj) linarith+
    have "unat start + length fin < 2 ^ 64" using assms(5) by simp
    then obtain p' where "packer_place p bs = Inr (p', FactRef (start + of_nat (length fin)) (of_nat (length cur)))"
      "packer_inv start fin (cur @ [bs]) p'" using packer_place_inv [OF assms(1) fits c] by blast
    moreover have "packer_push ser p f = packer_place p bs" unfolding push if_not_P [OF False] by simp
    ultimately show ?thesis by (intro exI [of _ p'] exI [of _ fin] exI [of _ cur]) simp
  qed
qed

text \<open>Position \<open>(i, k)\<close> of a list of pages holds the record \<open>bs\<close>.\<close>

definition holds_at :: "bytes list list \<Rightarrow> nat \<Rightarrow> nat \<Rightarrow> bytes \<Rightarrow> bool" where
  "holds_at ps i k bs \<longleftrightarrow> i < length ps \<and> k < length (ps ! i) \<and> ps ! i ! k = bs"

definition pages_extend :: "bytes list list \<Rightarrow> bytes list list \<Rightarrow> bool" where
  "pages_extend ps qs \<longleftrightarrow> length ps \<le> length qs \<and> (\<forall>i < length ps. prefix (ps ! i) (qs ! i))"

lemma pages_extend_refl: "pages_extend ps ps"
  by (simp add: pages_extend_def)

lemma pages_extend_trans: "pages_extend ps qs \<Longrightarrow> pages_extend qs rs \<Longrightarrow> pages_extend ps rs"
  unfolding pages_extend_def by (meson le_trans less_le_trans prefix_order.trans)

lemma holds_at_extend: "holds_at ps i k bs \<Longrightarrow> pages_extend ps qs \<Longrightarrow> holds_at qs i k bs"
proof -
  assume h: "holds_at ps i k bs" and e: "pages_extend ps qs"
  then have "prefix (ps ! i) (qs ! i)" "i < length qs" by (auto simp: holds_at_def pages_extend_def)
  then obtain zs where "qs ! i = ps ! i @ zs" "i < length qs" by (auto simp: prefix_def)
  then show "holds_at qs i k bs" using h by (simp add: holds_at_def nth_append)
qed

lemma pages_extend_snoc: "pages_extend (fin @ [cur]) (fin @ [cur @ xs])"
  by (auto simp: pages_extend_def nth_append)

lemma pages_extend_new: "pages_extend (fin @ [cur]) ((fin @ [cur]) @ [xs])"
  by (auto simp: pages_extend_def nth_append)

lemma pack_loop_inv:
  assumes "packer_inv start fin cur p" "list_all2 (\<lambda>f bs. ser f = Some bs \<and> 0 < length bs \<and> length bs \<le> MAX_FACT_BYTES) facts bss"
    "unat start + length fin + length facts + 1 < 2 ^ 64"
  shows "\<exists>p' fin' cur' refs. pack_loop ser facts p = Inr (p', refs) \<and> packer_inv start fin' cur' p' \<and>
    pages_extend (fin @ [cur]) (fin' @ [cur']) \<and> concat (fin' @ [cur']) = concat (fin @ [cur]) @ bss \<and>
    length fin' \<le> length fin + length facts \<and>
    list_all2 (\<lambda>bs r. \<exists>i k. r = FactRef (start + of_nat i) (of_nat k) \<and> k < 2 ^ 16 \<and> holds_at (fin' @ [cur']) i k bs) bss refs"
  using assms(2,1,3)
proof (induction facts bss arbitrary: p fin cur rule: list_all2_induct)
  case Nil
  then show ?case
    by (intro exI [of _ p] exI [of _ "fin"] exI [of _ cur] exI [of _ "[]"]) (simp add: pages_extend_refl)
next
  case (Cons f fs bs bss)
  have "unat start + length fin + 1 < 2 ^ 64" using Cons.prems(2) by simp
  with Cons.hyps(1) Cons.prems(1) obtain p1 fin1 cur1 where
    push: "packer_push ser p f = Inr (p1, FactRef (start + of_nat (length fin1)) (of_nat (length cur1)))"
    and inv1: "packer_inv start fin1 (cur1 @ [bs]) p1"
    and step: "fin1 = fin \<and> cur1 = cur \<or> fin1 = fin @ [cur] \<and> cur1 = []"
    using packer_push_inv by blast
  have len1: "length fin1 \<le> length fin + 1" using step by auto
  have ext1: "pages_extend (fin @ [cur]) (fin1 @ [cur1 @ [bs]])"
    using step pages_extend_snoc pages_extend_new by auto
  have con1: "concat (fin1 @ [cur1 @ [bs]]) = concat (fin @ [cur]) @ [bs]" using step by auto
  obtain p2 fin2 cur2 refs where loop: "pack_loop ser fs p1 = Inr (p2, refs)" "packer_inv start fin2 cur2 p2"
    "pages_extend (fin1 @ [cur1 @ [bs]]) (fin2 @ [cur2])"
    "concat (fin2 @ [cur2]) = concat (fin1 @ [cur1 @ [bs]]) @ bss" "length fin2 \<le> length fin1 + length fs"
    "list_all2 (\<lambda>bs r. \<exists>i k. r = FactRef (start + of_nat i) (of_nat k) \<and> k < 2 ^ 16 \<and> holds_at (fin2 @ [cur2]) i k bs) bss refs"
    using Cons.IH [OF inv1] Cons.prems(2) len1 by auto
  have k: "length cur1 < 2 ^ 16" using packer_inv_count [OF inv1] by simp
  have "holds_at (fin1 @ [cur1 @ [bs]]) (length fin1) (length cur1) bs" by (simp add: holds_at_def)
  then have here: "holds_at (fin2 @ [cur2]) (length fin1) (length cur1) bs" using loop(3) by (rule holds_at_extend)
  let ?r = "FactRef (start + of_nat (length fin1)) (of_nat (length cur1))"
  show ?case
  proof (intro exI conjI)
    show "pack_loop ser (f # fs) p = Inr (p2, ?r # refs)" by (simp add: push loop(1))
    show "packer_inv start fin2 cur2 p2" by (rule loop(2))
    show "pages_extend (fin @ [cur]) (fin2 @ [cur2])" using ext1 loop(3) by (rule pages_extend_trans)
    show "concat (fin2 @ [cur2]) = concat (fin @ [cur]) @ bs # bss" using loop(4) con1 by simp
    show "length fin2 \<le> length fin + length (f # fs)" using loop(5) len1 by simp
    show "list_all2 (\<lambda>bs r. \<exists>i k. r = FactRef (start + of_nat i) (of_nat k) \<and> k < 2 ^ 16 \<and> holds_at (fin2 @ [cur2]) i k bs) (bs # bss) (?r # refs)"
      using loop(6) k here by auto
  qed
qed

section \<open>Packing and reading back\<close>

lemma packer_finish_full:
  assumes "packer_inv start fin cur p"
  shows "list_all2 page_full (packer_finish p) (fin @ [cur])"
proof -
  have cnt: "pk_current_record_count p = of_nat (length cur)"
    using assms by (metis packer_inv_def word_of_unat)
  have "page_full (write_record_count (pk_current_page p) (pk_current_record_count p)) cur"
    unfolding cnt using assms packer_inv_count [OF assms]
    by (intro write_record_count_full [of _ _ "pk_data_offset p"]) (auto simp: packer_inv_def)
  then show ?thesis using assms by (auto simp: packer_finish_def packer_inv_def intro!: list_all2_appendI)
qed

lemma visit_page_full:
  assumes "page_full page rs" "list_all2 (\<lambda>bs f. de bs = Some f) rs fs"
  shows "visit_page_slots de (\<lambda>slot f fs. Inr (fs @ [f])) page (of_nat (length rs)) s = Inr (s @ fs)"
proof -
  have len: "length rs = length fs" using assms(2) by (rule list_all2_lengthD)
  have n: "unat (of_nat (length rs) :: u16) = length fs"
    using assms(1) len by (simp add: page_full_def unat_of_nat_eq)
  have slot: "read_slot de page (of_nat k) = Inr (fs ! k)" if "k < length fs" for k
    using read_slot_full [OF assms(1), of k de] list_all2_nthD2 [OF assms(2) that] that len by simp
  have "res_fold (\<lambda>k s. res_bind (read_slot de page (of_nat k)) (\<lambda>f. Inr (s @ [f])))
      [0..<length (map (\<lambda>f. [f]) fs)] s = Inr (s @ concat (map (\<lambda>f. [f]) fs))"
    by (rule res_fold_collect) (simp add: slot)
  then show ?thesis by (simp add: visit_page_slots_def slots_of_def n res_fold_map concat_map_singleton)
qed

lemma read_all_full:
  assumes "list_all2 page_full pages rss" "list_all2 (\<lambda>bs f. de bs = Some f) (concat rss) fs"
    "\<And>i. i < length pages \<Longrightarrow> read (first + of_nat i) = Inr (pages ! i)" "unat first + length pages < 2 ^ 64"
  shows "read_all_from_pages de read first (of_nat (length pages)) = Inr fs"
proof -
  let ?d = "\<lambda>bs. the (de bs)"
  have len: "length pages = length rss" using assms(1) by (rule list_all2_lengthD)
  have fs: "fs = concat (map (map ?d) rss)"
    using assms(2) by (simp add: list_all2_conv_all_nth nth_equalityI map_concat [symmetric])
  have dec: "list_all2 (\<lambda>bs f. de bs = Some f) rs (map ?d rs)" if "rs \<in> set rss" for rs
  proof -
    have "\<exists>f. de bs = Some f" if "bs \<in> set rs" for bs
      using assms(2) that \<open>rs \<in> set rss\<close> unfolding list_all2_conv_all_nth in_set_conv_nth [of bs "concat rss"]
      by (metis UN_I in_set_conv_nth set_concat)
    then show ?thesis by (auto simp: list_all2_conv_all_nth dest: nth_mem)
  qed
  have n: "unat (of_nat (length pages) :: u64) = length pages" using assms(4) by (intro unat_of_nat_eq) simp
  have pid: "u64_saturating_add first (of_nat i) = first + of_nat i" if "i < length pages" for i
    using that assms(4) by (simp add: u64_saturating_add_def unat_of_nat_eq)
  have full: "page_full (pages ! i) (rss ! i)" if "i < length pages" for i
    using assms(1) that by (simp add: list_all2_conv_all_nth)
  have "for_each_from_pages de read first (of_nat (length pages)) (\<lambda>f fs. Inr (fs @ [f])) [] =
      Inr ([] @ concat (map (map ?d) rss))"
    unfolding for_each_from_pages_def n
  proof (subst len, subst length_map [of "map ?d" rss, symmetric], rule res_fold_collect)
    fix i s assume "i < length (map (map ?d) rss)"
    then have i: "i < length pages" "i < length rss" using len by simp_all
    have page: "length (pages ! i) = PAGE_SIZE" "list_get (pages ! i) 0 = Some PAGE_TYPE_PACKED"
      using full [OF i(1)] by (auto simp: page_full_def page_records_def)
    have "visit_page_slots de (\<lambda>slot f fs. Inr (fs @ [f])) (pages ! i) (page_record_count (pages ! i)) s =
        Inr (s @ map ?d (rss ! i))"
      unfolding page_full_count [OF full [OF i(1)]]
      using visit_page_full [OF full [OF i(1)] dec [OF nth_mem [OF i(2)]]] .
    then show "(let page_id = u64_saturating_add first (of_nat i) in
        res_bind (map_err PackedBackend (read page_id)) (\<lambda>page.
        bail_if (length page \<noteq> PAGE_SIZE) (FactPageLength page_id (length page)) (
        bail_if (get_or 0 (list_get page 0) \<noteq> PAGE_TYPE_PACKED) (FactPageType page_id (get_or 0 (list_get page 0))) (
        visit_page_slots de (\<lambda>slot f fs. Inr (fs @ [f])) page (page_record_count page) s)))) =
        Inr (s @ map (map ?d) rss ! i)"
      using i by (simp add: Let_def pid assms(3) page)
  qed
  then show ?thesis by (simp add: read_all_from_pages_def fs)
qed

text \<open>Serialisation works on these facts: every one of them is serialised to a non-empty record that fits
  on a page and decodes to the fact.\<close>

definition packable :: "(fact \<Rightarrow> bytes option) \<Rightarrow> (bytes \<Rightarrow> fact option) \<Rightarrow> fact list \<Rightarrow> bool" where
  "packable ser de facts \<longleftrightarrow> (\<forall>f \<in> set facts. \<exists>bs. ser f = Some bs \<and> 0 < length bs \<and> length bs \<le> MAX_FACT_BYTES \<and> de bs = Some f)"

lemma packable_bytes:
  assumes "packable ser de facts"
  obtains bss where "list_all2 (\<lambda>f bs. ser f = Some bs \<and> 0 < length bs \<and> length bs \<le> MAX_FACT_BYTES) facts bss"
    "list_all2 (\<lambda>bs f. de bs = Some f) bss facts"
proof
  have "\<exists>bs. ser f = Some bs \<and> 0 < length bs \<and> length bs \<le> MAX_FACT_BYTES \<and> de bs = Some f" if "f \<in> set facts" for f
    using assms that by (simp add: packable_def)
  then show "list_all2 (\<lambda>f bs. ser f = Some bs \<and> 0 < length bs \<and> length bs \<le> MAX_FACT_BYTES) facts (map (\<lambda>f. the (ser f)) facts)"
    "list_all2 (\<lambda>bs f. de bs = Some f) (map (\<lambda>f. the (ser f)) facts) facts"
    by (auto simp: list_all2_conv_all_nth dest!: nth_mem) (metis option.sel)+
qed

lemma pack_facts_pages:
  assumes "packable ser de facts" "unat start + length facts + 1 < 2 ^ 64"
  obtains pages refs rss where "pack_facts ser facts start = Inr (pages, refs)" "list_all2 page_full pages rss"
    "list_all2 (\<lambda>bs f. de bs = Some f) (concat rss) facts" "length pages \<le> length facts + 1"
    "list_all2 (\<lambda>f r. \<exists>i k. r = FactRef (start + of_nat i) (of_nat k) \<and> i < length pages \<and>
       read_slot de (pages ! i) (of_nat k) = Inr f) facts refs"
proof -
  obtain bss where bss: "list_all2 (\<lambda>f bs. ser f = Some bs \<and> 0 < length bs \<and> length bs \<le> MAX_FACT_BYTES) facts bss"
    "list_all2 (\<lambda>bs f. de bs = Some f) bss facts" using assms(1) by (rule packable_bytes)
  have room: "unat start + length ([] :: bytes list list) + length facts + 1 < 2 ^ 64" using assms(2) by simp
  obtain p fin cur refs where loop: "pack_loop ser facts (packer_new start) = Inr (p, refs)" "packer_inv start fin cur p"
    "concat (fin @ [cur]) = bss" "length fin \<le> length facts"
    "list_all2 (\<lambda>bs r. \<exists>i k. r = FactRef (start + of_nat i) (of_nat k) \<and> k < 2 ^ 16 \<and> holds_at (fin @ [cur]) i k bs) bss refs"
    using pack_loop_inv [OF packer_inv_new bss(1) room] by auto
  have full: "list_all2 page_full (packer_finish p) (fin @ [cur])" using loop(2) by (rule packer_finish_full)
  then have len: "length (packer_finish p) = length fin + 1" by (simp add: list_all2_lengthD)
  have slot: "\<exists>i k. r = FactRef (start + of_nat i) (of_nat k) \<and> i < length (packer_finish p) \<and>
      read_slot de (packer_finish p ! i) (of_nat k) = Inr f"
    if h: "de bs = Some f" "\<exists>i k. r = FactRef (start + of_nat i) (of_nat k) \<and> k < 2 ^ 16 \<and> holds_at (fin @ [cur]) i k bs" for bs f r
  proof -
    obtain i k where ik: "r = FactRef (start + of_nat i) (of_nat k)" "holds_at (fin @ [cur]) i k bs" using h(2) by blast
    then have i: "i < length (packer_finish p)" "k < length ((fin @ [cur]) ! i)" "(fin @ [cur]) ! i ! k = bs"
      by (auto simp: holds_at_def len)
    have "read_slot de (packer_finish p ! i) (of_nat k) = Inr f"
      using read_slot_full [OF list_all2_nthD [OF full i(1)] i(2), of de] i(3) h(1) by simp
    then show ?thesis using ik(1) i(1) by blast
  qed
  show thesis
  proof (rule that)
    show "pack_facts ser facts start = Inr (packer_finish p, refs)" by (simp add: pack_facts_def loop(1))
    show "list_all2 page_full (packer_finish p) (fin @ [cur])" by (rule full)
    show "list_all2 (\<lambda>bs f. de bs = Some f) (concat (fin @ [cur])) facts" using bss(2) loop(3) by simp
    show "length (packer_finish p) \<le> length facts + 1" using len loop(4) by simp
    show "list_all2 (\<lambda>f r. \<exists>i k. r = FactRef (start + of_nat i) (of_nat k) \<and> i < length (packer_finish p) \<and>
       read_slot de (packer_finish p ! i) (of_nat k) = Inr f) facts refs"
      using bss(2) loop(5) slot unfolding list_all2_conv_all_nth by metis
  qed
qed

text \<open>Packing keeps every fact retrievable.  For facts that serialise within a page, packing succeeds,
  every page has the page size, and the reference returned for the \<open>j\<close>-th fact names a page and slot
  from which exactly that fact is read.\<close>

theorem pack_facts_refs:
  assumes "packable ser de facts" "unat start + length facts + 1 < 2 ^ 64"
  shows "\<exists>pages refs. pack_facts ser facts start = Inr (pages, refs) \<and> length refs = length facts \<and>
    (\<forall>page \<in> set pages. length page = PAGE_SIZE) \<and>
    (\<forall>j < length facts. \<exists>i k. refs ! j = FactRef (start + of_nat i) (of_nat k) \<and> i < length pages \<and>
       read_slot de (pages ! i) (of_nat k) = Inr (facts ! j))"
proof -
  obtain pages refs rss where p: "pack_facts ser facts start = Inr (pages, refs)" "list_all2 page_full pages rss"
    "list_all2 (\<lambda>f r. \<exists>i k. r = FactRef (start + of_nat i) (of_nat k) \<and> i < length pages \<and>
       read_slot de (pages ! i) (of_nat k) = Inr f) facts refs"
    using assms by (rule pack_facts_pages)
  have "length page = PAGE_SIZE" if "page \<in> set pages" for page
    using p(2) that by (auto simp: list_all2_conv_all_nth page_full_def page_records_def in_set_conv_nth)
  then show ?thesis using p(1,3) by (simp add: list_all2_conv_all_nth)
qed

theorem pack_facts_refs_witness:
  "let f = fact_new 1 ''a'' Null 5 in
   \<exists>pages refs. pack_facts (\<lambda>_. Some [1]) [f] 1 = Inr (pages, refs) \<and> length refs = 1"
proof -
  have "packable (\<lambda>_. Some [1]) (\<lambda>_. Some (fact_new 1 ''a'' Null 5)) [fact_new 1 ''a'' Null 5]"
    by (simp add: packable_def MAX_FACT_BYTES_def PAGE_SIZE_def PACKED_HEADER_SIZE_def)
  from pack_facts_refs [OF this, of 1] show ?thesis by auto
qed

text \<open>C30: facts packed into pages and written to a database file are read back by a full scan of those
  pages in the order in which they were packed, for every start page other than the header page.\<close>

theorem packed_file_scan:
  assumes "packable ser de facts" "unat start + length facts + 1 < 2 ^ 64" "start \<noteq> 0"
    "pack_facts ser facts start = Inr (pages, refs)" "write_run fb_write_page start pages b = (b', Inr ())"
  shows "read_all_from_pages de (fb_read_page b') start (of_nat (length pages)) = Inr facts"
proof -
  obtain pages' refs' rss where p: "pack_facts ser facts start = Inr (pages', refs')" "list_all2 page_full pages' rss"
    "list_all2 (\<lambda>bs f. de bs = Some f) (concat rss) facts" "length pages' \<le> length facts + 1"
    using assms(1,2) by (rule pack_facts_pages)
  have [simp]: "pages' = pages" using p(1) assms(4) by simp
  have "unat start + length pages < 2 ^ 64" using p(4) assms(2) by simp
  then show ?thesis
    using p(2,3) file_store.write_pages_read [OF TrueI assms(5) _ assms(3)] by (intro read_all_full) simp_all
qed

theorem packed_file_scan_witness:
  "\<exists>b b' pages refs. fb_open (\<lambda>_. 7) None = Inr b \<and>
     pack_facts (\<lambda>_. Some [1]) [fact_new 1 ''a'' Null 5] 1 = Inr (pages, refs) \<and>
     write_run fb_write_page 1 pages b = (b', Inr ()) \<and>
     read_all_from_pages (\<lambda>_. Some (fact_new 1 ''a'' Null 5)) (fb_read_page b') 1 (of_nat (length pages)) =
       Inr [fact_new 1 ''a'' Null 5]"
proof -
  let ?f = "fact_new 1 ''a'' Null 5"
  have ok: "packable (\<lambda>_. Some [1]) (\<lambda>_. Some ?f) [?f]"
    by (simp add: packable_def MAX_FACT_BYTES_def PAGE_SIZE_def PACKED_HEADER_SIZE_def)
  obtain b where b: "fb_open (\<lambda>_. 7) None = Inr b" "fb_header b = file_header_new" using fb_open_new by blast
  have pk: "\<exists>page refs. pack_facts (\<lambda>_. Some [1]) [?f] 1 = Inr ([page], refs) \<and> length page = PAGE_SIZE"
  proof -
    obtain p r where p: "packer_push (\<lambda>_. Some [1]) (packer_new 1) ?f = Inr (p, r)" "pk_pages p = []"
        "length (pk_current_page p) = PAGE_SIZE"
      by (simp add: packer_push_def packer_new_def packer_place_def copy_into_def new_packed_page_def slice_get_def
          usize_wrapping_sub_def u16_try_from_def u64_checked_add_def MAX_FACT_BYTES_def PACKED_HEADER_SIZE_def
          PAGE_SIZE_def Let_def)
    then show ?thesis
      by (simp add: pack_facts_def packer_finish_def write_record_count_def slice_get_def PAGE_SIZE_def)
  qed
  then obtain page refs where page: "pack_facts (\<lambda>_. Some [1]) [?f] 1 = Inr ([page], refs)" "length page = PAGE_SIZE" by blast
  obtain b' where w: "write_run fb_write_page 1 [page] b = (b', Inr ())"
    using b(2) page(2) by (auto simp: fb_write_page_def u64_checked_mul_def u64_checked_add_def PAGE_SIZE_u64_def
        file_header_new_def Let_def)
  show ?thesis
    using packed_file_scan [OF ok _ _ page(1) w] b(1) page(1) w by auto
qed

text \<open>An oversized fact is refused before anything is placed for it: packing fails with the size of
  the first fact whose record exceeds the page capacity.\<close>

theorem pack_facts_too_large:
  assumes "packable ser de fs" "unat start + length fs + 1 < 2 ^ 64" "ser f = Some bs" "length bs > MAX_FACT_BYTES"
  shows "pack_facts ser (fs @ f # gs) start = Inl (FactTooLarge (length bs))"
proof -
  obtain bss where bss: "list_all2 (\<lambda>f bs. ser f = Some bs \<and> 0 < length bs \<and> length bs \<le> MAX_FACT_BYTES) fs bss"
    using assms(1) by (rule packable_bytes)
  have room: "unat start + length ([] :: bytes list list) + length fs + 1 < 2 ^ 64" using assms(2) by simp
  obtain p refs where loop: "pack_loop ser fs (packer_new start) = Inr (p, refs)"
    using pack_loop_inv [OF packer_inv_new bss room] by auto
  have app: "pack_loop ser fs q = Inr (p, refs) \<Longrightarrow> pack_loop ser (fs @ f # gs) q = Inl (FactTooLarge (length bs))" for q refs
  proof (induction fs arbitrary: q refs)
    case Nil
    then show ?case using assms(3,4) by (simp add: packer_push_def Let_def)
  next
    case (Cons g fs)
    then obtain q' r rs where "packer_push ser q g = Inr (q', r)" "pack_loop ser fs q' = Inr (p, rs)"
      by (auto simp: res_Inr)
    then show ?case using Cons.IH by simp
  qed
  show ?thesis using app [OF loop] by (simp add: pack_facts_def)
qed

theorem pack_facts_too_large_witness:
  "pack_facts (\<lambda>_. Some (replicate 4081 0)) [fact_new 1 ''a'' Null 5] 1 = Inl (FactTooLarge 4081)"
  using pack_facts_too_large [of "\<lambda>_. Some (replicate 4081 0)" "\<lambda>_. None" "[]" 1 "fact_new 1 ''a'' Null 5" "replicate 4081 0" "[]"]
  by (simp add: packable_def MAX_FACT_BYTES_def PAGE_SIZE_def PACKED_HEADER_SIZE_def)

end
