(* ===== verification/Wal.thy ===== *)
theory Wal
  imports Packed_Pages
begin

text \<open>
  The write-ahead log of \<open>src/src/wal.rs\<close>.  A path is an optional byte sequence, an open file its
  bytes and a position.  Fact serialisation (\<open>postcard\<close>) and the
  checksum (\<open>crc32fast\<close>) are the parameters \<open>ser\<close>, \<open>de\<close> and \<open>crc\<close>; what a lemma needs of them is
  stated for the facts it is about.  The lemmas show that the reader returns what the writer
  appended, that a torn last entry costs nothing that was appended before it, and determine the two
  situations in which appended entries are not read back.
\<close>

section \<open>Constants and header\<close>

definition WAL_MAGIC :: bytes where
  "WAL_MAGIC = [0x4D, 0x57, 0x41, 0x4C]"

definition WAL_VERSION :: u32 where
  "WAL_VERSION = 1"

abbreviation WAL_HEADER_SIZE :: nat where
  "WAL_HEADER_SIZE \<equiv> 32"

datatype wal_error = WalUnexpectedEof | InvalidWalMagic | UnsupportedWalVersion u32
  | WalFactTooLarge nat | WalSerializeError | WalNotFound

definition wal_header :: bytes where
  "wal_header = put_slice (put_slice (replicate WAL_HEADER_SIZE 0) 0 WAL_MAGIC) 4 (u32_to_le_bytes WAL_VERSION)"

definition write_wal_header :: "os_file \<Rightarrow> os_file" where
  "write_wal_header f = file_write_all wal_header (file_seek 0 f)"

definition validate_wal_header :: "os_file \<Rightarrow> wal_error + os_file" where
  "validate_wal_header f =
     (case file_read_exact WAL_HEADER_SIZE (file_seek 0 f) of
        None \<Rightarrow> Inl WalUnexpectedEof
      | Some (buf, f') \<Rightarrow>
          if take 4 buf \<noteq> WAL_MAGIC then Inl InvalidWalMagic
          else let version = u32_from_le_bytes (take 4 (drop 4 buf)) in
            if version \<noteq> WAL_VERSION then Inl (UnsupportedWalVersion version) else Inr f')"

section \<open>Entries\<close>

record wal_entry =
  we_tx_count :: u64
  we_facts :: "fact list"

fun serialize_facts :: "(fact \<Rightarrow> bytes option) \<Rightarrow> fact list \<Rightarrow> wal_error + bytes" where
  "serialize_facts ser [] = Inr []"
| "serialize_facts ser (f # fs) =
     (case ser f of
        None \<Rightarrow> Inl WalSerializeError
      | Some fact_bytes \<Rightarrow>
          if length fact_bytes > MAX_FACT_BYTES then Inl (WalFactTooLarge (length fact_bytes))
          else if length fact_bytes \<ge> 2 ^ 32 then Inl (WalFactTooLarge (length fact_bytes))
          else (case serialize_facts ser fs of
                  Inl e \<Rightarrow> Inl e
                | Inr rest \<Rightarrow> Inr (u32_to_le_bytes (of_nat (length fact_bytes)) @ fact_bytes @ rest)))"

definition serialize_entry ::
    "(fact \<Rightarrow> bytes option) \<Rightarrow> (bytes \<Rightarrow> u32) \<Rightarrow> u64 \<Rightarrow> fact list \<Rightarrow> wal_error + bytes" where
  "serialize_entry ser crc txc facts =
     (case serialize_facts ser facts of
        Inl e \<Rightarrow> Inl e
      | Inr body \<Rightarrow>
          let payload = u64_to_le_bytes txc @ u64_to_le_bytes (of_nat (length facts)) @ body
          in Inr (u32_to_le_bytes (crc payload) @ payload))"

section \<open>Writer\<close>

text \<open>\<open>open_or_create\<close> takes the path's previous contents, if the file exists.\<close>

definition open_or_create :: "bytes option \<Rightarrow> wal_error + os_file" where
  "open_or_create path =
     (case path of
        None \<Rightarrow> Inr (file_seek_end (write_wal_header (file_of [])))
      | Some data \<Rightarrow>
          if length data < WAL_HEADER_SIZE
          then Inr (file_seek_end (write_wal_header (file_of [])))
          else (case validate_wal_header (file_of data) of
                  Inl e \<Rightarrow> Inl e
                | Inr f \<Rightarrow> Inr (file_seek_end f)))"

definition append_entry ::
    "(fact \<Rightarrow> bytes option) \<Rightarrow> (bytes \<Rightarrow> u32) \<Rightarrow> os_file \<Rightarrow> u64 \<Rightarrow> fact list \<Rightarrow> wal_error + os_file" where
  "append_entry ser crc w txc facts =
     (case serialize_entry ser crc txc facts of
        Inl e \<Rightarrow> Inl e
      | Inr bs \<Rightarrow> Inr (file_write_all bs w))"

definition delete_file :: "bytes option \<Rightarrow> wal_error + bytes option" where
  "delete_file path = (case path of None \<Rightarrow> Inl WalNotFound | Some _ \<Rightarrow> Inr None)"

section \<open>Reader\<close>

definition reader_open :: "bytes option \<Rightarrow> wal_error + os_file" where
  "reader_open path =
     (case path of
        None \<Rightarrow> Inl WalNotFound
      | Some data \<Rightarrow>
          if length data \<ge> WAL_HEADER_SIZE then validate_wal_header (file_of data)
          else Inr (file_of data))"

definition MAX_FACTS_PER_ENTRY :: nat where
  "MAX_FACTS_PER_ENTRY = 1000000"

definition MAX_FACT_SIZE :: nat where
  "MAX_FACT_SIZE = 10 * 1024 * 1024"

text \<open>The inner loop reads \<open>n\<close> facts; \<open>None\<close> is the \<open>truncated\<close> flag.\<close>

fun read_facts ::
    "(bytes \<Rightarrow> fact option) \<Rightarrow> nat \<Rightarrow> os_file \<Rightarrow> bytes \<Rightarrow> fact list \<Rightarrow> (os_file \<times> bytes \<times> fact list) option" where
  "read_facts de 0 f payload facts = Some (f, payload, facts)"
| "read_facts de (Suc n) f payload facts =
     (case file_read_exact 4 f of
        None \<Rightarrow> None
      | Some (len_buf, f1) \<Rightarrow>
          let fact_len = unat (u32_from_le_bytes len_buf) in
          if fact_len > MAX_FACT_SIZE then None
          else (case file_read_exact fact_len f1 of
                  None \<Rightarrow> None
                | Some (fact_bytes, f2) \<Rightarrow>
                    (case de fact_bytes of
                       None \<Rightarrow> None
                     | Some g \<Rightarrow>
                         read_facts de n f2 (payload @ len_buf @ fact_bytes) (facts @ [g]))))"

text \<open>One round of the outer loop: \<open>None\<close> is \<open>break\<close>.  \<open>usize\<close> has 64 bits, so the conversion of
  \<open>num_facts\<close> does not fail.\<close>

definition read_entry ::
    "(bytes \<Rightarrow> fact option) \<Rightarrow> (bytes \<Rightarrow> u32) \<Rightarrow> os_file \<Rightarrow> (wal_entry \<times> os_file) option" where
  "read_entry de crc f =
     (case file_read_exact 4 f of
        None \<Rightarrow> None
      | Some (csum_buf, f1) \<Rightarrow>
          (case file_read_exact 8 f1 of
             None \<Rightarrow> None
           | Some (tx_count_buf, f2) \<Rightarrow>
               (case file_read_exact 8 f2 of
                  None \<Rightarrow> None
                | Some (num_facts_buf, f3) \<Rightarrow>
                    let num_facts = unat (u64_from_le_bytes num_facts_buf) in
                    if num_facts > MAX_FACTS_PER_ENTRY then None
                    else (case read_facts de num_facts f3 (tx_count_buf @ num_facts_buf) [] of
                            None \<Rightarrow> None
                          | Some (f4, payload, facts) \<Rightarrow>
                              if u32_from_le_bytes csum_buf \<noteq> crc payload then None
                              else Some (\<lparr> we_tx_count = u64_from_le_bytes tx_count_buf, we_facts = facts \<rparr>, f4)))))"

lemma read_facts_Suc:
  assumes "read_facts de (Suc n) f p fs = Some r"
  obtains len_buf f1 bs f2 g where "file_read_exact 4 f = Some (len_buf, f1)"
    "\<not> unat (u32_from_le_bytes len_buf) > MAX_FACT_SIZE"
    "file_read_exact (unat (u32_from_le_bytes len_buf)) f1 = Some (bs, f2)" "de bs = Some g"
    "read_facts de n f2 (p @ len_buf @ bs) (fs @ [g]) = Some r"
  using assms by (auto simp: Let_def split: option.splits if_splits)

lemma read_facts_pos:
  "read_facts de n f p fs = Some (f', p', fs') \<Longrightarrow> fl_pos f \<le> fl_pos f' \<and> fl_data f' = fl_data f \<and>
     (fl_pos f \<le> length (fl_data f) \<longrightarrow> fl_pos f' \<le> length (fl_data f))"
proof (induction n arbitrary: f p fs)
  case (Suc n)
  from Suc.prems show ?case
  proof (rule read_facts_Suc)
    fix len_buf f1 bs f2 g
    assume r: "file_read_exact 4 f = Some (len_buf, f1)"
      "file_read_exact (unat (u32_from_le_bytes len_buf)) f1 = Some (bs, f2)"
      and rest: "read_facts de n f2 (p @ len_buf @ bs) (fs @ [g]) = Some (f', p', fs')"
    show ?thesis using Suc.IH [OF rest] r by (auto simp: file_read_exact_Some)
  qed
qed simp

lemma read_entry_Some:
  assumes "read_entry de crc f = Some (e, f')"
  obtains csum f1 t f2 n f3 payload facts where "file_read_exact 4 f = Some (csum, f1)"
    "file_read_exact 8 f1 = Some (t, f2)" "file_read_exact 8 f2 = Some (n, f3)"
    "\<not> unat (u64_from_le_bytes n) > MAX_FACTS_PER_ENTRY"
    "read_facts de (unat (u64_from_le_bytes n)) f3 (t @ n) [] = Some (f', payload, facts)"
    "u32_from_le_bytes csum = crc payload" "e = \<lparr> we_tx_count = u64_from_le_bytes t, we_facts = facts \<rparr>"
  using assms by (auto simp: read_entry_def Let_def split: option.splits if_splits)

lemma read_entry_pos:
  assumes "read_entry de crc f = Some (e, f')"
  shows "fl_pos f < fl_pos f' \<and> fl_pos f < length (fl_data f) \<and> fl_data f' = fl_data f \<and> fl_pos f' \<le> length (fl_data f)"
proof -
  obtain csum f1 t f2 n f3 payload facts where r: "file_read_exact 4 f = Some (csum, f1)"
    "file_read_exact 8 f1 = Some (t, f2)" "file_read_exact 8 f2 = Some (n, f3)"
    "read_facts de (unat (u64_from_le_bytes n)) f3 (t @ n) [] = Some (f', payload, facts)"
    using assms by (rule read_entry_Some)
  show ?thesis using r(1-3) read_facts_pos [OF r(4)] by (auto simp: file_read_exact_Some)
qed

function visit_from ::
    "(bytes \<Rightarrow> fact option) \<Rightarrow> (bytes \<Rightarrow> u32) \<Rightarrow> (wal_entry \<Rightarrow> 's \<Rightarrow> 'e + 's) \<Rightarrow> os_file \<Rightarrow> 's \<Rightarrow> 'e + 's" where
  "visit_from de crc visit f s =
     (case read_entry de crc f of
        None \<Rightarrow> Inr s
      | Some (e, f') \<Rightarrow>
          (case visit e s of Inl err \<Rightarrow> Inl err | Inr s' \<Rightarrow> visit_from de crc visit f' s'))"
  by pat_completeness auto
termination
  by (relation "measure (\<lambda>(_, _, _, f, _). length (fl_data f) - fl_pos f)")
     (auto dest!: read_entry_pos)

declare visit_from.simps [simp del]

definition visit_entries ::
    "(bytes \<Rightarrow> fact option) \<Rightarrow> (bytes \<Rightarrow> u32) \<Rightarrow> (wal_entry \<Rightarrow> 's \<Rightarrow> 'e + 's) \<Rightarrow> os_file \<Rightarrow> 's \<Rightarrow> 'e + 's" where
  "visit_entries de crc visit f = visit_from de crc visit (file_seek WAL_HEADER_SIZE f)"

definition read_entries ::
    "(bytes \<Rightarrow> fact option) \<Rightarrow> (bytes \<Rightarrow> u32) \<Rightarrow> os_file \<Rightarrow> wal_error + wal_entry list" where
  "read_entries de crc f = visit_entries de crc (\<lambda>e es. Inr (es @ [e])) f []"

section \<open>Reading what was written\<close>

text \<open>Serialisation works on the facts of an entry, and the reader accepts their number.\<close>

definition entry_ok :: "(fact \<Rightarrow> bytes option) \<Rightarrow> (bytes \<Rightarrow> fact option) \<Rightarrow> wal_entry \<Rightarrow> bool" where
  "entry_ok ser de e \<longleftrightarrow> length (we_facts e) \<le> MAX_FACTS_PER_ENTRY \<and>
     (\<forall>f \<in> set (we_facts e). \<exists>bs. ser f = Some bs \<and> length bs \<le> MAX_FACT_BYTES \<and> de bs = Some f)"

abbreviation entry_bytes :: "(fact \<Rightarrow> bytes option) \<Rightarrow> (bytes \<Rightarrow> u32) \<Rightarrow> wal_entry \<Rightarrow> wal_error + bytes" where
  "entry_bytes ser crc e \<equiv> serialize_entry ser crc (we_tx_count e) (we_facts e)"

lemma file_read_here:
  assumes "fl_data f = pre @ xs @ post" "fl_pos f = length pre" "length xs = n"
  shows "file_read_exact n f = Some (xs, f\<lparr> fl_pos := length (pre @ xs) \<rparr>)"
  using assms by (simp add: file_read_exact_def slice_get_def)

lemma max_fact_sizes: "MAX_FACT_BYTES < 2 ^ 32" "MAX_FACT_BYTES \<le> MAX_FACT_SIZE"
  by (simp_all add: MAX_FACT_BYTES_def MAX_FACT_SIZE_def PAGE_SIZE_def PACKED_HEADER_SIZE_def)

lemma serialize_facts_ok:
  assumes "\<forall>f \<in> set fs. \<exists>bs. ser f = Some bs \<and> length bs \<le> MAX_FACT_BYTES \<and> de bs = Some f"
  shows "\<exists>body. serialize_facts ser fs = Inr body"
  using assms
proof (induction fs)
  case (Cons f fs)
  then obtain bs body where "ser f = Some bs" "length bs \<le> MAX_FACT_BYTES" "serialize_facts ser fs = Inr body" by auto
  then show ?case using max_fact_sizes(1) by simp
qed simp

lemma entry_ok_bytes: "entry_ok ser de e \<Longrightarrow> \<exists>bs. entry_bytes ser crc e = Inr bs"
  using serialize_facts_ok [of "we_facts e" ser de] by (auto simp: entry_ok_def serialize_entry_def Let_def)

lemma read_facts_written:
  assumes "\<forall>f \<in> set fs. \<exists>bs. ser f = Some bs \<and> length bs \<le> MAX_FACT_BYTES \<and> de bs = Some f"
    "serialize_facts ser fs = Inr body" "fl_data f = pre @ body @ post" "fl_pos f = length pre"
  shows "read_facts de (length fs) f payload acc = Some (f\<lparr> fl_pos := length (pre @ body) \<rparr>, payload @ body, acc @ fs)"
  using assms
proof (induction fs arbitrary: f pre body payload acc)
  case Nil
  then show ?case by (cases f) simp
next
  case (Cons g fs)
  obtain bs where bs: "ser g = Some bs" "length bs \<le> MAX_FACT_BYTES" "de bs = Some g" using Cons.prems(1) by auto
  have small: "length bs < 2 ^ 32" "length bs \<le> MAX_FACT_SIZE" using bs(2) max_fact_sizes by simp_all
  obtain rest where rest: "serialize_facts ser fs = Inr rest"
    and body: "body = u32_to_le_bytes (of_nat (length bs)) @ bs @ rest"
    using Cons.prems(2) bs small by (auto split: sum.splits)
  let ?len = "u32_to_le_bytes (of_nat (length bs) :: u32)"
  let ?f1 = "f\<lparr> fl_pos := length (pre @ ?len) \<rparr>"
  let ?f2 = "?f1\<lparr> fl_pos := length ((pre @ ?len) @ bs) \<rparr>"
  have r1: "file_read_exact 4 f = Some (?len, ?f1)"
    using Cons.prems(3,4) by (intro file_read_here [of _ _ _ "bs @ rest @ post"]) (simp_all add: body)
  have r2: "file_read_exact (length bs) ?f1 = Some (bs, ?f2)"
    using Cons.prems(3) by (intro file_read_here [of _ _ _ "rest @ post"]) (simp_all add: body)
  have u: "unat (of_nat (length bs) :: u32) = length bs" using small(1) by (intro unat_of_nat_eq) simp
  have r2': "file_read_exact (unat (of_nat (length bs) :: u32)) ?f1 = Some (bs, ?f2)"
    using r2 by (simp only: u)
  have "read_facts de (length fs) ?f2 (payload @ ?len @ bs) (acc @ [g]) =
      Some (?f2\<lparr> fl_pos := length (((pre @ ?len) @ bs) @ rest) \<rparr>, (payload @ ?len @ bs) @ rest, (acc @ [g]) @ fs)"
    using Cons.prems(1,3) rest by (intro Cons.IH) (simp_all add: body)
  then show ?case
    unfolding length_Cons read_facts.simps r1 option.case prod.case from_le_to_le Let_def r2' bs(3)
    using small(2) u by (simp add: body)
qed

lemma read_entry_written:
  assumes "entry_ok ser de e" "entry_bytes ser crc e = Inr bs" "fl_data f = pre @ bs @ post" "fl_pos f = length pre"
  shows "read_entry de crc f = Some (e, f\<lparr> fl_pos := length (pre @ bs) \<rparr>)"
proof -
  let ?t = "u64_to_le_bytes (we_tx_count e)" and ?n = "u64_to_le_bytes (of_nat (length (we_facts e)) :: u64)"
  obtain body where body: "serialize_facts ser (we_facts e) = Inr body"
    and bs: "bs = u32_to_le_bytes (crc (?t @ ?n @ body)) @ ?t @ ?n @ body"
    using assms(2) by (auto simp: serialize_entry_def Let_def split: sum.splits)
  let ?c = "u32_to_le_bytes (crc (?t @ ?n @ body))"
  let ?f1 = "f\<lparr> fl_pos := length (pre @ ?c) \<rparr>"
  let ?f2 = "?f1\<lparr> fl_pos := length ((pre @ ?c) @ ?t) \<rparr>"
  let ?f3 = "?f2\<lparr> fl_pos := length (((pre @ ?c) @ ?t) @ ?n) \<rparr>"
  have "file_read_exact 4 f = Some (?c, ?f1)"
    using assms(3,4) by (intro file_read_here [of _ _ _ "?t @ ?n @ body @ post"]) (simp_all add: bs)
  moreover have "file_read_exact 8 ?f1 = Some (?t, ?f2)"
    using assms(3) by (intro file_read_here [of _ _ _ "?n @ body @ post"]) (simp_all add: bs)
  moreover have "file_read_exact 8 ?f2 = Some (?n, ?f3)"
    using assms(3) by (intro file_read_here [of _ _ _ "body @ post"]) (simp_all add: bs)
  ultimately have r: "file_read_exact 4 f = Some (?c, ?f1)" "file_read_exact 8 ?f1 = Some (?t, ?f2)"
    "file_read_exact 8 ?f2 = Some (?n, ?f3)" .
  have small: "length (we_facts e) \<le> MAX_FACTS_PER_ENTRY" using assms(1) by (simp add: entry_ok_def)
  then have u: "unat (of_nat (length (we_facts e)) :: u64) = length (we_facts e)"
    by (intro unat_of_nat_eq) (simp add: MAX_FACTS_PER_ENTRY_def)
  have rf: "read_facts de (length (we_facts e)) ?f3 (?t @ ?n) [] =
      Some (?f3\<lparr> fl_pos := length ((((pre @ ?c) @ ?t) @ ?n) @ body) \<rparr>, (?t @ ?n) @ body, [] @ we_facts e)"
    using assms(1,3) body by (intro read_facts_written) (simp_all add: entry_ok_def bs)
  have rf': "read_facts de (unat (of_nat (length (we_facts e)) :: u64)) ?f3 (?t @ ?n) [] =
      Some (?f3\<lparr> fl_pos := length ((((pre @ ?c) @ ?t) @ ?n) @ body) \<rparr>, (?t @ ?n) @ body, [] @ we_facts e)"
    using rf by (simp only: u)
  show ?thesis
    unfolding read_entry_def r option.case prod.case from_le_to_le Let_def rf'
    using small u by (simp add: bs)
qed

text \<open>Appending bytes to the file does not change an entry that was read.\<close>

lemma file_read_extend:
  assumes "file_read_exact n f = Some (bs, f')"
  shows "file_read_exact n (f\<lparr> fl_data := fl_data f @ ext \<rparr>) = Some (bs, f'\<lparr> fl_data := fl_data f @ ext \<rparr>)"
  using assms by (auto simp: file_read_exact_Some)

lemma read_facts_extend:
  assumes "read_facts de n f p fs = Some (f', p', fs')" "d = fl_data f @ ext"
  shows "read_facts de n (f\<lparr> fl_data := d \<rparr>) p fs = Some (f'\<lparr> fl_data := d \<rparr>, p', fs')"
  using assms
proof (induction n arbitrary: f p fs)
  case (Suc n)
  from Suc.prems(1) show ?case
  proof (rule read_facts_Suc)
    fix len_buf f1 bs f2 g
    assume r: "file_read_exact 4 f = Some (len_buf, f1)" "\<not> unat (u32_from_le_bytes len_buf) > MAX_FACT_SIZE"
      "file_read_exact (unat (u32_from_le_bytes len_buf)) f1 = Some (bs, f2)" "de bs = Some g"
      and rest: "read_facts de n f2 (p @ len_buf @ bs) (fs @ [g]) = Some (f', p', fs')"
    have data: "fl_data f1 = fl_data f" "fl_data f2 = fl_data f" using r by (auto simp: file_read_exact_Some)
    note ext1 = file_read_extend [OF r(1), of ext] and ext2 = file_read_extend [OF r(3), of ext]
    show ?thesis
      using ext1 ext2 Suc.IH [OF rest] r(2,4) by (simp add: data Suc.prems(2) Let_def)
  qed
qed simp

lemma read_entry_extend:
  assumes "read_entry de crc f = Some (e, f')"
  shows "read_entry de crc (f\<lparr> fl_data := fl_data f @ ext \<rparr>) = Some (e, f'\<lparr> fl_data := fl_data f @ ext \<rparr>)"
proof -
  obtain csum f1 t f2 n f3 payload facts where r: "file_read_exact 4 f = Some (csum, f1)"
    "file_read_exact 8 f1 = Some (t, f2)" "file_read_exact 8 f2 = Some (n, f3)"
    "\<not> unat (u64_from_le_bytes n) > MAX_FACTS_PER_ENTRY"
    "read_facts de (unat (u64_from_le_bytes n)) f3 (t @ n) [] = Some (f', payload, facts)"
    "u32_from_le_bytes csum = crc payload" "e = \<lparr> we_tx_count = u64_from_le_bytes t, we_facts = facts \<rparr>"
    using assms by (rule read_entry_Some)
  have data: "fl_data f1 = fl_data f" "fl_data f2 = fl_data f" "fl_data f3 = fl_data f"
    using r(1-3) by (auto simp: file_read_exact_Some)
  have rf: "read_facts de (unat (u64_from_le_bytes n)) (f3\<lparr> fl_data := fl_data f @ ext \<rparr>) (t @ n) [] =
      Some (f'\<lparr> fl_data := fl_data f @ ext \<rparr>, payload, facts)"
    using read_facts_extend [OF r(5)] data by simp
  show ?thesis
    using file_read_extend [OF r(1), of ext] file_read_extend [OF r(2), of ext] file_read_extend [OF r(3), of ext]
      rf r(4,6,7) by (simp add: read_entry_def data Let_def)
qed

lemma read_entry_torn:
  assumes "entry_ok ser de e" "entry_bytes ser crc e = Inr bs" "fl_data f = pre @ take k bs" "fl_pos f = length pre" "k < length bs"
  shows "read_entry de crc f = None"
proof (rule ccontr)
  assume "read_entry de crc f \<noteq> None"
  then obtain e' f' where r: "read_entry de crc f = Some (e', f')" by auto
  have "read_entry de crc (f\<lparr> fl_data := fl_data f @ drop k bs \<rparr>) = Some (e, f\<lparr> fl_data := fl_data f @ drop k bs, fl_pos := length (pre @ bs) \<rparr>)"
    using read_entry_written [OF assms(1,2), of "f\<lparr> fl_data := fl_data f @ drop k bs \<rparr>" pre "[]"] assms(3,4) by simp
  then have "f'\<lparr> fl_data := fl_data f @ drop k bs \<rparr> = f\<lparr> fl_data := fl_data f @ drop k bs, fl_pos := length (pre @ bs) \<rparr>"
    unfolding read_entry_extend [OF r, of "drop k bs"] by (simp only: option.inject prod.inject)
  then have "fl_pos f' = length (pre @ bs)" by (cases f; cases f') simp
  moreover have "fl_pos f' \<le> length (pre @ take k bs)" using read_entry_pos [OF r] assms(3) by simp
  ultimately show False using assms(5) by simp
qed

lemma read_entry_eof: "length (fl_data f) \<le> fl_pos f + 3 \<Longrightarrow> read_entry de crc f = None"
  by (simp add: read_entry_def file_read_exact_def slice_get_def)

lemma visit_written:
  assumes "list_all2 (\<lambda>e bs. entry_ok ser de e \<and> entry_bytes ser crc e = Inr bs) es bss"
    "fl_data f = pre @ concat bss @ tail" "fl_pos f = length pre"
    "read_entry de crc (f\<lparr> fl_pos := length (pre @ concat bss) \<rparr>) = None"
  shows "visit_from de crc visit f s = res_fold visit es s"
  using assms
proof (induction es bss arbitrary: f pre s rule: list_all2_induct)
  case Nil
  have "f\<lparr> fl_pos := length pre \<rparr> = f" using Nil(2) by (cases f) simp
  with Nil(3) have "read_entry de crc f = None" by (simp only: concat.simps append_Nil2)
  then show ?case by (simp add: visit_from.simps)
next
  case (Cons e es bs bss)
  let ?f' = "f\<lparr> fl_pos := length (pre @ bs) \<rparr>"
  have r: "read_entry de crc f = Some (e, ?f')"
    using read_entry_written [of ser de e crc bs f pre "concat bss @ tail"] Cons.hyps(1) Cons.prems(1,2) by simp
  have IH: "visit_from de crc visit ?f' s' = res_fold visit es s'" for s'
    using Cons.IH [of ?f' "pre @ bs" s'] Cons.prems(1,3) by simp
  show ?case
    by (subst visit_from.simps) (cases "visit e s"; simp add: r IH [simplified])
qed

section \<open>Sessions of the writer\<close>

definition append_all ::
    "(fact \<Rightarrow> bytes option) \<Rightarrow> (bytes \<Rightarrow> u32) \<Rightarrow> wal_entry list \<Rightarrow> os_file \<Rightarrow> wal_error + os_file" where
  "append_all ser crc = res_fold (\<lambda>e w. append_entry ser crc w (we_tx_count e) (we_facts e))"

text \<open>A session opens the path, appends entries and ends, leaving the file as the path's contents.\<close>

definition wal_session ::
    "(fact \<Rightarrow> bytes option) \<Rightarrow> (bytes \<Rightarrow> u32) \<Rightarrow> wal_entry list \<Rightarrow> bytes option \<Rightarrow> wal_error + bytes option" where
  "wal_session ser crc es path =
     res_bind (open_or_create path) (\<lambda>w. res_bind (append_all ser crc es w) (\<lambda>w'. Inr (Some (fl_data w'))))"

definition read_wal ::
    "(bytes \<Rightarrow> fact option) \<Rightarrow> (bytes \<Rightarrow> u32) \<Rightarrow> bytes option \<Rightarrow> wal_error + wal_entry list" where
  "read_wal de crc path = res_bind (reader_open path) (read_entries de crc)"

text \<open>The contents of a log that holds the entries \<open>es\<close>.\<close>

definition log_image ::
    "(fact \<Rightarrow> bytes option) \<Rightarrow> (bytes \<Rightarrow> fact option) \<Rightarrow> (bytes \<Rightarrow> u32) \<Rightarrow> wal_entry list \<Rightarrow> bytes \<Rightarrow> bool" where
  "log_image ser de crc es d \<longleftrightarrow>
     (\<exists>bss. d = wal_header @ concat bss \<and>
        list_all2 (\<lambda>e bs. entry_ok ser de e \<and> entry_bytes ser crc e = Inr bs) es bss)"

lemma length_wal_header [simp]: "length wal_header = 32"
  by (simp add: wal_header_def WAL_MAGIC_def)

lemma wal_header_fields: "take 4 wal_header = WAL_MAGIC" "u32_from_le_bytes (take 4 (drop 4 wal_header)) = WAL_VERSION"
  by code_simp+

lemma validate_wal_header_ok:
  assumes "fl_data f = wal_header @ tail"
  shows "validate_wal_header f = Inr (f\<lparr> fl_pos := 32 \<rparr>)"
proof -
  have "file_read_exact 32 (file_seek 0 f) = Some (wal_header, f\<lparr> fl_pos := 32 \<rparr>)"
    using file_read_here [of "file_seek 0 f" "[]" wal_header tail 32] assms by (simp add: file_seek_def)
  then show ?thesis by (simp add: validate_wal_header_def wal_header_fields)
qed

lemma open_or_create_new:
  assumes "case path of None \<Rightarrow> True | Some d \<Rightarrow> length d < 32"
  shows "open_or_create path = Inr \<lparr> fl_data = wal_header, fl_pos = length wal_header \<rparr>"
  using assms
  by (auto simp: open_or_create_def write_wal_header_def file_write_all_def file_seek_def file_seek_end_def file_of_def
        split: option.splits)

lemma open_or_create_existing:
  "open_or_create (Some (wal_header @ tail)) = Inr \<lparr> fl_data = wal_header @ tail, fl_pos = length (wal_header @ tail) \<rparr>"
  by (simp add: open_or_create_def validate_wal_header_ok file_of_def file_seek_end_def)

lemma reader_open_ok:
  "reader_open (Some (wal_header @ tail)) = Inr \<lparr> fl_data = wal_header @ tail, fl_pos = 32 \<rparr>"
  by (simp add: reader_open_def validate_wal_header_ok file_of_def)

lemma append_all_written:
  assumes "\<forall>e \<in> set es. entry_ok ser de e"
  shows "\<exists>bss. list_all2 (\<lambda>e bs. entry_ok ser de e \<and> entry_bytes ser crc e = Inr bs) es bss \<and>
    (\<forall>d. append_all ser crc es \<lparr> fl_data = d, fl_pos = length d \<rparr> =
       Inr \<lparr> fl_data = d @ concat bss, fl_pos = length (d @ concat bss) \<rparr>)"
  using assms
proof (induction es)
  case (Cons e es)
  obtain bs where bs: "entry_bytes ser crc e = Inr bs" using entry_ok_bytes Cons.prems by fastforce
  obtain bss where bss: "list_all2 (\<lambda>e bs. entry_ok ser de e \<and> entry_bytes ser crc e = Inr bs) es bss"
    "\<And>d. append_all ser crc es \<lparr> fl_data = d, fl_pos = length d \<rparr> =
       Inr \<lparr> fl_data = d @ concat bss, fl_pos = length (d @ concat bss) \<rparr>"
    using Cons by auto
  have "append_all ser crc (e # es) \<lparr> fl_data = d, fl_pos = length d \<rparr> =
      Inr \<lparr> fl_data = d @ concat (bs # bss), fl_pos = length (d @ concat (bs # bss)) \<rparr>" for d
    using bss(2) [of "d @ bs"] by (simp add: append_all_def append_entry_def bs file_write_all_end)
  then show ?case using bss(1) bs Cons.prems by (intro exI [of _ "bs # bss"]) simp
qed (simp add: append_all_def)

lemma wal_session_image:
  assumes "log_image ser de crc es d" "\<forall>e \<in> set es'. entry_ok ser de e"
  shows "\<exists>d'. wal_session ser crc es' (Some d) = Inr (Some d') \<and> log_image ser de crc (es @ es') d'"
proof -
  obtain bss where d: "d = wal_header @ concat bss"
    "list_all2 (\<lambda>e bs. entry_ok ser de e \<and> entry_bytes ser crc e = Inr bs) es bss"
    using assms(1) by (auto simp: log_image_def)
  obtain bss' where a: "list_all2 (\<lambda>e bs. entry_ok ser de e \<and> entry_bytes ser crc e = Inr bs) es' bss'"
    "\<And>d. append_all ser crc es' \<lparr> fl_data = d, fl_pos = length d \<rparr> =
       Inr \<lparr> fl_data = d @ concat bss', fl_pos = length (d @ concat bss') \<rparr>"
    using append_all_written [OF assms(2), of crc] by blast
  have "log_image ser de crc (es @ es') (d @ concat bss')"
    unfolding log_image_def using d a(1) by (intro exI [of _ "bss @ bss'"]) (simp add: list_all2_appendI)
  then show ?thesis using a(2) [of d] by (simp add: wal_session_def d(1) open_or_create_existing)
qed

lemma log_image_empty: "log_image ser de crc [] wal_header"
  by (simp add: log_image_def)

lemma wal_session_new:
  assumes "case path of None \<Rightarrow> True | Some d \<Rightarrow> length d < 32"
  shows "wal_session ser crc es path = wal_session ser crc es (Some wal_header)"
  using open_or_create_new [OF assms] open_or_create_existing [of "[]"] by (simp add: wal_session_def)

lemma visit_image:
  assumes "log_image ser de crc es d"
    "read_entry de crc \<lparr> fl_data = d @ tail, fl_pos = length d \<rparr> = None"
  shows "\<exists>f. reader_open (Some (d @ tail)) = Inr f \<and> visit_entries de crc visit f s = res_fold visit es s"
proof -
  obtain bss where d: "d = wal_header @ concat bss"
    "list_all2 (\<lambda>e bs. entry_ok ser de e \<and> entry_bytes ser crc e = Inr bs) es bss"
    using assms(1) by (auto simp: log_image_def)
  have "visit_from de crc visit \<lparr> fl_data = d @ tail, fl_pos = 32 \<rparr> s = res_fold visit es s"
    using assms(2) by (intro visit_written [OF d(2), of _ wal_header tail]) (simp_all add: d(1))
  then show ?thesis by (simp add: d(1) reader_open_ok visit_entries_def file_seek_def)
qed

lemma read_wal_image:
  assumes "log_image ser de crc es d"
    "read_entry de crc \<lparr> fl_data = d @ tail, fl_pos = length d \<rparr> = None"
  shows "read_wal de crc (Some (d @ tail)) = Inr es"
proof -
  have "res_fold (\<lambda>e es. Inr (es @ [e])) es acc = (Inr (acc @ es) :: wal_error + wal_entry list)" for acc
    by (induction es arbitrary: acc) simp_all
  then show ?thesis
    using visit_image [OF assms, of "\<lambda>e es. Inr (es @ [e]) :: wal_error + wal_entry list" "[]"] by (auto simp: read_wal_def read_entries_def)
qed

lemma wal_session_from_image:
  assumes "wal_session ser crc es None = Inr (Some d)" "\<forall>e \<in> set es. entry_ok ser de e"
  shows "log_image ser de crc es d"
  using wal_session_image [OF log_image_empty assms(2), of crc] assms(1) by (simp add: wal_session_new)

lemma log_image_snoc:
  assumes "log_image ser de crc es d" "entry_ok ser de e" "entry_bytes ser crc e = Inr bs"
  shows "log_image ser de crc (es @ [e]) (d @ bs)"
proof -
  obtain bss where d: "d = wal_header @ concat bss"
    "list_all2 (\<lambda>e bs. entry_ok ser de e \<and> entry_bytes ser crc e = Inr bs) es bss"
    using assms(1) by (auto simp: log_image_def)
  then show ?thesis unfolding log_image_def using assms(2,3)
    by (intro exI [of _ "bss @ [bs]"]) (simp add: list_all2_appendI)
qed

lemma wal_sessions_image:
  assumes "log_image ser de crc es d" "\<forall>es \<in> set ess. \<forall>e \<in> set es. entry_ok ser de e"
  shows "\<exists>d'. res_fold (wal_session ser crc) ess (Some d) = Inr (Some d') \<and> log_image ser de crc (es @ concat ess) d'"
  using assms
proof (induction ess arbitrary: es d)
  case (Cons es' ess)
  obtain d1 where "wal_session ser crc es' (Some d) = Inr (Some d1)" "log_image ser de crc (es @ es') d1"
    using wal_session_image [OF Cons.prems(1)] Cons.prems(2) by force
  then show ?case using Cons.IH [of "es @ es'" d1] Cons.prems(2) by simp
qed auto

lemma read_wal_complete:
  assumes "log_image ser de crc es d"
  shows "read_wal de crc (Some d) = Inr es"
  using read_wal_image [OF assms, of "[]"] by (simp add: read_entry_eof)

text \<open>Twenty bytes of an entry determine whether the reader goes on to its facts.\<close>

lemma serialize_entry_head:
  assumes "serialize_entry ser crc txc facts = Inr bs"
  shows "take 20 bs = take 4 bs @ u64_to_le_bytes txc @ u64_to_le_bytes (of_nat (length facts) :: u64)" "20 \<le> length bs"
  using assms by (auto simp: serialize_entry_def Let_def split: sum.splits)

lemma read_entry_stops:
  assumes "serialize_entry ser crc txc facts = Inr bs" "length facts < 2 ^ 64" "fl_data f = pre @ take 20 bs @ rest" "fl_pos f = length pre"
    "length facts \<le> MAX_FACTS_PER_ENTRY \<Longrightarrow>
       (\<And>p acc. read_facts de (length facts) (f\<lparr> fl_pos := length (pre @ take 20 bs) \<rparr>) p acc = None)"
  shows "read_entry de crc f = None"
proof -
  let ?c = "take 4 bs" and ?t = "u64_to_le_bytes txc" and ?n = "u64_to_le_bytes (of_nat (length facts) :: u64)"
  note head = serialize_entry_head [OF assms(1)]
  have u: "unat (of_nat (length facts) :: u64) = length facts" using assms(2) by (intro unat_of_nat_eq) simp
  have r: "file_read_exact 4 f = Some (?c, f\<lparr> fl_pos := length (pre @ ?c) \<rparr>)"
    "file_read_exact 8 (f\<lparr> fl_pos := length (pre @ ?c) \<rparr>) = Some (?t, f\<lparr> fl_pos := length ((pre @ ?c) @ ?t) \<rparr>)"
    "file_read_exact 8 (f\<lparr> fl_pos := length ((pre @ ?c) @ ?t) \<rparr>) = Some (?n, f\<lparr> fl_pos := length (((pre @ ?c) @ ?t) @ ?n) \<rparr>)"
    using file_read_here [of f pre ?c "?t @ ?n @ rest" 4]
      file_read_here [of "f\<lparr> fl_pos := length (pre @ ?c) \<rparr>" "pre @ ?c" ?t "?n @ rest" 8]
      file_read_here [of "f\<lparr> fl_pos := length ((pre @ ?c) @ ?t) \<rparr>" "(pre @ ?c) @ ?t" ?n rest 8]
      head assms(3,4) by simp_all
  have p: "((pre @ ?c) @ ?t) @ ?n = pre @ take 20 bs" by (simp only: head(1) append_assoc)
  have rf: "\<not> unat (of_nat (length facts) :: u64) > MAX_FACTS_PER_ENTRY \<Longrightarrow>
      read_facts de (unat (of_nat (length facts) :: u64)) (f\<lparr> fl_pos := length (((pre @ ?c) @ ?t) @ ?n) \<rparr>) q acc = None" for q acc
    unfolding p using assms(5) by (simp only: u not_less)
  show ?thesis
    unfolding read_entry_def r option.case prod.case Let_def from_le_to_le using rf by (simp only: option.case split: if_split) simp
qed

text \<open>Where the facts of an entry are missing, the reader takes the next bytes for a fact.\<close>

lemma read_entry_after_header:
  assumes "serialize_entry ser crc txc facts = Inr bs" "facts \<noteq> []" "length facts < 2 ^ 64"
    "4 \<le> length rest" "unat (u32_from_le_bytes (take 4 rest)) > MAX_FACT_SIZE"
  shows "read_entry de crc \<lparr> fl_data = pre @ take 20 bs @ rest, fl_pos = length pre \<rparr> = None"
proof (rule read_entry_stops [OF assms(1,3)])
  let ?f = "\<lparr> fl_data = pre @ take 20 bs @ rest, fl_pos = length (pre @ take 20 bs) \<rparr>"
  have "file_read_exact 4 ?f = Some (take 4 rest, ?f\<lparr> fl_pos := length ((pre @ take 20 bs) @ take 4 rest) \<rparr>)"
    using file_read_here [of ?f "pre @ take 20 bs" "take 4 rest" "drop 4 rest" 4] assms(4) by simp
  then have "read_facts de (length facts) ?f p acc = None" for p acc
    using assms(2,5) by (cases facts) simp_all
  then show "read_facts de (length facts) (\<lparr> fl_data = pre @ take 20 bs @ rest, fl_pos = length pre \<rparr>
      \<lparr> fl_pos := length (pre @ take 20 bs) \<rparr>) p acc = None" for p acc by simp
qed simp_all

lemma read_entry_oversize:
  assumes "serialize_entry ser crc txc facts = Inr bs" "MAX_FACTS_PER_ENTRY < length facts" "length facts < 2 ^ 64"
  shows "read_entry de crc \<lparr> fl_data = pre @ bs @ rest, fl_pos = length pre \<rparr> = None"
proof (rule read_entry_stops [OF assms(1,3)])
  show "fl_data \<lparr> fl_data = pre @ bs @ rest, fl_pos = length pre \<rparr> = pre @ take 20 bs @ (drop 20 bs @ rest)"
    by (simp flip: append_assoc)
qed (use assms(2) in simp_all)

lemma wal_session_append:
  assumes "wal_session ser crc es None = Inr (Some d)" "\<forall>e \<in> set es. entry_ok ser de e"
    "entry_bytes ser crc e = Inr bs"
  shows "wal_session ser crc [e] (Some (d @ tail)) = Inr (Some (d @ tail @ bs))"
  using wal_session_from_image [OF assms(1,2)] assms(3)
  by (auto simp: log_image_def wal_session_def open_or_create_existing append_all_def append_entry_def file_write_all_end)

section \<open>Properties\<close>

text \<open>C9: what was appended is read back.  A log created by one session (also over a file shorter than the
  log header) and extended by any number of later sessions holds, for a reader, the entries of all
  sessions in the order in which they were appended.\<close>

theorem wal_sessions_roundtrip:
  assumes "case path of None \<Rightarrow> True | Some d \<Rightarrow> length d < WAL_HEADER_SIZE"
    "\<forall>es \<in> set (es # ess). \<forall>e \<in> set es. entry_ok ser de e"
  shows "\<exists>d. res_fold (wal_session ser crc) (es # ess) path = Inr (Some d) \<and>
     read_wal de crc (Some d) = Inr (es @ concat ess)"
proof -
  obtain d where "res_fold (wal_session ser crc) (es # ess) (Some wal_header) = Inr (Some d)"
    "log_image ser de crc ([] @ concat (es # ess)) d"
    using wal_sessions_image [OF log_image_empty assms(2)] by blast
  then show ?thesis using wal_session_new [OF assms(1)] by (auto simp: read_wal_complete)
qed

theorem wal_sessions_roundtrip_witness:
  "let f = fact_new 1 ''a'' Null 5; e = \<lparr> we_tx_count = 1, we_facts = [f, f] \<rparr>; e' = \<lparr> we_tx_count = 2, we_facts = [f] \<rparr> in
   \<exists>d. res_fold (wal_session (\<lambda>_. Some [1]) (\<lambda>_. 7)) [[e], [e']] (Some [0, 1]) = Inr (Some d) \<and>
     read_wal (\<lambda>_. Some f) (\<lambda>_. 7) (Some d) = Inr [e, e']"
proof -
  let ?f = "fact_new 1 ''a'' Null 5"
  have "\<forall>es \<in> set ([\<lparr> we_tx_count = 1, we_facts = [?f, ?f] \<rparr>] # [[\<lparr> we_tx_count = 2, we_facts = [?f] \<rparr>]]).
      \<forall>e \<in> set es. entry_ok (\<lambda>_. Some [1]) (\<lambda>_. Some ?f) e"
    by (simp add: entry_ok_def MAX_FACTS_PER_ENTRY_def MAX_FACT_BYTES_def PAGE_SIZE_def PACKED_HEADER_SIZE_def)
  from wal_sessions_roundtrip [OF _ this, of "Some [0, 1]" "\<lambda>_. 7"] show ?thesis by (simp add: Let_def)
qed

text \<open>C7: an append is atomic for readers.  If a crash leaves only the first \<open>k\<close> bytes of an entry at the end
  of a log, the reader returns the complete entries and nothing else; once all bytes are there it
  returns the new entry as well.\<close>

theorem wal_append_atomic:
  assumes "wal_session ser crc es None = Inr (Some d)" "\<forall>e \<in> set es. entry_ok ser de e"
    "entry_ok ser de e" "serialize_entry ser crc (we_tx_count e) (we_facts e) = Inr bs"
  shows "read_wal de crc (Some (d @ take k bs)) = Inr (if k < length bs then es else es @ [e])"
proof (cases "k < length bs")
  case True
  note image = wal_session_from_image [OF assms(1,2)]
  have "read_entry de crc \<lparr> fl_data = d @ take k bs, fl_pos = length d \<rparr> = None"
    by (rule read_entry_torn [OF assms(3,4) _ _ True]) simp_all
  from read_wal_image [OF image this] True show ?thesis by simp
next
  case False
  then show ?thesis
    using read_wal_complete [OF log_image_snoc [OF wal_session_from_image [OF assms(1,2)] assms(3,4)]] by simp
qed

theorem wal_append_atomic_witness:
  "let f = fact_new 1 ''a'' Null 5; e = \<lparr> we_tx_count = 1, we_facts = [f] \<rparr> in
   \<exists>d bs. wal_session (\<lambda>_. Some [1]) (\<lambda>_. 7) [e] None = Inr (Some d) \<and>
     serialize_entry (\<lambda>_. Some [1]) (\<lambda>_. 7) 1 [f] = Inr bs \<and> length bs = 25 \<and>
     read_wal (\<lambda>_. Some f) (\<lambda>_. 7) (Some (d @ take 24 bs)) = Inr [e] \<and>
     read_wal (\<lambda>_. Some f) (\<lambda>_. 7) (Some (d @ take 25 bs)) = Inr [e, e]"
proof -
  let ?f = "fact_new 1 ''a'' Null 5" let ?e = "\<lparr> we_tx_count = 1, we_facts = [?f] \<rparr>"
  have ok: "entry_ok (\<lambda>_. Some [1]) (\<lambda>_. Some ?f) ?e"
    by (simp add: entry_ok_def MAX_FACTS_PER_ENTRY_def MAX_FACT_BYTES_def PAGE_SIZE_def PACKED_HEADER_SIZE_def)
  obtain d where d: "wal_session (\<lambda>_. Some [1]) (\<lambda>_. 7) [?e] None = Inr (Some d)"
    using wal_session_image [OF log_image_empty, of "[?e]" "\<lambda>_. Some [1]" "\<lambda>_. Some ?f"] ok by (auto simp: wal_session_new)
  obtain bs where bs: "serialize_entry (\<lambda>_. Some [1]) (\<lambda>_. 7) 1 [?f] = Inr bs" "length bs = 25"
    by (simp add: serialize_entry_def MAX_FACT_BYTES_def PAGE_SIZE_def PACKED_HEADER_SIZE_def Let_def)
  have "read_wal (\<lambda>_. Some ?f) (\<lambda>_. 7) (Some (d @ take k bs)) = Inr (if k < 25 then [?e] else [?e] @ [?e])" for k
    using wal_append_atomic [OF d, of "\<lambda>_. Some ?f" ?e bs k] ok bs by simp
  from this [of 24] this [of 25] show ?thesis
    unfolding Let_def using d bs by (intro exI [of _ d] exI [of _ bs]) simp
qed

text \<open>Reopening does not cut off a torn entry.  If a crash left the twenty leading bytes of an entry, a
  later session opens the log without an error and appends an entry successfully, but the reader stops
  at the torn entry and does not return the appended one, whenever that entry's checksum, read as a fact
  length, exceeds the reader's limit.\<close>

theorem torn_tail_hides_later:
  assumes "wal_session ser crc es None = Inr (Some d)" "\<forall>e \<in> set es. entry_ok ser de e"
    "serialize_entry ser crc t1 facts1 = Inr bs1" "facts1 \<noteq> []" "length facts1 < 2 ^ 64"
    "serialize_entry ser crc (we_tx_count e2) (we_facts e2) = Inr bs2"
    "unat (u32_from_le_bytes (take 4 bs2)) > MAX_FACT_SIZE"
  shows "\<exists>d'. wal_session ser crc [e2] (Some (d @ take 20 bs1)) = Inr (Some d') \<and>
     read_wal de crc (Some d') = Inr es"
proof -
  have "4 \<le> length bs2" using serialize_entry_head(2) [OF assms(6)] by simp
  from read_wal_image [OF wal_session_from_image [OF assms(1,2)]
      read_entry_after_header [OF assms(3-5) this assms(7)]]
  show ?thesis using wal_session_append [OF assms(1,2,6)] by simp
qed

theorem torn_tail_hides_later_witness:
  "let ser = (\<lambda>_. Some [1]); f = fact_new 1 ''a'' Null 5; e = \<lparr> we_tx_count = 1, we_facts = [f] \<rparr>; crc = (\<lambda>_. 0xCBF43926) in
   \<exists>d bs d'. wal_session ser crc [] None = Inr (Some d) \<and> serialize_entry ser crc 1 [f] = Inr bs \<and>
     wal_session ser crc [e] (Some (d @ take 20 bs)) = Inr (Some d') \<and> read_wal (\<lambda>_. Some f) crc (Some d') = Inr []"
proof -
  let ?ser = "\<lambda>_. Some [1]" and ?crc = "\<lambda>_. 0xCBF43926" and ?f = "fact_new 1 ''a'' Null 5"
  obtain d where d: "wal_session ?ser ?crc [] None = Inr (Some d)"
    using wal_session_image [OF log_image_empty, of "[]" ?ser "\<lambda>_. Some ?f" ?crc] by (auto simp: wal_session_new)
  obtain bs where bs: "serialize_entry ?ser ?crc 1 [?f] = Inr bs" "take 4 bs = u32_to_le_bytes 0xCBF43926"
    by (simp add: serialize_entry_def MAX_FACT_BYTES_def PAGE_SIZE_def PACKED_HEADER_SIZE_def Let_def)
  have "\<exists>d'. wal_session ?ser ?crc [\<lparr> we_tx_count = 1, we_facts = [?f] \<rparr>] (Some (d @ take 20 bs)) = Inr (Some d') \<and>
      read_wal (\<lambda>_. Some ?f) ?crc (Some d') = Inr []"
    by (rule torn_tail_hides_later [OF d _ bs(1)])
       (simp_all add: bs(1), simp only: bs(2) from_le_to_le, simp add: MAX_FACT_SIZE_def)
  then show ?thesis unfolding Let_def using d bs(1) by blast
qed

text \<open>An entry with more facts than the reader's limit of one million is accepted by the writer, but the
  reader stops in front of it: neither it nor any entry appended after it is returned.\<close>

theorem oversize_entry_unreadable:
  assumes "wal_session ser crc es None = Inr (Some d)" "\<forall>e \<in> set es. entry_ok ser de e"
    "serialize_entry ser crc (we_tx_count e) (we_facts e) = Inr bs"
    "MAX_FACTS_PER_ENTRY < length (we_facts e)" "length (we_facts e) < 2 ^ 64"
    "serialize_entry ser crc (we_tx_count e2) (we_facts e2) = Inr bs2"
  shows "\<exists>d'. wal_session ser crc [e, e2] (Some d) = Inr (Some d') \<and> read_wal de crc (Some d') = Inr es"
proof -
  have "wal_session ser crc [e, e2] (Some d) = Inr (Some (d @ bs @ bs2))"
    using wal_session_from_image [OF assms(1,2)] assms(3,6)
    by (auto simp: log_image_def wal_session_def open_or_create_existing append_all_def append_entry_def file_write_all_end)
  moreover have "read_wal de crc (Some (d @ bs @ bs2)) = Inr es"
    by (rule read_wal_image [OF wal_session_from_image [OF assms(1,2)] read_entry_oversize [OF assms(3-5)]])
  ultimately show ?thesis by blast
qed

theorem oversize_entry_unreadable_witness:
  "let ser = (\<lambda>_. Some []); f = fact_new 1 ''a'' Null 5; e = \<lparr> we_tx_count = 1, we_facts = replicate 1000001 f \<rparr>;
       e2 = \<lparr> we_tx_count = 2, we_facts = [f] \<rparr>; crc = (\<lambda>_. 7) in
   \<exists>d d'. wal_session ser crc [] None = Inr (Some d) \<and>
     wal_session ser crc [e, e2] (Some d) = Inr (Some d') \<and> read_wal (\<lambda>_. Some f) crc (Some d') = Inr []"
proof -
  let ?ser = "\<lambda>_. Some []" and ?crc = "\<lambda>_. 7" and ?f = "fact_new 1 ''a'' Null 5"
  obtain d where d: "wal_session ?ser ?crc [] None = Inr (Some d)"
    using wal_session_image [OF log_image_empty, of "[]" ?ser "\<lambda>_. Some ?f" ?crc] by (auto simp: wal_session_new)
  have ser: "\<exists>bs. serialize_entry ?ser ?crc t fs = Inr bs" if "set fs \<subseteq> {?f}" for t fs
  proof -
    have "\<exists>body. serialize_facts ?ser fs = Inr body" by (rule serialize_facts_ok [of fs ?ser "\<lambda>_. Some ?f"]) (use that in auto)
    then show ?thesis by (auto simp: serialize_entry_def Let_def)
  qed
  obtain bs bs2 where bs: "serialize_entry ?ser ?crc 1 (replicate 1000001 ?f) = Inr bs" "serialize_entry ?ser ?crc 2 [?f] = Inr bs2"
    using ser [of "replicate 1000001 ?f" 1] ser [of "[?f]" 2] by (auto simp: set_replicate_conv_if)
  have "\<exists>d'. wal_session ?ser ?crc [\<lparr> we_tx_count = 1, we_facts = replicate 1000001 ?f \<rparr>, \<lparr> we_tx_count = 2, we_facts = [?f] \<rparr>] (Some d) =
      Inr (Some d') \<and> read_wal (\<lambda>_. Some ?f) ?crc (Some d') = Inr []"
    by (rule oversize_entry_unreadable [OF d, where bs = bs and ?bs2.0 = bs2]) (simp_all add: bs MAX_FACTS_PER_ENTRY_def)
  then show ?thesis unfolding Let_def using d by blast
qed

end
