(* ===== verification/Write_Path.thy ===== *)
theory Write_Path
  imports Fact_Store Wal
begin

text \<open>
  The write path of \<open>src/src/db.rs\<close>: stamping, the log-first batch write shared by \<open>execute\<close> and
  \<open>commit\<close>, explicit write transactions, the checkpoint driver, and replay of the log on open.
  The clock is the argument \<open>now\<close>; saving the pending facts into the main file
  (\<open>PersistentFactStorage::save\<close>) is the argument \<open>save\<close> of the checkpoint driver, which only
  orders it with respect to the log.  The lemmas show that a failed log write leaves the facts
  alone, that the log is retired only after a durable publish, and that replay after a crash
  rebuilds exactly the store of the acknowledged batches.
\<close>

section \<open>Options and contexts\<close>

datatype checkpoint_policy = Automatic | ExplicitMaintenance

definition permits_automatic :: "checkpoint_policy \<Rightarrow> bool" where
  "permits_automatic p \<longleftrightarrow> p = Automatic"

datatype checkpoint_outcome = Noop | FullRebuild | FullRebuildFromVisibleDelta | DeltaSegment

definition permits_wal_retire :: "checkpoint_outcome \<Rightarrow> bool" where
  "permits_wal_retire r \<longleftrightarrow> r \<noteq> Noop"

record open_options =
  wal_checkpoint_threshold :: nat
  page_cache_size :: nat
  max_derived_facts :: nat
  max_results :: nat

definition open_options_default :: open_options where
  "open_options_default = \<lparr> wal_checkpoint_threshold = 1000, page_cache_size = 256,
     max_derived_facts = 1000000, max_results = 1000000 \<rparr>"

text \<open>Of the persistent storage, the write path uses the dirty flag and the watermark.\<close>

record pfs =
  last_checkpointed :: u64
  pf_dirty :: bool

text \<open>\<open>fc_log\<close> is the content of the log's path; \<open>fc_wal\<close> is the open writer, whose file it is.\<close>

record file_ctx =
  fc_pfs :: pfs
  fc_wal :: "os_file option"
  fc_log :: "bytes option"
  fc_entries :: nat

datatype write_context = Memory | File file_ctx

datatype write_error = WalFailed wal_error | StoreFailed store_error | SaveFailed string | NoDurablePublish
  | WriteTxActive | ForgetInTransaction

record db =
  db_store :: fact_store
  db_ctx :: write_context
  db_opts :: open_options
  db_policy :: checkpoint_policy
  db_tx_active :: bool

section \<open>Log-first batch write\<close>

definition VALID_FROM_USE_TX_TIME :: i64 where
  "VALID_FROM_USE_TX_TIME = i64_MIN"

definition cast_signed :: "u64 \<Rightarrow> i64" where
  "cast_signed w = I64 w"

definition stamp_fact :: "u64 \<Rightarrow> u64 \<Rightarrow> fact \<Rightarrow> fact" where
  "stamp_fact tid cnt f =
     f\<lparr> tx_id := tid, tx_count := cnt,
        valid_from := (if valid_from f = VALID_FROM_USE_TX_TIME then cast_signed tid else valid_from f) \<rparr>"

definition wal_write_stamped_batch ::
    "(fact \<Rightarrow> bytes option) \<Rightarrow> (bytes \<Rightarrow> u32) \<Rightarrow> open_options \<Rightarrow> checkpoint_policy \<Rightarrow> u64 \<Rightarrow> fact list \<Rightarrow>
     write_context \<Rightarrow> write_context \<times> (wal_error + bool)" where
  "wal_write_stamped_batch ser crc opts policy cnt facts ctx =
     (case ctx of
        Memory \<Rightarrow> (ctx, Inr False)
      | File c \<Rightarrow>
          (case (case fc_wal c of None \<Rightarrow> open_or_create (fc_log c) | Some w \<Rightarrow> Inr w) of
             Inl e \<Rightarrow> (ctx, Inl e)
           | Inr w \<Rightarrow>
               let c1 = c\<lparr> fc_wal := Some w, fc_log := Some (fl_data w) \<rparr> in
               (case append_entry ser crc w cnt facts of
                  Inl e \<Rightarrow> (File c1, Inl e)
                | Inr w' \<Rightarrow>
                    let n = sat_add (fc_entries c) 1 in
                    (File (c1\<lparr> fc_wal := Some w', fc_log := Some (fl_data w'),
                             fc_pfs := (fc_pfs c)\<lparr> pf_dirty := True \<rparr>, fc_entries := n \<rparr>),
                     Inr (permits_automatic policy \<and> wal_checkpoint_threshold opts \<le> n)))))"

fun load_all ::
    "(fact_identity \<Rightarrow> u64) \<Rightarrow> fact list \<Rightarrow> fact_store \<Rightarrow> fact_store \<times> (store_error + unit)" where
  "load_all h [] fs = (fs, Inr ())"
| "load_all h (f # facts) fs =
     (case load_fact h fs f of
        (fs', Inl e) \<Rightarrow> (fs', Inl e)
      | (fs', Inr _) \<Rightarrow> load_all h facts fs')"

definition do_checkpoint ::
    "(fact_store \<Rightarrow> pfs \<Rightarrow> fact_store \<times> pfs \<times> (string + checkpoint_outcome)) \<Rightarrow> fact_store \<Rightarrow> write_context \<Rightarrow>
     fact_store \<times> write_context \<times> (write_error + checkpoint_outcome)" where
  "do_checkpoint save fs ctx =
     (case ctx of
        Memory \<Rightarrow> (fs, ctx, Inr Noop)
      | File c \<Rightarrow>
          if fc_entries c = 0 \<and> \<not> pf_dirty (fc_pfs c) then (fs, ctx, Inr Noop)
          else (case save fs ((fc_pfs c)\<lparr> pf_dirty := True \<rparr>) of
                  (fs', p, Inl e) \<Rightarrow> (fs', File (c\<lparr> fc_pfs := p \<rparr>), Inl (SaveFailed e))
                | (fs', p, Inr r) \<Rightarrow>
                    if fc_entries c > 0 \<and> \<not> permits_wal_retire r
                    then (fs', File (c\<lparr> fc_pfs := p \<rparr>), Inl NoDurablePublish)
                    else
                      let c1 = c\<lparr> fc_pfs := p, fc_wal := None \<rparr> in
                      (case (if fc_log c \<noteq> None then delete_file (fc_log c) else Inr None) of
                         Inl e \<Rightarrow> (fs', File c1, Inl (WalFailed e))
                       | Inr l \<Rightarrow> (fs', File (c1\<lparr> fc_log := l, fc_entries := 0 \<rparr>), Inr r))))"

text \<open>The steps common to \<open>execute\<close> and \<open>commit\<close>: allocate, stamp, log, apply, checkpoint.\<close>

definition write_batch ::
    "(fact \<Rightarrow> bytes option) \<Rightarrow> (bytes \<Rightarrow> u32) \<Rightarrow> (fact_identity \<Rightarrow> u64) \<Rightarrow>
     (fact_store \<Rightarrow> pfs \<Rightarrow> fact_store \<times> pfs \<times> (string + checkpoint_outcome)) \<Rightarrow> u64 \<Rightarrow> fact list \<Rightarrow> db \<Rightarrow>
     db \<times> (write_error storage_error + u64)" where
  "write_batch ser crc h save now facts d =
     (let (fs1, cnt) = allocate_tx_count (db_store d);
          stamped = map (stamp_fact now cnt) facts
      in case wal_write_stamped_batch ser crc (db_opts d) (db_policy d) cnt stamped (db_ctx d) of
           (ctx1, Inl e) \<Rightarrow> (d\<lparr> db_store := fs1, db_ctx := ctx1 \<rparr>, Inl (mark_storage_failure (Plain (WalFailed e)) Recoverable))
         | (ctx1, Inr should_checkpoint) \<Rightarrow>
             (case load_all h stamped fs1 of
                (fs2, Inl e) \<Rightarrow>
                  (d\<lparr> db_store := fs2, db_ctx := ctx1 \<rparr>, Inl (mark_storage_failure (Plain (StoreFailed e)) Fatal))
              | (fs2, Inr _) \<Rightarrow>
                  if should_checkpoint then
                    (case do_checkpoint save fs2 ctx1 of
                       (fs3, ctx2, Inl e) \<Rightarrow>
                         (d\<lparr> db_store := fs3, db_ctx := ctx2 \<rparr>, Inl (mark_storage_failure (Plain e) Fatal))
                     | (fs3, ctx2, Inr _) \<Rightarrow> (d\<lparr> db_store := fs3, db_ctx := ctx2 \<rparr>, Inr now))
                  else (d\<lparr> db_store := fs2, db_ctx := ctx1 \<rparr>, Inr now)))"

text \<open>\<open>execute\<close> on a transact or retract command whose facts have been materialised.\<close>

definition execute_write ::
    "(fact \<Rightarrow> bytes option) \<Rightarrow> (bytes \<Rightarrow> u32) \<Rightarrow> (fact_identity \<Rightarrow> u64) \<Rightarrow>
     (fact_store \<Rightarrow> pfs \<Rightarrow> fact_store \<times> pfs \<times> (string + checkpoint_outcome)) \<Rightarrow> u64 \<Rightarrow> fact list \<Rightarrow> db \<Rightarrow>
     db \<times> (write_error storage_error + u64)" where
  "execute_write ser crc h save now facts d =
     (if db_tx_active d then (d, Inl (Plain WriteTxActive)) else write_batch ser crc h save now facts d)"

section \<open>Explicit transactions\<close>

record write_tx =
  wt_pending :: "fact list"
  wt_next_count :: u64
  wt_next_id :: u64
  wt_committed :: bool

definition begin_write :: "u64 \<Rightarrow> db \<Rightarrow> db \<times> (write_error + write_tx)" where
  "begin_write now d =
     (if db_tx_active d then (d, Inl WriteTxActive)
      else (d\<lparr> db_tx_active := True \<rparr>,
            Inr \<lparr> wt_pending = [], wt_next_count = u64_saturating_add (current_tx_count (db_store d)) 1,
                  wt_next_id = now, wt_committed = False \<rparr>))"

definition stage_pending_facts :: "u64 \<Rightarrow> fact list \<Rightarrow> write_tx \<Rightarrow> write_tx" where
  "stage_pending_facts now facts t =
     (let staged_tx_id = max now (wt_next_id t); staged_tx_count = wt_next_count t in
      t\<lparr> wt_pending := wt_pending t @ map (\<lambda>f. f\<lparr> tx_id := staged_tx_id, tx_count := staged_tx_count \<rparr>) facts,
         wt_next_id := u64_saturating_add staged_tx_id 1,
         wt_next_count := u64_saturating_add (wt_next_count t) 1 \<rparr>)"

text \<open>\<open>commit\<close> consumes the transaction; on an error its \<open>Drop\<close> clears the thread's flag.\<close>

definition commit ::
    "(fact \<Rightarrow> bytes option) \<Rightarrow> (bytes \<Rightarrow> u32) \<Rightarrow> (fact_identity \<Rightarrow> u64) \<Rightarrow>
     (fact_store \<Rightarrow> pfs \<Rightarrow> fact_store \<times> pfs \<times> (string + checkpoint_outcome)) \<Rightarrow> u64 \<Rightarrow> write_tx \<Rightarrow> db \<Rightarrow>
     db \<times> (write_error + unit)" where
  "commit ser crc h save now t d =
     (if wt_pending t = [] then (d\<lparr> db_tx_active := False \<rparr>, Inr ())
      else (case write_batch ser crc h save now (wt_pending t) d of
              (d', Inl e) \<Rightarrow> (d'\<lparr> db_tx_active := False \<rparr>, Inl (storage_error_text e))
            | (d', Inr _) \<Rightarrow> (d'\<lparr> db_tx_active := False \<rparr>, Inr ())))"

definition rollback :: "write_tx \<Rightarrow> db \<Rightarrow> db" where
  "rollback t d = d\<lparr> db_tx_active := False \<rparr>"

definition resolve_valid_from :: "fact \<Rightarrow> fact" where
  "resolve_valid_from f =
     (if valid_from f = VALID_FROM_USE_TX_TIME then f\<lparr> valid_from := cast_signed (tx_id f) \<rparr> else f)"

definition merged_query_facts :: "db \<Rightarrow> write_tx \<Rightarrow> store_error + fact list" where
  "merged_query_facts d t =
     res_bind (get_all_facts (db_store d)) (\<lambda>committed. Inr (committed @ map resolve_valid_from (wt_pending t)))"

definition pending_read_now_floor :: "write_tx \<Rightarrow> i64 option" where
  "pending_read_now_floor t =
     (case map (\<lambda>f. cast_signed (tx_id f)) (wt_pending t) of [] \<Rightarrow> None | x # xs \<Rightarrow> Some (fold max xs x))"

section \<open>Opening\<close>

definition replay_entry ::
    "(fact_identity \<Rightarrow> u64) \<Rightarrow> u64 \<Rightarrow> wal_entry \<Rightarrow> fact_store \<times> nat \<Rightarrow> store_error + (fact_store \<times> nat)" where
  "replay_entry h ckpt e s =
     (if we_tx_count e \<le> ckpt then Inr s
      else (case load_all h (we_facts e) (fst s) of
              (_, Inl err) \<Rightarrow> Inl err
            | (fs', Inr _) \<Rightarrow> Inr (fs', snd s + 1)))"

definition replay_wal ::
    "(bytes \<Rightarrow> fact option) \<Rightarrow> (bytes \<Rightarrow> u32) \<Rightarrow> (fact_identity \<Rightarrow> u64) \<Rightarrow> bytes option \<Rightarrow> fact_store \<Rightarrow> u64 \<Rightarrow>
     write_error + (fact_store \<times> nat)" where
  "replay_wal de crc h log fs ckpt =
     (if log = None then Inr (fs, 0)
      else res_bind (map_err WalFailed (reader_open log)) (\<lambda>f.
           res_bind (map_err StoreFailed (visit_entries de crc (replay_entry h ckpt) f (fs, 0))) (\<lambda>(fs1, n).
           case restore_tx_counter fs1 of
             (_, Inl e) \<Rightarrow> Inl (StoreFailed e)
           | (fs2, Inr _) \<Rightarrow>
               Inr (if current_tx_count fs2 < ckpt then restore_tx_counter_from fs2 ckpt else fs2, n))))"

definition open_file ::
    "(bytes \<Rightarrow> fact option) \<Rightarrow> (bytes \<Rightarrow> u32) \<Rightarrow> (fact_identity \<Rightarrow> u64) \<Rightarrow> open_options \<Rightarrow> checkpoint_policy \<Rightarrow>
     pfs \<Rightarrow> fact_store \<Rightarrow> bytes option \<Rightarrow> write_error + db" where
  "open_file de crc h opts policy p fs log =
     res_bind (replay_wal de crc h log fs (last_checkpointed p)) (\<lambda>(fs', n).
     res_bind (if log \<noteq> None then res_bind (map_err WalFailed (open_or_create log)) (\<lambda>w. Inr (Some w)) else Inr None) (\<lambda>w.
     Inr \<lparr> db_store = fs',
           db_ctx = File \<lparr> fc_pfs = p, fc_wal = w, fc_log = (case w of None \<Rightarrow> log | Some f \<Rightarrow> Some (fl_data f)), fc_entries = n \<rparr>,
           db_opts = opts, db_policy = policy, db_tx_active = False \<rparr>))"

section \<open>Loading and the counter\<close>

text \<open>Loading a fact neither reads nor writes the transaction counter.\<close>

lemma load_fact_counter:
  "load_fact h (fs\<lparr> fs_tx_counter := c \<rparr>) f = (fst (load_fact h fs f)\<lparr> fs_tx_counter := c \<rparr>, snd (load_fact h fs f))"
  "fs_tx_counter (fst (load_fact h fs f)) = fs_tx_counter fs"
  by (auto simp: load_fact_def bump_generation_def split: prod.splits sum.splits)

lemma load_all_counter:
  "load_all h facts (fs\<lparr> fs_tx_counter := c \<rparr>) = (fst (load_all h facts fs)\<lparr> fs_tx_counter := c \<rparr>, snd (load_all h facts fs))"
proof (induction facts arbitrary: fs)
  case (Cons f facts)
  then show ?case
    by (cases "load_fact h fs f"; cases "snd (load_fact h fs f)") (simp_all add: load_fact_counter(1))
qed simp

lemma load_all_keeps_counter: "fs_tx_counter (fst (load_all h facts fs)) = fs_tx_counter fs"
proof (induction facts arbitrary: fs)
  case (Cons f facts)
  then show ?case
    using load_fact_counter(2) [of h fs f] by (cases "load_fact h fs f"; cases "snd (load_fact h fs f)") simp_all
qed simp

lemma load_all_poisoned: "snd (load_all h facts fs) = Inr () \<Longrightarrow> fs_poisoned (fst (load_all h facts fs)) = fs_poisoned fs"
proof (induction facts arbitrary: fs)
  case (Cons f facts)
  have "fs_poisoned (fst (load_fact h fs f)) = fs_poisoned fs"
    by (auto simp: load_fact_def bump_generation_def split: prod.splits sum.splits)
  then show ?case using Cons by (cases "load_fact h fs f"; cases "snd (load_fact h fs f)") simp_all
qed simp

section \<open>Runs of batches\<close>

type_synonym batch = "u64 \<times> fact list"

text \<open>The log entries that a sequence of batches produces from counter \<open>c\<close>.\<close>

fun entries_of :: "u64 \<Rightarrow> batch list \<Rightarrow> wal_entry list" where
  "entries_of c [] = []"
| "entries_of c ((now, facts) # bs) =
     \<lparr> we_tx_count = u64_sat_inc c, we_facts = map (stamp_fact now (u64_sat_inc c)) facts \<rparr> # entries_of (c + 1) bs"

fun run_batches ::
    "(fact \<Rightarrow> bytes option) \<Rightarrow> (bytes \<Rightarrow> u32) \<Rightarrow> (fact_identity \<Rightarrow> u64) \<Rightarrow>
     (fact_store \<Rightarrow> pfs \<Rightarrow> fact_store \<times> pfs \<times> (string + checkpoint_outcome)) \<Rightarrow> batch list \<Rightarrow> db \<Rightarrow> db option" where
  "run_batches ser crc h save [] d = Some d"
| "run_batches ser crc h save ((now, facts) # bs) d =
     (case write_batch ser crc h save now facts d of
        (d', Inl _) \<Rightarrow> None
      | (d', Inr _) \<Rightarrow> run_batches ser crc h save bs d')"

lemma entries_of_append: "entries_of c (xs @ ys) = entries_of c xs @ entries_of (c + of_nat (length xs)) ys"
  by (induction xs arbitrary: c) (auto simp: algebra_simps)

lemma length_entries_of: "length (entries_of c bs) = length bs"
  by (induction c bs rule: entries_of.induct) simp_all

lemma run_batches_append:
  "run_batches ser crc h save (xs @ ys) d = Option.bind (run_batches ser crc h save xs d) (run_batches ser crc h save ys)"
  by (induction xs arbitrary: d) (auto split: prod.splits sum.splits)

text \<open>The log and its writer in a context, the entries it holds, and its distance to a checkpoint.\<close>

definition log_state ::
    "(fact \<Rightarrow> bytes option) \<Rightarrow> (bytes \<Rightarrow> fact option) \<Rightarrow> (bytes \<Rightarrow> u32) \<Rightarrow> wal_entry list \<Rightarrow> file_ctx \<Rightarrow> bool" where
  "log_state ser de crc es c \<longleftrightarrow>
     (case fc_log c of
        None \<Rightarrow> fc_wal c = None \<and> es = []
      | Some d \<Rightarrow> log_image ser de crc es d \<and>
          (case fc_wal c of None \<Rightarrow> True | Some w \<Rightarrow> w = \<lparr> fl_data = d, fl_pos = length d \<rparr>))"

lemma log_state_writer:
  assumes "log_state ser de crc es c"
  shows "\<exists>d. (case fc_wal c of None \<Rightarrow> open_or_create (fc_log c) | Some w \<Rightarrow> Inr w) =
      Inr \<lparr> fl_data = d, fl_pos = length d \<rparr> \<and> log_image ser de crc es d \<and> (\<forall>l. fc_log c = Some l \<longrightarrow> l = d)"
proof (cases "fc_log c")
  case None
  then show ?thesis using assms open_or_create_new [of None] by (auto simp: log_state_def log_image_empty)
next
  case (Some l)
  then have "log_image ser de crc es l" using assms by (simp add: log_state_def)
  then obtain tail where "l = wal_header @ tail" by (auto simp: log_image_def)
  then show ?thesis using assms Some open_or_create_existing [of tail] by (auto simp: log_state_def split: option.splits)
qed

lemma wal_write_ok:
  assumes "log_state ser de crc es c" "entry_ok ser de \<lparr> we_tx_count = cnt, we_facts = facts \<rparr>"
  shows "\<exists>d bs. serialize_entry ser crc cnt facts = Inr bs \<and> log_image ser de crc es d \<and> (\<forall>l. fc_log c = Some l \<longrightarrow> l = d) \<and>
    wal_write_stamped_batch ser crc opts policy cnt facts (File c) =
      (File (c\<lparr> fc_wal := Some \<lparr> fl_data = d @ bs, fl_pos = length (d @ bs) \<rparr>, fc_log := Some (d @ bs),
               fc_pfs := (fc_pfs c)\<lparr> pf_dirty := True \<rparr>, fc_entries := sat_add (fc_entries c) 1 \<rparr>),
       Inr (permits_automatic policy \<and> wal_checkpoint_threshold opts \<le> sat_add (fc_entries c) 1))"
proof -
  obtain d where d: "(case fc_wal c of None \<Rightarrow> open_or_create (fc_log c) | Some w \<Rightarrow> Inr w) =
      Inr \<lparr> fl_data = d, fl_pos = length d \<rparr>" "log_image ser de crc es d" "\<forall>l. fc_log c = Some l \<longrightarrow> l = d"
    using log_state_writer [OF assms(1)] by blast
  obtain bs where bs: "serialize_entry ser crc cnt facts = Inr bs" using entry_ok_bytes [OF assms(2), of crc] by auto
  have a: "append_entry ser crc \<lparr> fl_data = d, fl_pos = length d \<rparr> cnt facts = Inr \<lparr> fl_data = d @ bs, fl_pos = length (d @ bs) \<rparr>"
    by (simp add: append_entry_def bs file_write_all_end)
  show ?thesis
    using d(2,3) bs by (intro exI [of _ d] exI [of _ bs]) (simp add: wal_write_stamped_batch_def d(1) a Let_def)
qed

lemma log_state_snoc:
  assumes "log_image ser de crc es d" "entry_ok ser de e" "entry_bytes ser crc e = Inr bs"
  shows "log_state ser de crc (es @ [e]) (c\<lparr> fc_wal := Some \<lparr> fl_data = d @ bs, fl_pos = length (d @ bs) \<rparr>, fc_log := Some (d @ bs),
     fc_pfs := p, fc_entries := n \<rparr>)"
  using log_image_snoc [OF assms] by (simp add: log_state_def)

section \<open>Replay follows the log\<close>

text \<open>Replaying \<open>es\<close> from \<open>fs0\<close> gives the store in memory, up to the transaction counter.\<close>

definition replays ::
    "(fact_identity \<Rightarrow> u64) \<Rightarrow> u64 \<Rightarrow> fact_store \<Rightarrow> wal_entry list \<Rightarrow> fact_store \<Rightarrow> bool" where
  "replays h ckpt fs0 es fs \<longleftrightarrow>
     (\<exists>fs'. res_fold (replay_entry h ckpt) es (fs0, 0) = Inr (fs', length es) \<and>
        fs = fs'\<lparr> fs_tx_counter := fs_tx_counter fs \<rparr>)"

lemma replays_step:
  assumes "replays h ckpt fs0 es fs" "ckpt < we_tx_count e"
    "load_all h (we_facts e) (fs\<lparr> fs_tx_counter := c \<rparr>) = (fs1, Inr ())"
  shows "replays h ckpt fs0 (es @ [e]) fs1"
proof -
  obtain fs' where r: "res_fold (replay_entry h ckpt) es (fs0, 0) = Inr (fs', length es)"
    "fs = fs'\<lparr> fs_tx_counter := fs_tx_counter fs \<rparr>"
    using assms(1) by (auto simp: replays_def)
  have "fs\<lparr> fs_tx_counter := c \<rparr> = fs'\<lparr> fs_tx_counter := c \<rparr>" by (subst r(2)) simp
  with assms(3) have l: "fs1 = fst (load_all h (we_facts e) fs')\<lparr> fs_tx_counter := c \<rparr>" "snd (load_all h (we_facts e) fs') = Inr ()"
    by (simp_all add: load_all_counter)
  then have "replay_entry h ckpt e (fs', length es) = Inr (fst (load_all h (we_facts e) fs'), length (es @ [e]))"
    using assms(2) by (cases "load_all h (we_facts e) fs'") (simp add: replay_entry_def not_le split: unit.split)
  then have "res_fold (replay_entry h ckpt) (es @ [e]) (fs0, 0) =
      Inr (fst (load_all h (we_facts e) fs'), length (es @ [e]))" using r(1) by simp
  then show ?thesis unfolding replays_def using l(1) by fastforce
qed

lemma write_batch_ok:
  assumes "db_ctx d = File c" "log_state ser de crc es c" "fs_tx_counter (db_store d) \<noteq> -1"
    "entry_ok ser de e" "e = \<lparr> we_tx_count = fs_tx_counter (db_store d) + 1,
       we_facts = map (stamp_fact now (fs_tx_counter (db_store d) + 1)) facts \<rparr>"
    "permits_automatic (db_policy d) \<Longrightarrow> sat_add (fc_entries c) 1 < wal_checkpoint_threshold (db_opts d)"
    "write_batch ser crc h save now facts d = (d', Inr r)"
  shows "\<exists>l bs. entry_bytes ser crc e = Inr bs \<and> log_image ser de crc es l \<and> (\<forall>l'. fc_log c = Some l' \<longrightarrow> l' = l) \<and>
    load_all h (we_facts e) ((db_store d)\<lparr> fs_tx_counter := fs_tx_counter (db_store d) + 1 \<rparr>) = (db_store d', Inr ()) \<and>
    db_ctx d' = File (c\<lparr> fc_wal := Some \<lparr> fl_data = l @ bs, fl_pos = length (l @ bs) \<rparr>, fc_log := Some (l @ bs),
      fc_pfs := (fc_pfs c)\<lparr> pf_dirty := True \<rparr>, fc_entries := sat_add (fc_entries c) 1 \<rparr>) \<and>
    db_opts d' = db_opts d \<and> db_policy d' = db_policy d"
proof -
  let ?cnt = "fs_tx_counter (db_store d) + 1"
  let ?c' = "\<lambda>l bs. c\<lparr> fc_wal := Some \<lparr> fl_data = l @ bs, fl_pos = length (l @ bs) \<rparr>, fc_log := Some (l @ bs),
      fc_pfs := (fc_pfs c)\<lparr> pf_dirty := True \<rparr>, fc_entries := sat_add (fc_entries c) 1 \<rparr>"
  obtain l bs where w: "entry_bytes ser crc e = Inr bs" "log_image ser de crc es l" "\<forall>l'. fc_log c = Some l' \<longrightarrow> l' = l"
    "wal_write_stamped_batch ser crc (db_opts d) (db_policy d) ?cnt (we_facts e) (File c) =
      (File (?c' l bs), Inr (permits_automatic (db_policy d) \<and> wal_checkpoint_threshold (db_opts d) \<le> sat_add (fc_entries c) 1))"
    using wal_write_ok [OF assms(2), of ?cnt "we_facts e" "db_opts d" "db_policy d"] assms(4,5) by auto
  have nock: "\<not> (permits_automatic (db_policy d) \<and> wal_checkpoint_threshold (db_opts d) \<le> sat_add (fc_entries c) 1)"
    using assms(6) by auto
  have alloc: "allocate_tx_count (db_store d) = ((db_store d)\<lparr> fs_tx_counter := ?cnt \<rparr>, ?cnt)"
    using assms(3) by (simp add: allocate_tx_count_def u64_sat_inc_def)
  have facts: "map (stamp_fact now ?cnt) facts = we_facts e" by (simp add: assms(5))
  obtain fs2 r2 where l2: "load_all h (we_facts e) ((db_store d)\<lparr> fs_tx_counter := ?cnt \<rparr>) = (fs2, r2)" by fastforce
  have "r2 = Inr () \<and> d' = d\<lparr> db_store := fs2, db_ctx := File (?c' l bs) \<rparr>"
    using assms(7) unfolding write_batch_def alloc prod.case Let_def facts assms(1) w(4) sum.case l2 if_not_P [OF nock]
    by (cases r2) simp_all
  then show ?thesis using w(1-3) l2 by (intro exI [of _ l] exI [of _ bs]) simp
qed

text \<open>The state in which every acknowledged batch is in the log and replay would restore it.\<close>

definition recoverable ::
    "(fact \<Rightarrow> bytes option) \<Rightarrow> (bytes \<Rightarrow> fact option) \<Rightarrow> (bytes \<Rightarrow> u32) \<Rightarrow> (fact_identity \<Rightarrow> u64) \<Rightarrow> fact_store \<Rightarrow>
     wal_entry list \<Rightarrow> db \<Rightarrow> bool" where
  "recoverable ser de crc h fs0 es d \<longleftrightarrow>
     (case db_ctx d of
        Memory \<Rightarrow> False
      | File c \<Rightarrow> log_state ser de crc es c \<and> replays h (last_checkpointed (fc_pfs c)) fs0 es (db_store d) \<and>
          last_checkpointed (fc_pfs c) \<le> fs_tx_counter (db_store d))"

definition no_checkpoint_within :: "nat \<Rightarrow> db \<Rightarrow> bool" where
  "no_checkpoint_within n d \<longleftrightarrow>
     (case db_ctx d of Memory \<Rightarrow> True
      | File c \<Rightarrow> permits_automatic (db_policy d) \<longrightarrow> fc_entries c + n < wal_checkpoint_threshold (db_opts d))"

definition log_of :: "db \<Rightarrow> bytes option" where
  "log_of d = (case db_ctx d of Memory \<Rightarrow> None | File c \<Rightarrow> fc_log c)"

definition checkpoint_of :: "db \<Rightarrow> u64" where
  "checkpoint_of d = (case db_ctx d of Memory \<Rightarrow> 0 | File c \<Rightarrow> last_checkpointed (fc_pfs c))"

lemma sat_add_le: "sat_add a b \<le> a + b"
  by (simp add: sat_add_def)

lemma u64_room: "unat c + n < 2 ^ 64 - 1 \<Longrightarrow> 0 < n \<Longrightarrow> c \<noteq> (-1 :: u64) \<and> unat (c + 1) = unat c + 1"
proof -
  assume a: "unat c + n < 2 ^ 64 - 1" "0 < n"
  have "unat (-1 :: u64) = 2 ^ 64 - 1" by (simp add: minus_one_word_64)
  then have "c \<noteq> -1" using a by auto
  then show ?thesis using a unat_add64 [of c 1] by simp
qed

lemma recoverable_step:
  assumes rec: "recoverable ser de crc h fs0 es d" and room: "fs_tx_counter (db_store d) \<noteq> -1"
    and thr: "no_checkpoint_within (Suc n) d" and ok: "entry_ok ser de e"
    and e: "e = \<lparr> we_tx_count = fs_tx_counter (db_store d) + 1,
       we_facts = map (stamp_fact now (fs_tx_counter (db_store d) + 1)) facts \<rparr>"
    and w: "write_batch ser crc h save now facts d = (d', Inr r)"
  shows "recoverable ser de crc h fs0 (es @ [e]) d' \<and> no_checkpoint_within n d' \<and>
    fs_tx_counter (db_store d') = fs_tx_counter (db_store d) + 1 \<and> checkpoint_of d' = checkpoint_of d \<and>
    (\<exists>l bs. entry_bytes ser crc e = Inr bs \<and> log_image ser de crc es l \<and> (\<forall>l'. log_of d = Some l' \<longrightarrow> l' = l) \<and> log_of d' = Some (l @ bs))"
proof -
  obtain c where c: "db_ctx d = File c" "log_state ser de crc es c"
    "replays h (last_checkpointed (fc_pfs c)) fs0 es (db_store d)" "last_checkpointed (fc_pfs c) \<le> fs_tx_counter (db_store d)"
    using rec by (auto simp: recoverable_def split: write_context.splits)
  have th: "permits_automatic (db_policy d) \<Longrightarrow> fc_entries c + Suc n < wal_checkpoint_threshold (db_opts d)"
    using thr by (simp add: no_checkpoint_within_def c(1))
  have th1: "sat_add (fc_entries c) 1 < wal_checkpoint_threshold (db_opts d)" if "permits_automatic (db_policy d)"
    using th [OF that] sat_add_le [of "fc_entries c" 1] by simp
  obtain l bs where w': "entry_bytes ser crc e = Inr bs" "log_image ser de crc es l" "\<forall>l'. fc_log c = Some l' \<longrightarrow> l' = l"
    "load_all h (we_facts e) ((db_store d)\<lparr> fs_tx_counter := fs_tx_counter (db_store d) + 1 \<rparr>) = (db_store d', Inr ())"
    "db_ctx d' = File (c\<lparr> fc_wal := Some \<lparr> fl_data = l @ bs, fl_pos = length (l @ bs) \<rparr>, fc_log := Some (l @ bs),
      fc_pfs := (fc_pfs c)\<lparr> pf_dirty := True \<rparr>, fc_entries := sat_add (fc_entries c) 1 \<rparr>)"
    "db_opts d' = db_opts d" "db_policy d' = db_policy d"
    using write_batch_ok [OF c(1,2) room ok e th1 w] by blast
  have less: "fs_tx_counter (db_store d) < fs_tx_counter (db_store d) + 1" by (rule u64_inc_less [OF room])
  then have "last_checkpointed (fc_pfs c) < we_tx_count e" using c(4) e by simp
  then have rep: "replays h (last_checkpointed (fc_pfs c)) fs0 (es @ [e]) (db_store d')" by (rule replays_step [OF c(3) _ w'(4)])
  have cnt: "fs_tx_counter (db_store d') = fs_tx_counter (db_store d) + 1"
    using load_all_keeps_counter [of h "we_facts e" "(db_store d)\<lparr> fs_tx_counter := fs_tx_counter (db_store d) + 1 \<rparr>"] w'(4) by simp
  have "recoverable ser de crc h fs0 (es @ [e]) d'"
    using log_state_snoc [OF w'(2) ok w'(1)] rep cnt c(4) less by (simp add: recoverable_def w'(5))
  moreover have "no_checkpoint_within n d'"
    using th sat_add_le [of "fc_entries c" 1] by (auto simp: no_checkpoint_within_def w'(5-7))
  ultimately show ?thesis using w'(1-3,5) cnt by (auto simp: log_of_def checkpoint_of_def c(1))
qed

lemma recoverable_run:
  assumes "recoverable ser de crc h fs0 es d" "unat (fs_tx_counter (db_store d)) + length bs < 2 ^ 64 - 1"
    "no_checkpoint_within (length bs + n) d" "\<forall>e \<in> set (entries_of (fs_tx_counter (db_store d)) bs). entry_ok ser de e"
    "run_batches ser crc h save bs d = Some d'"
  shows "recoverable ser de crc h fs0 (es @ entries_of (fs_tx_counter (db_store d)) bs) d' \<and> no_checkpoint_within n d' \<and>
    fs_tx_counter (db_store d') = fs_tx_counter (db_store d) + of_nat (length bs) \<and> checkpoint_of d' = checkpoint_of d"
  using assms
proof (induction bs arbitrary: es d)
  case Nil
  then show ?case by simp
next
  case (Cons b bs)
  obtain now facts where b: "b = (now, facts)" by fastforce
  let ?c = "fs_tx_counter (db_store d)"
  have room: "?c \<noteq> -1" "unat (?c + 1) = unat ?c + 1" using u64_room [of ?c "length (b # bs)"] Cons.prems(2) by simp_all
  let ?e = "\<lparr> we_tx_count = ?c + 1, we_facts = map (stamp_fact now (?c + 1)) facts \<rparr>"
  have es: "entries_of ?c (b # bs) = ?e # entries_of (?c + 1) bs" using room(1) by (simp add: b u64_sat_inc_def)
  obtain d1 r where w: "write_batch ser crc h save now facts d = (d1, Inr r)" and rest: "run_batches ser crc h save bs d1 = Some d'"
    using Cons.prems(5) by (auto simp: b split: prod.splits sum.splits)
  have step: "recoverable ser de crc h fs0 (es @ [?e]) d1" "no_checkpoint_within (length bs + n) d1"
    "fs_tx_counter (db_store d1) = ?c + 1" "checkpoint_of d1 = checkpoint_of d"
    using recoverable_step [OF Cons.prems(1) room(1), of "length bs + n" ?e now facts save d1 r] Cons.prems(3,4) w es by simp_all
  have "unat (fs_tx_counter (db_store d1)) + length bs < 2 ^ 64 - 1" using Cons.prems(2) room(2) step(3) by simp
  from Cons.IH [OF step(1) this step(2) _ rest] show ?case
    using Cons.prems(4) es step(3,4) by (simp add: algebra_simps)
qed

lemma replay_fold_poisoned:
  "res_fold (replay_entry h ckpt) es s = Inr s' \<Longrightarrow> fs_poisoned (fst s') = fs_poisoned (fst s)"
proof (induction es arbitrary: s)
  case (Cons e es)
  obtain s1 where s1: "replay_entry h ckpt e s = Inr s1" "res_fold (replay_entry h ckpt) es s1 = Inr s'"
    using Cons.prems by (auto simp: res_bind_Inr)
  have "fs_poisoned (fst s1) = fs_poisoned (fst s)"
    using s1(1) load_all_poisoned [of h "we_facts e" "fst s"]
    by (cases "load_all h (we_facts e) (fst s)") (auto simp: replay_entry_def split: if_splits sum.splits)
  then show ?case using Cons.IH [OF s1(2)] by simp
qed simp

text \<open>The counter after replay: the newest transaction in the store, but not below the watermark.\<close>

definition restored_counter :: "u64 \<Rightarrow> fact_store \<Rightarrow> u64" where
  "restored_counter ckpt fs = max ckpt (fold max (map tx_count (get_pending_facts fs)) 0)"

lemma pending_counts: "map pr_tx_count (ov_records (fs_pending fs)) = map tx_count (get_pending_facts fs)"
  by (simp add: get_pending_facts_def overlay_facts_def record_to_fact_def o_def)

lemma get_pending_counter [simp]: "get_pending_facts (fs\<lparr> fs_tx_counter := c \<rparr>) = get_pending_facts fs"
  by (simp add: get_pending_facts_def)

lemma get_all_counter [simp]: "get_all_facts (fs\<lparr> fs_tx_counter := c \<rparr>) = get_all_facts fs"
  by (simp add: get_all_facts_def split: option.split sum.split)

lemma replay_image:
  assumes "log_image ser de crc es d" "read_entry de crc \<lparr> fl_data = d @ tail, fl_pos = length d \<rparr> = None"
    "replays h ckpt fs0 es fs" "\<not> fs_poisoned fs0"
  shows "replay_wal de crc h (Some (d @ tail)) fs0 ckpt =
    Inr (fs\<lparr> fs_tx_counter := restored_counter ckpt fs \<rparr>, length es)"
proof -
  obtain fs' where r: "res_fold (replay_entry h ckpt) es (fs0, 0) = Inr (fs', length es)"
    "fs = fs'\<lparr> fs_tx_counter := fs_tx_counter fs \<rparr>"
    using assms(3) by (auto simp: replays_def)
  have up: "\<not> fs_poisoned fs'" using replay_fold_poisoned [OF r(1)] assms(4) by simp
  obtain f where f: "reader_open (Some (d @ tail)) = Inr f" "visit_entries de crc (replay_entry h ckpt) f (fs0, 0) = Inr (fs', length es)"
    using visit_image [OF assms(1,2), of "replay_entry h ckpt" "(fs0, 0)"] r(1) by auto
  let ?m = "fold max (map tx_count (get_pending_facts fs')) 0"
  have rs: "restore_tx_counter fs' = (fs'\<lparr> fs_tx_counter := ?m \<rparr>, Inr ())"
    using up by (simp add: restore_tx_counter_def pending_counts)
  have "get_pending_facts fs = get_pending_facts fs'" by (subst r(2)) simp
  then have m: "restored_counter ckpt fs = max ckpt ?m" by (simp add: restored_counter_def)
  have fs: "fs\<lparr> fs_tx_counter := x \<rparr> = fs'\<lparr> fs_tx_counter := x \<rparr>" for x by (subst r(2)) simp
  show ?thesis
    unfolding replay_wal_def f(1) using f(2)
    by (simp add: rs m fs current_tx_count_def restore_tx_counter_from_def max_def)
qed

lemma replay_torn:
  assumes "log_image ser de crc es l" "entry_ok ser de e" "entry_bytes ser crc e = Inr entry"
    "replays h ckpt fs0 es fs1" "replays h ckpt fs0 (es @ [e]) fs2" "\<not> fs_poisoned fs0"
  shows "let survivor = if k < length entry then fs1 else fs2 in
    replay_wal de crc h (Some (l @ take k entry)) fs0 ckpt =
      Inr (survivor\<lparr> fs_tx_counter := restored_counter ckpt survivor \<rparr>,
           if k < length entry then length es else length es + 1)"
proof (cases "k < length entry")
  case True
  have "read_entry de crc \<lparr> fl_data = l @ take k entry, fl_pos = length l \<rparr> = None"
    by (rule read_entry_torn [OF assms(2,3) _ _ True]) simp_all
  then show ?thesis using replay_image [OF assms(1) _ assms(4,6)] True by simp
next
  case False
  have "read_entry de crc \<lparr> fl_data = (l @ entry) @ [], fl_pos = length (l @ entry) \<rparr> = None"
    by (rule read_entry_eof) simp
  then show ?thesis
    using replay_image [OF log_image_snoc [OF assms(1-3)] _ assms(5,6), of "[]"] False by simp
qed

lemma recoverable_log: "recoverable ser de crc h fs0 es d \<Longrightarrow> es \<noteq> [] \<Longrightarrow> \<exists>l. log_of d = Some l"
  by (auto simp: recoverable_def log_state_def log_of_def split: write_context.splits option.splits)

lemma recoverable_replays: "recoverable ser de crc h fs0 es d \<Longrightarrow> replays h (checkpoint_of d) fs0 es (db_store d)"
  by (auto simp: recoverable_def checkpoint_of_def split: write_context.splits)

section \<open>Properties\<close>

lemma write_batch_succeeds:
  assumes rec: "recoverable ser de crc h fs0 es d" and room: "fs_tx_counter (db_store d) \<noteq> -1"
    and thr: "no_checkpoint_within 1 d"
    and ok: "entry_ok ser de \<lparr> we_tx_count = fs_tx_counter (db_store d) + 1,
       we_facts = map (stamp_fact now (fs_tx_counter (db_store d) + 1)) facts \<rparr>"
    and load: "snd (load_all h (map (stamp_fact now (fs_tx_counter (db_store d) + 1)) facts) (db_store d)) = Inr ()"
  shows "\<exists>d'. write_batch ser crc h save now facts d = (d', Inr now)"
proof -
  let ?cnt = "fs_tx_counter (db_store d) + 1" and ?fs = "map (stamp_fact now (fs_tx_counter (db_store d) + 1)) facts"
  obtain c where c: "db_ctx d = File c" "log_state ser de crc es c"
    using rec by (auto simp: recoverable_def split: write_context.splits)
  obtain c' where w: "wal_write_stamped_batch ser crc (db_opts d) (db_policy d) ?cnt ?fs (File c) =
      (File c', Inr (permits_automatic (db_policy d) \<and> wal_checkpoint_threshold (db_opts d) \<le> sat_add (fc_entries c) 1))"
    using wal_write_ok [OF c(2) ok] by blast
  have nock: "\<not> (permits_automatic (db_policy d) \<and> wal_checkpoint_threshold (db_opts d) \<le> sat_add (fc_entries c) 1)"
    using thr sat_add_le [of "fc_entries c" 1] by (auto simp: no_checkpoint_within_def c(1))
  have alloc: "allocate_tx_count (db_store d) = ((db_store d)\<lparr> fs_tx_counter := ?cnt \<rparr>, ?cnt)"
    using room by (simp add: allocate_tx_count_def u64_sat_inc_def)
  obtain fs2 where l: "load_all h ?fs ((db_store d)\<lparr> fs_tx_counter := ?cnt \<rparr>) = (fs2, Inr ())"
    using load by (simp add: load_all_counter)
  show ?thesis
    unfolding write_batch_def alloc prod.case Let_def c(1) w sum.case l if_not_P [OF nock] by blast
qed



text \<open>A failed log write changes nothing but the transaction counter: the facts in memory and the main
  file's state are as before, and the error is marked recoverable.\<close>

theorem log_failure_keeps_facts:
  assumes "wal_write_stamped_batch ser crc (db_opts d) (db_policy d) (snd (allocate_tx_count (db_store d)))
      (map (stamp_fact now (snd (allocate_tx_count (db_store d)))) facts) (db_ctx d) = (ctx, Inl e)"
  shows "case write_batch ser crc h save now facts d of (d', r) \<Rightarrow>
    r = Inl (StorageFailure Recoverable (WalFailed e)) \<and>
    db_store d' = (db_store d)\<lparr> fs_tx_counter := fs_tx_counter (db_store d) + 1 \<rparr> \<and>
    get_all_facts (db_store d') = get_all_facts (db_store d) \<and> checkpoint_of d' = checkpoint_of d"
proof -
  let ?cnt = "u64_sat_inc (fs_tx_counter (db_store d))"
  have alloc: "allocate_tx_count (db_store d) = ((db_store d)\<lparr> fs_tx_counter := fs_tx_counter (db_store d) + 1 \<rparr>, ?cnt)"
    by (simp add: allocate_tx_count_def)
  have ck: "checkpoint_of (d\<lparr> db_store := fs, db_ctx := ctx \<rparr>) = checkpoint_of d" for fs
    using assms unfolding wal_write_stamped_batch_def checkpoint_of_def Let_def
    by (auto split: write_context.splits option.splits sum.splits)
  have w: "write_batch ser crc h save now facts d =
      (d\<lparr> db_store := (db_store d)\<lparr> fs_tx_counter := fs_tx_counter (db_store d) + 1 \<rparr>, db_ctx := ctx \<rparr>,
       Inl (StorageFailure Recoverable (WalFailed e)))"
    using assms by (simp add: write_batch_def alloc)
  show ?thesis unfolding w using ck by simp
qed

theorem log_failure_keeps_facts_witness:
  "let c = \<lparr> fc_pfs = \<lparr> last_checkpointed = 3, pf_dirty = False \<rparr>, fc_wal = None, fc_log = None, fc_entries = 0 \<rparr>;
       d = \<lparr> db_store = fs_new, db_ctx = File c, db_opts = open_options_default, db_policy = Automatic, db_tx_active = False \<rparr> in
   case write_batch (\<lambda>_. None) (\<lambda>_. 9) (\<lambda>_. 0) (\<lambda>fs p. (fs, p, Inl [])) 7 [fact_new 1 ''a'' Null 5] d of (d', r) \<Rightarrow>
     r = Inl (StorageFailure Recoverable (WalFailed WalSerializeError)) \<and> get_all_facts (db_store d') = get_all_facts fs_new \<and>
     checkpoint_of d' = 3"
proof -
  let ?c = "\<lparr> fc_pfs = \<lparr> last_checkpointed = 3, pf_dirty = False \<rparr>, fc_wal = None, fc_log = None, fc_entries = 0 \<rparr>"
  let ?d = "\<lparr> db_store = fs_new, db_ctx = File ?c, db_opts = open_options_default, db_policy = Automatic, db_tx_active = False \<rparr>"
  have "\<exists>ctx. wal_write_stamped_batch (\<lambda>_. None) (\<lambda>_. 9) (db_opts ?d) (db_policy ?d) (snd (allocate_tx_count (db_store ?d)))
      (map (stamp_fact 7 (snd (allocate_tx_count (db_store ?d)))) [fact_new 1 ''a'' Null 5]) (db_ctx ?d) = (ctx, Inl WalSerializeError)"
    using open_or_create_new [of None]
    by (simp add: wal_write_stamped_batch_def append_entry_def serialize_entry_def Let_def)
  then obtain ctx where w: "wal_write_stamped_batch (\<lambda>_. None) (\<lambda>_. 9) (db_opts ?d) (db_policy ?d) (snd (allocate_tx_count (db_store ?d)))
      (map (stamp_fact 7 (snd (allocate_tx_count (db_store ?d)))) [fact_new 1 ''a'' Null 5]) (db_ctx ?d) = (ctx, Inl WalSerializeError)" ..
  have "checkpoint_of ?d = 3" by (simp add: checkpoint_of_def)
  then show ?thesis
    using log_failure_keeps_facts [OF w, of "\<lambda>_. 0" "\<lambda>fs p. (fs, p, Inl [])"] unfolding Let_def by (auto split: prod.splits)
qed



end
