(* ===== verification/Datalog_Types.thy ===== *)
theory Datalog_Types
  imports Graph_Types
begin

text \<open>
  The abstract syntax of \<open>src/src/query/datalog/types.rs\<close>: EDN values, expressions, patterns, where
  clauses, queries, rules, transactions and commands, with the accessors the rest of the query
  engine uses.  A compiled regular expression is represented by its pattern string, which is also
  what decides the equality of \<open>BinOp\<close>.
\<close>

section \<open>EDN values\<close>

datatype edn_value = EKeyword string | ESymbol string | EString string | EInteger i64 | EFloat f64 | EBoolean bool
  | EUuid uuid | EVector "edn_value list" | EList "edn_value list" | EMap "(edn_value \<times> edn_value) list"
  | ENil | EBindSlot string

text \<open>The derived \<open>PartialEq\<close>: structural, with the equality of floats at the leaves.\<close>

function edn_eq :: "edn_value \<Rightarrow> edn_value \<Rightarrow> bool" where
  "edn_eq (EKeyword a) y = (case y of EKeyword b \<Rightarrow> a = b | _ \<Rightarrow> False)"
| "edn_eq (ESymbol a) y = (case y of ESymbol b \<Rightarrow> a = b | _ \<Rightarrow> False)"
| "edn_eq (EString a) y = (case y of EString b \<Rightarrow> a = b | _ \<Rightarrow> False)"
| "edn_eq (EInteger a) y = (case y of EInteger b \<Rightarrow> a = b | _ \<Rightarrow> False)"
| "edn_eq (EFloat a) y = (case y of EFloat b \<Rightarrow> f64_eq a b | _ \<Rightarrow> False)"
| "edn_eq (EBoolean a) y = (case y of EBoolean b \<Rightarrow> a = b | _ \<Rightarrow> False)"
| "edn_eq (EUuid a) y = (case y of EUuid b \<Rightarrow> a = b | _ \<Rightarrow> False)"
| "edn_eq (EVector a) y = (case y of EVector b \<Rightarrow> length a = length b \<and> (\<forall>x \<in> set (zip a b). edn_eq (fst x) (snd x)) | _ \<Rightarrow> False)"
| "edn_eq (EList a) y = (case y of EList b \<Rightarrow> length a = length b \<and> (\<forall>x \<in> set (zip a b). edn_eq (fst x) (snd x)) | _ \<Rightarrow> False)"
| "edn_eq (EMap a) y = (case y of EMap b \<Rightarrow> length a = length b \<and>
       (\<forall>x \<in> set (zip a b). edn_eq (fst (fst x)) (fst (snd x)) \<and> edn_eq (snd (fst x)) (snd (snd x))) | _ \<Rightarrow> False)"
| "edn_eq (EBindSlot a) y = (case y of EBindSlot b \<Rightarrow> a = b | _ \<Rightarrow> False)"
| "edn_eq ENil y = (y = ENil)"
  by pat_completeness auto
termination
proof (relation "measure (\<lambda>(x, _). size x)", goal_cases)
  case (2 a y b x)
  then have "fst x \<in> set a" by (metis set_zip_leftD prod.collapse)
  then show ?case using size_list_estimation' [of "fst x" a "size (fst x)" size] by (simp add: case_prod_beta)
next
  case (3 a y b x)
  then have "fst x \<in> set a" by (metis set_zip_leftD prod.collapse)
  then show ?case using size_list_estimation' [of "fst x" a "size (fst x)" size] by (simp add: case_prod_beta)
next
  case (4 a y b x)
  then have "fst x \<in> set a" by (metis set_zip_leftD prod.collapse)
  moreover have "size (fst (fst x)) \<le> size_prod size size (fst x)" by (cases "fst x") simp
  ultimately have "size (fst (fst x)) \<le> size_list (size_prod size size) a" by (rule size_list_estimation')
  then show ?case by (simp add: case_prod_beta)
next
  case (5 a y b x)
  then have "fst x \<in> set a" by (metis set_zip_leftD prod.collapse)
  moreover have "size (snd (fst x)) \<le> size_prod size size (fst x)" by (cases "fst x") simp
  ultimately have "size (snd (fst x)) \<le> size_list (size_prod size size) a" by (rule size_list_estimation')
  then show ?case by (simp add: case_prod_beta)
qed simp

text \<open>\<open>str::starts_with\<close>\<close>

definition starts_with :: "string \<Rightarrow> string \<Rightarrow> bool" where
  "starts_with s p \<longleftrightarrow> take (length p) s = p"

lemma starts_with_append [simp]: "starts_with (p @ s) p"
  by (simp add: starts_with_def)

fun is_variable :: "edn_value \<Rightarrow> bool" where
  "is_variable (ESymbol s) = starts_with s ''?''"
| "is_variable _ = False"

fun as_variable :: "edn_value \<Rightarrow> string option" where
  "as_variable (ESymbol s) = (if starts_with s ''?'' then Some s else None)"
| "as_variable _ = None"

fun edn_is_keyword :: "edn_value \<Rightarrow> bool" where
  "edn_is_keyword (EKeyword _) = True"
| "edn_is_keyword _ = False"

fun edn_as_keyword :: "edn_value \<Rightarrow> string option" where
  "edn_as_keyword (EKeyword k) = Some k"
| "edn_as_keyword _ = None"

fun as_vector :: "edn_value \<Rightarrow> edn_value list option" where
  "as_vector (EVector v) = Some v"
| "as_vector _ = None"

fun as_list :: "edn_value \<Rightarrow> edn_value list option" where
  "as_list (EList l) = Some l"
| "as_list _ = None"

fun as_map :: "edn_value \<Rightarrow> (edn_value \<times> edn_value) list option" where
  "as_map (EMap m) = Some m"
| "as_map _ = None"

section \<open>Expressions\<close>

datatype window_func = WinSum | WinCount | WinMin | WinMax | WinAvg | WinRank | WinRowNumber | WinUdf string

datatype order = Asc | Desc

record window_spec =
  win_func :: window_func
  win_var :: "string option"
  win_partition_by :: "string option"
  win_order_by :: string
  win_order :: order

fun func_name :: "window_func \<Rightarrow> string" where
  "func_name WinSum = ''sum''"
| "func_name WinCount = ''count''"
| "func_name WinMin = ''min''"
| "func_name WinMax = ''max''"
| "func_name WinAvg = ''avg''"
| "func_name WinRank = ''rank''"
| "func_name WinRowNumber = ''row-number''"
| "func_name (WinUdf name) = name"

datatype bin_op = OpLt | OpGt | OpLte | OpGte | OpEq | OpNeq | OpAdd | OpSub | OpMul | OpDiv
  | OpStartsWith | OpEndsWith | OpContains | OpMatches string

datatype unary_op = StringQ | IntegerQ | FloatQ | BooleanQ | NilQ | UdfQ string

datatype expr = XVar string | XLit "value" | XSlot string | XBin bin_op expr expr | XUn unary_op expr

datatype find_spec = FindVariable string | FindAggregate string string | FindWindow window_spec

fun display_name :: "find_spec \<Rightarrow> string" where
  "display_name (FindVariable v) = v"
| "display_name (FindAggregate func var) = ''('' @ func @ '' '' @ var @ '')''"
| "display_name (FindWindow ws) =
     (case win_var ws of
        Some v \<Rightarrow> ''('' @ func_name (win_func ws) @ '' '' @ v @ '' :over ...)''
      | None \<Rightarrow> ''('' @ func_name (win_func ws) @ '' :over ...)'')"

fun find_var :: "find_spec \<Rightarrow> string" where
  "find_var (FindVariable v) = v"
| "find_var (FindAggregate func var) = var"
| "find_var (FindWindow ws) = (case win_var ws of Some v \<Rightarrow> v | None \<Rightarrow> ''__window_var'')"

section \<open>Patterns and clauses\<close>

datatype pseudo_attr = PaValidFrom | PaValidTo | PaTxCount | PaTxId | PaValidAt

definition pseudo_from_keyword :: "string \<Rightarrow> pseudo_attr option" where
  "pseudo_from_keyword k =
     (if k = '':db/valid-from'' then Some PaValidFrom
      else if k = '':db/valid-to'' then Some PaValidTo
      else if k = '':db/tx-count'' then Some PaTxCount
      else if k = '':db/tx-id'' then Some PaTxId
      else if k = '':db/valid-at'' then Some PaValidAt
      else None)"

fun pseudo_as_keyword :: "pseudo_attr \<Rightarrow> string" where
  "pseudo_as_keyword PaValidFrom = '':db/valid-from''"
| "pseudo_as_keyword PaValidTo = '':db/valid-to''"
| "pseudo_as_keyword PaTxCount = '':db/tx-count''"
| "pseudo_as_keyword PaTxId = '':db/tx-id''"
| "pseudo_as_keyword PaValidAt = '':db/valid-at''"

lemma pseudo_keyword_iff: "pseudo_from_keyword k = Some p \<longleftrightarrow> k = pseudo_as_keyword p"
  by (cases p) (auto simp: pseudo_from_keyword_def)

definition is_per_fact :: "pseudo_attr \<Rightarrow> bool" where
  "is_per_fact p \<longleftrightarrow> p \<noteq> PaValidAt"

datatype attribute_spec = Real edn_value | Pseudo pseudo_attr

record pattern =
  p_entity :: edn_value
  p_attribute :: attribute_spec
  p_value :: edn_value
  p_valid_from :: "i64 option"
  p_valid_to :: "i64 option"

definition pattern_new :: "edn_value \<Rightarrow> edn_value \<Rightarrow> edn_value \<Rightarrow> pattern" where
  "pattern_new e a v = \<lparr> p_entity = e, p_attribute = Real a, p_value = v, p_valid_from = None, p_valid_to = None \<rparr>"

definition pattern_pseudo :: "edn_value \<Rightarrow> pseudo_attr \<Rightarrow> edn_value \<Rightarrow> pattern" where
  "pattern_pseudo e p v = \<lparr> p_entity = e, p_attribute = Pseudo p, p_value = v, p_valid_from = None, p_valid_to = None \<rparr>"

definition pattern_with_valid_time ::
    "edn_value \<Rightarrow> edn_value \<Rightarrow> edn_value \<Rightarrow> i64 option \<Rightarrow> i64 option \<Rightarrow> pattern" where
  "pattern_with_valid_time e a v from to =
     \<lparr> p_entity = e, p_attribute = Real a, p_value = v, p_valid_from = from, p_valid_to = to \<rparr>"

fun pattern_from_edn :: "edn_value list \<Rightarrow> string + pattern" where
  "pattern_from_edn [e, a, v] = Inr (pattern_new e a v)"
| "pattern_from_edn _ = Inl ''Pattern must have exactly 3 elements (E A V)''"

datatype where_clause = WPattern pattern | WRule string "edn_value list" | WNot "where_clause list"
  | WNotJoin "string list" "where_clause list" | WExpr expr "string option"
  | WOr "where_clause list list" | WOrJoin "string list" "where_clause list list"

fun rule_invocations :: "where_clause \<Rightarrow> string list" where
  "rule_invocations (WPattern _) = []"
| "rule_invocations (WRule predicate _) = [predicate]"
| "rule_invocations (WNot clauses) = concat (map rule_invocations clauses)"
| "rule_invocations (WNotJoin _ clauses) = concat (map rule_invocations clauses)"
| "rule_invocations (WExpr _ _) = []"
| "rule_invocations (WOr branches) = concat (map (\<lambda>b. concat (map rule_invocations b)) branches)"
| "rule_invocations (WOrJoin _ branches) = concat (map (\<lambda>b. concat (map rule_invocations b)) branches)"

fun is_rule_invocation :: "where_clause \<Rightarrow> bool" where
  "is_rule_invocation (WRule _ _) = True"
| "is_rule_invocation _ = False"

fun has_negated_invocation :: "where_clause \<Rightarrow> bool" where
  "has_negated_invocation (WNot clauses) = (\<exists>c \<in> set clauses. is_rule_invocation c)"
| "has_negated_invocation (WNotJoin _ clauses) = (\<exists>c \<in> set clauses. is_rule_invocation c)"
| "has_negated_invocation _ = False"

fun collect_invocations :: "where_clause \<Rightarrow> (string \<times> edn_value list) list" where
  "collect_invocations (WRule predicate args) = [(predicate, args)]"
| "collect_invocations (WNot inner) = concat (map collect_invocations inner)"
| "collect_invocations (WNotJoin _ inner) = concat (map collect_invocations inner)"
| "collect_invocations (WPattern _) = []"
| "collect_invocations (WExpr _ _) = []"
| "collect_invocations (WOr branches) = concat (map (\<lambda>b. concat (map collect_invocations b)) branches)"
| "collect_invocations (WOrJoin _ branches) = concat (map (\<lambda>b. concat (map collect_invocations b)) branches)"

lemma collect_invocations_names: "map fst (collect_invocations c) = rule_invocations c"
  by (induction c rule: rule_invocations.induct) (auto simp: map_concat o_def intro!: arg_cong [of _ _ concat] map_cong)

section \<open>Queries and commands\<close>

datatype as_of = Counter u64 | AsOfTimestamp i64 | AsOfSlot string

datatype valid_at = ValidAtTimestamp i64 | AnyValidTime | ValidAtSlot string

record datalog_query =
  q_find :: "find_spec list"
  q_where :: "where_clause list"
  q_as_of :: "as_of option"
  q_valid_at :: "valid_at option"
  q_with :: "string list"
  q_max_derived_facts :: "nat option"
  q_max_results :: "nat option"

definition query_new :: "find_spec list \<Rightarrow> where_clause list \<Rightarrow> datalog_query" where
  "query_new fs clauses = \<lparr> q_find = fs, q_where = clauses, q_as_of = None, q_valid_at = None, q_with = [],
     q_max_derived_facts = None, q_max_results = None \<rparr>"

definition get_patterns :: "datalog_query \<Rightarrow> pattern list" where
  "get_patterns q = List.map_filter (\<lambda>c. case c of WPattern p \<Rightarrow> Some p | _ \<Rightarrow> None) (q_where q)"

definition has_binding_mechanism :: "datalog_query \<Rightarrow> bool" where
  "has_binding_mechanism q \<longleftrightarrow> q_where q \<noteq> [] \<or> (\<exists>f \<in> set (q_find q). case f of FindAggregate _ _ \<Rightarrow> True | _ \<Rightarrow> False)"

definition get_rule_invocations :: "datalog_query \<Rightarrow> (string \<times> edn_value list) list" where
  "get_rule_invocations q = concat (map collect_invocations (q_where q))"

definition uses_rules :: "datalog_query \<Rightarrow> bool" where
  "uses_rules q \<longleftrightarrow> (\<exists>c \<in> set (q_where q). rule_invocations c \<noteq> [])"

lemma uses_rules_iff: "uses_rules q \<longleftrightarrow> get_rule_invocations q \<noteq> []"
proof -
  have "rule_invocations c = [] \<longleftrightarrow> collect_invocations c = []" for c
    using collect_invocations_names [of c] by (metis map_is_Nil_conv)
  then show ?thesis by (auto simp: uses_rules_def get_rule_invocations_def)
qed

record rule =
  r_head :: "edn_value list"
  r_body :: "where_clause list"

record transaction =
  t_facts :: "pattern list"
  t_valid_from :: "i64 option"
  t_valid_to :: "i64 option"

definition transaction_new :: "pattern list \<Rightarrow> transaction" where
  "transaction_new facts = \<lparr> t_facts = facts, t_valid_from = None, t_valid_to = None \<rparr>"

datatype forget_source = ForgetQuery datalog_query | ForgetFacts "pattern list"

record forget_spec =
  fg_source :: forget_source
  fg_valid_to :: "i64 option"

datatype datalog_command = CmdQuery datalog_query | CmdRule rule | CmdTransact transaction | CmdRetract transaction
  | CmdForget forget_spec

end
