(* ===== verification/Stratification.thy ===== *)
theory Stratification
  imports Datalog_Types
begin

text \<open>
  The rule registry (\<open>query/datalog/rules.rs\<close>) and the stratification test that guards it
  (\<open>query/datalog/stratification.rs\<close>).  A registry and a dependency graph are hash maps, modelled by
  association lists whose order is the iteration order; every lemma holds for every order.  The
  propagation loop is a total function.  It is shown to succeed exactly when no predicate depends on
  itself through a negation, and then to compute the least stratification.
\<close>

section \<open>The dependency graph\<close>

type_synonym edge_map = "(string \<times> (string \<times> bool) list) list"

type_synonym rule_registry = "(string \<times> rule list) list"

fun collect_clause_deps :: "where_clause \<Rightarrow> (string \<times> bool) list" where
  "collect_clause_deps (WRule p _) = [(p, False)]"
| "collect_clause_deps (WNot inner) =
     List.map_filter (\<lambda>c. case c of WRule p _ \<Rightarrow> Some (p, True) | _ \<Rightarrow> None) inner"
| "collect_clause_deps (WNotJoin _ inner) =
     List.map_filter (\<lambda>c. case c of WRule p _ \<Rightarrow> Some (p, True) | _ \<Rightarrow> None) inner"
| "collect_clause_deps (WOr branches) = concat (map (\<lambda>b. concat (map collect_clause_deps b)) branches)"
| "collect_clause_deps (WOrJoin _ branches) = concat (map (\<lambda>b. concat (map collect_clause_deps b)) branches)"
| "collect_clause_deps (WPattern _) = []"
| "collect_clause_deps (WExpr _ _) = []"

definition rule_deps :: "rule \<Rightarrow> (string \<times> bool) list" where
  "rule_deps r = concat (map collect_clause_deps (r_body r))"

text \<open>\<open>entry(head).or_default()\<close> followed by pushes, once for every rule.\<close>

definition from_rules :: "rule_registry \<Rightarrow> edge_map" where
  "from_rules registry =
     fold (\<lambda>(head, rs) edges. fold (\<lambda>r edges. hm_modify_or_insert head (\<lambda>old. old @ rule_deps r) (rule_deps r) edges) rs edges)
       registry []"

section \<open>The propagation loop\<close>

datatype strat_error = Unstratifiable string string

type_synonym strata = "(string, nat) hash_map"

text \<open>The edges in the order of the two nested loops.\<close>

definition flat_edges :: "edge_map \<Rightarrow> (string \<times> string \<times> bool) list" where
  "flat_edges edges = concat (map (\<lambda>(head, deps). map (\<lambda>(dep, neg). (head, dep, neg)) deps) edges)"

definition all_predicates :: "edge_map \<Rightarrow> string list" where
  "all_predicates edges = remdups (concat (map (\<lambda>(head, deps). head # map fst deps) edges))"

definition stratum :: "strata \<Rightarrow> string \<Rightarrow> nat" where
  "stratum s p = get_or 0 (hm_get s p)"

definition relax :: "nat \<Rightarrow> string \<times> string \<times> bool \<Rightarrow> strata \<times> bool \<Rightarrow> strat_error + (strata \<times> bool)" where
  "relax n e sc =
     (case (e, sc) of ((head, dep, neg), (s, changed)) \<Rightarrow>
        let required = (if neg then sat_add (stratum s dep) 1 else stratum s dep);
            s1 = (case hm_get s head of None \<Rightarrow> hm_insert head 0 s | Some _ \<Rightarrow> s);
            up = stratum s1 head < required;
            s2 = (if up then hm_insert head required s1 else s1)
        in if n \<le> stratum s2 head then Inl (Unstratifiable head dep) else Inr (s2, changed \<or> up))"

fun relax_all :: "nat \<Rightarrow> (string \<times> string \<times> bool) list \<Rightarrow> strata \<times> bool \<Rightarrow> strat_error + (strata \<times> bool)" where
  "relax_all n [] sc = Inr sc"
| "relax_all n (e # es) sc = (case relax n e sc of Inl err \<Rightarrow> Inl err | Inr sc' \<Rightarrow> relax_all n es sc')"

text \<open>A pass that changes anything raises the stratum of some head below the bound.\<close>

definition required :: "string \<times> string \<times> bool \<Rightarrow> strata \<Rightarrow> nat" where
  "required e s = (case e of (head, dep, neg) \<Rightarrow> if neg then sat_add (stratum s dep) 1 else stratum s dep)"

lemma relax_Inr:
  assumes "relax n e (s, b) = Inr (s', b')"
  shows "stratum s' = (stratum s)(fst e := max (stratum s (fst e)) (required e s))"
    and "stratum s' (fst e) < n"
    and "b' \<longleftrightarrow> b \<or> stratum s (fst e) < required e s"
  using assms
  by (auto simp: relax_def required_def stratum_def Let_def fun_eq_iff split: prod.splits option.splits if_splits)

lemma relax_Inl:
  assumes "relax n e (s, b) = Inl err"
  shows "n \<le> max (stratum s (fst e)) (required e s)" "err = Unstratifiable (fst e) (fst (snd e))"
  using assms
  by (auto simp: relax_def required_def stratum_def Let_def split: prod.splits option.splits if_splits)

lemma relax_all_mono:
  assumes "relax_all n es (s, b) = Inr (s', b')"
  shows "stratum s p \<le> stratum s' p" and "b \<longrightarrow> b'"
  using assms
proof (induction es arbitrary: s b)
  case (Cons e es)
  {
    case 1
    then obtain s1 b1 where r: "relax n e (s, b) = Inr (s1, b1)" "relax_all n es (s1, b1) = Inr (s', b')"
      by (auto split: sum.splits)
    show ?case using Cons.IH(1) [OF r(2)] relax_Inr(1) [OF r(1)] by (auto simp: fun_upd_def split: if_splits)
  next
    case 2
    then obtain s1 b1 where r: "relax n e (s, b) = Inr (s1, b1)" "relax_all n es (s1, b1) = Inr (s', b')"
      by (auto split: sum.splits)
    show ?case using Cons.IH(2) [OF r(2)] relax_Inr(3) [OF r(1)] by auto
  }
qed auto

lemma relax_all_bound:
  assumes "relax_all n es (s, b) = Inr (s', b')" and "h \<in> fst ` set es"
  shows "stratum s' h < n"
  using assms
proof (induction es arbitrary: s b)
  case (Cons e es)
  obtain s1 b1 where r: "relax n e (s, b) = Inr (s1, b1)" "relax_all n es (s1, b1) = Inr (s', b')"
    using Cons.prems by (auto split: sum.splits)
  show ?case
  proof (cases "h \<in> fst ` set es")
    case True
    then show ?thesis using Cons.IH [OF r(2)] by simp
  next
    case False
    have "stratum s' h = stratum s1 h" using r(2) False
    proof (induction es arbitrary: s1 b1)
      case (Cons e' es)
      then obtain s2 b2 where q: "relax n e' (s1, b1) = Inr (s2, b2)" "relax_all n es (s2, b2) = Inr (s', b')"
        by (auto split: sum.splits)
      show ?case using Cons.IH [OF q(2)] Cons.prems(2) relax_Inr(1) [OF q(1)] by auto
    qed auto
    then show ?thesis using Cons.prems(2) False relax_Inr(2) [OF r(1)] by auto
  qed
qed auto

lemma relax_all_changed:
  assumes "relax_all n es (s, False) = Inr (s', True)"
  shows "\<exists>h \<in> fst ` set es. stratum s h < stratum s' h"
  using assms
proof (induction es arbitrary: s)
  case (Cons e es)
  then obtain s1 b1 where r: "relax n e (s, False) = Inr (s1, b1)" "relax_all n es (s1, b1) = Inr (s', True)"
    by (auto split: sum.splits)
  show ?case
  proof (cases b1)
    case True
    then have "stratum s (fst e) < stratum s1 (fst e)" using relax_Inr(1,3) [OF r(1)] by auto
    then have "stratum s (fst e) < stratum s' (fst e)" using relax_all_mono(1) [OF r(2), of "fst e"] by simp
    then show ?thesis by auto
  next
    case False
    then have "stratum s1 = stratum s" using relax_Inr(1,3) [OF r(1)] by (auto simp: fun_eq_iff max_def)
    then show ?thesis using Cons.IH [of s1] r(2) False by auto
  qed
qed auto

definition strat_room :: "nat \<Rightarrow> (string \<times> string \<times> bool) list \<Rightarrow> strata \<Rightarrow> nat" where
  "strat_room n es s = (\<Sum>h \<in> fst ` set es. n - stratum s h)"

lemma strat_room_decreases:
  assumes "relax_all n es (s, False) = Inr (s', True)"
  shows "strat_room n es s' < strat_room n es s"
proof -
  obtain h where h: "h \<in> fst ` set es" "stratum s h < stratum s' h" using relax_all_changed [OF assms] by blast
  show ?thesis unfolding strat_room_def
  proof (rule sum_strict_mono_ex1)
    show "\<forall>x \<in> fst ` set es. n - stratum s' x \<le> n - stratum s x"
      using relax_all_mono(1) [OF assms] by (simp add: diff_le_mono2)
    show "\<exists>x \<in> fst ` set es. n - stratum s' x < n - stratum s x"
      using h relax_all_bound [OF assms h(1)] by (intro bexI [of _ h]) simp_all
  qed simp
qed

function strat_loop :: "nat \<Rightarrow> (string \<times> string \<times> bool) list \<Rightarrow> strata \<Rightarrow> strat_error + strata" where
  "strat_loop n es s =
     (case relax_all n es (s, False) of
        Inl e \<Rightarrow> Inl e
      | Inr (s', changed) \<Rightarrow> if changed then strat_loop n es s' else Inr s')"
  by pat_completeness auto
termination
  by (relation "measure (\<lambda>(n, es, s). strat_room n es s)") (auto intro: strat_room_decreases)

declare strat_loop.simps [simp del]

definition stratify :: "edge_map \<Rightarrow> strat_error + strata" where
  "stratify edges =
     strat_loop (length (all_predicates edges)) (flat_edges edges) (map (\<lambda>p. (p, 0)) (all_predicates edges))"

section \<open>The registry\<close>

definition registry_new :: rule_registry where
  "registry_new = []"

definition register_rule_unchecked :: "string \<Rightarrow> rule \<Rightarrow> rule_registry \<Rightarrow> rule_registry" where
  "register_rule_unchecked p r registry = hm_modify_or_insert p (\<lambda>rs. rs @ [r]) [r] registry"

datatype register_error = Rejected strat_error | Disappeared string

definition register_rule :: "string \<Rightarrow> rule \<Rightarrow> rule_registry \<Rightarrow> rule_registry \<times> (register_error + unit)" where
  "register_rule p r registry =
     (let registry1 = register_rule_unchecked p r registry in
      case stratify (from_rules registry1) of
        Inr _ \<Rightarrow> (registry1, Inr ())
      | Inl e \<Rightarrow>
          (case hm_get registry1 p of
             None \<Rightarrow> (registry1, Inl (Disappeared p))
           | Some rs \<Rightarrow>
               let rs' = butlast rs in
               (if rs' = [] then AList.delete p registry1 else hm_insert p rs' registry1, Inl (Rejected e))))"

definition get_rules :: "rule_registry \<Rightarrow> string \<Rightarrow> rule list" where
  "get_rules registry p = get_or [] (hm_get registry p)"

definition has_rule :: "rule_registry \<Rightarrow> string \<Rightarrow> bool" where
  "has_rule registry p \<longleftrightarrow> hm_get registry p \<noteq> None"

definition rule_count :: "rule_registry \<Rightarrow> nat" where
  "rule_count registry = sum_list (map (\<lambda>(_, rs). length rs) registry)"

definition predicate_count :: "rule_registry \<Rightarrow> nat" where
  "predicate_count registry = length registry"

definition predicate_names :: "rule_registry \<Rightarrow> string list" where
  "predicate_names registry = map fst registry"

section \<open>Stratifications and negative cycles\<close>

definition is_strata :: "(string \<times> string \<times> bool) list \<Rightarrow> (string \<Rightarrow> nat) \<Rightarrow> bool" where
  "is_strata es f \<longleftrightarrow> (\<forall>(h, d, neg) \<in> set es. f d + (if neg then 1 else 0) \<le> f h)"

definition dep_edge :: "(string \<times> string \<times> bool) set \<Rightarrow> (string \<times> string) set" where
  "dep_edge E = {(h, d). \<exists>neg. (h, d, neg) \<in> E}"

definition neg_cycle :: "(string \<times> string \<times> bool) set \<Rightarrow> bool" where
  "neg_cycle E \<longleftrightarrow> (\<exists>h d. (h, d, True) \<in> E \<and> (d, h) \<in> (dep_edge E)\<^sup>*)"

lemma strata_no_neg_cycle:
  assumes "is_strata es f"
  shows "\<not> neg_cycle (set es)"
proof
  assume "neg_cycle (set es)"
  then obtain h d where hd: "(h, d, True) \<in> set es" "(d, h) \<in> (dep_edge (set es))\<^sup>*" by (auto simp: neg_cycle_def)
  have "f h \<le> f d" using hd(2)
  proof (induction rule: rtrancl_induct)
    case (step y z)
    then show ?case using assms by (fastforce simp: dep_edge_def is_strata_def)
  qed simp
  moreover have "f d + 1 \<le> f h" using assms hd(1) by (fastforce simp: is_strata_def)
  ultimately show False by simp
qed

text \<open>One negative edge followed by any edges; a predicate's stratum counts such steps.\<close>

definition neg_step :: "(string \<times> string \<times> bool) set \<Rightarrow> (string \<times> string) set" where
  "neg_step E = {(a, b). \<exists>d. (a, d, True) \<in> E \<and> (d, b) \<in> (dep_edge E)\<^sup>*}"

definition neg_depth :: "(string \<times> string \<times> bool) set \<Rightarrow> string \<Rightarrow> nat \<Rightarrow> bool" where
  "neg_depth E p k \<longleftrightarrow> (\<exists>x y. (p, x) \<in> (dep_edge E)\<^sup>* \<and> (x, y) \<in> neg_step E ^^ k)"

lemma neg_depth_0: "neg_depth E p 0"
  by (auto simp: neg_depth_def)

lemma neg_depth_edge:
  assumes "(h, d, neg) \<in> E" and "neg_depth E d k"
  shows "neg_depth E h (if neg then Suc k else k)"
proof -
  obtain x y where xy: "(d, x) \<in> (dep_edge E)\<^sup>*" "(x, y) \<in> neg_step E ^^ k" using assms(2) by (auto simp: neg_depth_def)
  show ?thesis
  proof (cases neg)
    case True
    then have "(h, x) \<in> neg_step E" using assms(1) xy(1) by (auto simp: neg_step_def)
    then have "(h, y) \<in> neg_step E ^^ Suc k" using xy(2) by (rule relpow_Suc_I2)
    then show ?thesis using True by (auto simp: neg_depth_def simp del: relpow.simps)
  next
    case False
    have "(h, d) \<in> dep_edge E" using assms(1) by (auto simp: dep_edge_def)
    then have "(h, x) \<in> (dep_edge E)\<^sup>*" using xy(1) by (rule converse_rtrancl_into_rtrancl)
    then show ?thesis using False xy(2) by (auto simp: neg_depth_def)
  qed
qed

lemma neg_depth_le: "neg_depth E p k \<Longrightarrow> j \<le> k \<Longrightarrow> neg_depth E p j"
  using relpow_add [of j "k - j" "neg_step E"] unfolding neg_depth_def by fastforce

lemma neg_step_dep: "neg_step E \<subseteq> (dep_edge E)\<^sup>+"
  by (auto simp: neg_step_def dep_edge_def intro: rtrancl_into_trancl2)

lemma neg_step_cycle:
  assumes "(x, x) \<in> (neg_step E)\<^sup>+"
  shows "neg_cycle E"
proof -
  obtain y where y: "(x, y) \<in> neg_step E" "(y, x) \<in> (neg_step E)\<^sup>*" using assms by (meson tranclD)
  obtain d where d: "(x, d, True) \<in> E" "(d, y) \<in> (dep_edge E)\<^sup>*" using y(1) by (auto simp: neg_step_def)
  have "neg_step E \<subseteq> (dep_edge E)\<^sup>*" using neg_step_dep by (meson trancl_into_rtrancl subrelI subsetD)
  then have "(y, x) \<in> (dep_edge E)\<^sup>*" using y(2) by (meson rtrancl_subset_rtrancl subsetD)
  then show ?thesis using d by (auto simp: neg_cycle_def intro: rtrancl_trans)
qed

text \<open>More negative steps than there are predicates repeat one of them.\<close>

lemma neg_depth_pigeonhole:
  assumes "neg_depth E p k" and "card A \<le> k" and "finite A" and E: "\<And>h d neg. (h, d, neg) \<in> E \<Longrightarrow> h \<in> A \<and> d \<in> A" and "0 < k"
  shows "neg_cycle E"
proof -
  obtain x y where "(x, y) \<in> neg_step E ^^ k" using assms(1) by (auto simp: neg_depth_def)
  then obtain f where f: "\<forall>i<k. (f i, f (Suc i)) \<in> neg_step E" by (auto simp: relpow_fun_conv)
  have "b \<in> A" if "(d, b) \<in> (dep_edge E)\<^sup>*" "d \<in> A" for d b
    using that by (induction rule: rtrancl_induct) (auto simp: dep_edge_def dest: E)
  then have step_in: "a \<in> A \<and> b \<in> A" if "(a, b) \<in> neg_step E" for a b using that by (auto simp: neg_step_def dest: E)
  have "f i \<in> A" if "i \<le> k" for i
  proof (cases "i < k")
    case True
    then show ?thesis using f step_in by blast
  next
    case False
    then have "i = Suc (k - 1)" "k - 1 < k" using that \<open>0 < k\<close> by auto
    then show ?thesis using f step_in by metis
  qed
  then have "f ` {..k} \<subseteq> A" by auto
  then have "card (f ` {..k}) < card {..k}" using card_mono [OF assms(3), of "f ` {..k}"] assms(2) by simp
  then have "\<not> inj_on f {..k}" by (rule pigeonhole)
  then obtain i j where ij: "i < j" "j \<le> k" "f i = f j" unfolding inj_on_def by (metis atMost_iff linorder_neqE_nat)
  have "(f i, f j) \<in> neg_step E ^^ (j - i)"
    unfolding relpow_fun_conv using f ij by (intro exI [of _ "\<lambda>m. f (i + m)"]) auto
  then have "(f i, f i) \<in> (neg_step E)\<^sup>+" using ij by (auto simp: trancl_power intro!: exI [of _ "j - i"])
  then show ?thesis by (rule neg_step_cycle)
qed

section \<open>Correctness of the loop\<close>

text \<open>What holds of all strata and is kept by raising a head to what an edge requires holds of the result,
  and of the stratum at which the loop gives up.\<close>

definition raise_closed :: "(string \<times> string \<times> bool) list \<Rightarrow> (string \<Rightarrow> nat \<Rightarrow> bool) \<Rightarrow> bool" where
  "raise_closed es P \<longleftrightarrow> (\<forall>e \<in> set es. \<forall>s. (\<forall>p. P p (stratum s p)) \<longrightarrow> P (fst e) (required e s))"

lemma relax_all_keeps:
  assumes "raise_closed es P" and "\<And>p. P p (stratum s p)"
  shows "case relax_all n es (s, b) of
      Inr (s', b') \<Rightarrow> \<forall>p. P p (stratum s' p)
    | Inl e \<Rightarrow> \<exists>p k. n \<le> k \<and> P p k"
  using assms
proof (induction es arbitrary: s b)
  case (Cons e es)
  have e: "P (fst e) (required e s)" and rest: "raise_closed es P" using Cons.prems by (auto simp: raise_closed_def)
  show ?case
  proof (cases "relax n e (s, b)")
    case (Inl err)
    then have "n \<le> max (stratum s (fst e)) (required e s)" by (rule relax_Inl)
    then show ?thesis using Inl e Cons.prems(2) by (auto simp: le_max_iff_disj)
  next
    case (Inr sc)
    obtain s1 b1 where sc: "sc = (s1, b1)" by (cases sc)
    have "P p (stratum s1 p)" for p
      using relax_Inr(1) [OF Inr [unfolded sc]] e Cons.prems(2) by (auto simp: max_def)
    then show ?thesis using Cons.IH [OF rest, of s1 b1] Inr sc by simp
  qed
qed simp

lemma strat_loop_keeps:
  assumes "raise_closed es P" and "\<And>p. P p (stratum s p)"
  shows "case strat_loop n es s of Inr s' \<Rightarrow> \<forall>p. P p (stratum s' p) | Inl e \<Rightarrow> \<exists>p k. n \<le> k \<and> P p k"
  using assms
proof (induction n es s rule: strat_loop.induct)
  case (1 n es s)
  show ?case
  proof (cases "relax_all n es (s, False)")
    case (Inl e)
    then show ?thesis using relax_all_keeps [OF 1(2,3), of n False] by (simp add: strat_loop.simps [of n es s])
  next
    case (Inr sc)
    obtain s1 b1 where sc: "sc = (s1, b1)" by (cases sc)
    have "\<And>p. P p (stratum s1 p)" using relax_all_keeps [OF 1(2,3), of n False] Inr sc by simp
    then show ?thesis using 1(1) [OF Inr sc [symmetric] _ 1(2)] Inr sc by (cases b1) (simp_all add: strat_loop.simps [of n es s])
  qed
qed

lemma relax_all_unchanged:
  assumes "relax_all n es (s, False) = Inr (s', False)"
  shows "stratum s' = stratum s \<and> (\<forall>e \<in> set es. required e s \<le> stratum s (fst e))"
  using assms
proof (induction es arbitrary: s)
  case (Cons e es)
  then obtain s1 b1 where r: "relax n e (s, False) = Inr (s1, b1)" "relax_all n es (s1, b1) = Inr (s', False)"
    by (auto split: sum.splits)
  have b1: "\<not> b1" using relax_all_mono(2) [OF r(2)] by simp
  then have le: "required e s \<le> stratum s (fst e)" using relax_Inr(3) [OF r(1)] by simp
  then have "stratum s1 = stratum s" using relax_Inr(1) [OF r(1)] by (auto simp: fun_eq_iff max_def)
  moreover have "required e' s1 = required e' s" for e' using calculation by (simp add: required_def split: prod.splits)
  ultimately show ?case using Cons.IH [of s1] r(2) b1 le by simp
qed simp

lemma strat_loop_fixed:
  assumes "strat_loop n es s = Inr s'"
  shows "(\<forall>e \<in> set es. required e s' \<le> stratum s' (fst e) \<and> stratum s' (fst e) < n)"
  using assms
proof (induction n es s rule: strat_loop.induct)
  case (1 n es s)
  then obtain s1 b1 where r: "relax_all n es (s, False) = Inr (s1, b1)"
    by (auto simp: strat_loop.simps [of n es s] split: sum.splits)
  show ?case
  proof (cases b1)
    case True
    then show ?thesis using 1(1) [OF r refl True] 1(2) r by (simp add: strat_loop.simps [of n es s])
  next
    case False
    then have s': "s' = s1" using 1(2) r by (simp add: strat_loop.simps [of n es s])
    have un: "stratum s1 = stratum s" "\<forall>e \<in> set es. required e s \<le> stratum s (fst e)"
      using relax_all_unchanged [of n es s s1] r False by simp_all
    have "required e s1 = required e s" for e using un(1) by (simp add: required_def split: prod.splits)
    then show ?thesis using un relax_all_bound [OF r] s' by simp
  qed
qed

lemma raise_closed_depth: "set es \<subseteq> E \<Longrightarrow> raise_closed es (neg_depth E)"
  unfolding raise_closed_def
proof (intro ballI allI impI)
  fix e s assume e: "set es \<subseteq> E" "e \<in> set es" and d: "\<forall>p. neg_depth E p (stratum s p)"
  obtain h dep neg where hd: "e = (h, dep, neg)" by (cases e)
  have deep: "neg_depth E h (if neg then Suc (stratum s dep) else stratum s dep)"
    using neg_depth_edge [of h dep neg E "stratum s dep"] e d hd by auto
  have "required e s \<le> (if neg then Suc (stratum s dep) else stratum s dep)" by (simp add: required_def hd sat_add_def)
  then show "neg_depth E (fst e) (required e s)" using deep hd by (auto intro: neg_depth_le)
qed

lemma raise_closed_below: "is_strata es f \<Longrightarrow> raise_closed es (\<lambda>p k. k \<le> f p)"
  unfolding raise_closed_def
proof (intro ballI allI impI)
  fix e s assume f: "is_strata es f" and e: "e \<in> set es" and le: "\<forall>p. stratum s p \<le> f p"
  obtain h d neg where hd: "e = (h, d, neg)" by (cases e)
  have "f d + (if neg then 1 else 0) \<le> f h" using f e hd by (auto simp: is_strata_def)
  moreover have "required e s \<le> stratum s d + (if neg then 1 else 0)" by (simp add: required_def hd sat_add_def)
  ultimately show "required e s \<le> f (fst e)" using le [rule_format, of d] hd by simp
qed

lemma raise_closed_heads: "raise_closed es (\<lambda>p k. k = 0 \<or> p \<in> fst ` set es)"
  by (auto simp: raise_closed_def)

lemma stratum_init [simp]: "stratum (map (\<lambda>p. (p, 0)) ps) p = 0"
  by (induction ps) (auto simp: stratum_def)

lemma flat_edges_iff: "(h, d, neg) \<in> set (flat_edges edges) \<longleftrightarrow> (\<exists>deps. (h, deps) \<in> set edges \<and> (d, neg) \<in> set deps)"
  by (auto simp: flat_edges_def)

lemma flat_edges_predicates:
  assumes "(h, d, neg) \<in> set (flat_edges edges)"
  shows "h \<in> set (all_predicates edges) \<and> d \<in> set (all_predicates edges)"
proof -
  obtain deps where deps: "(h, deps) \<in> set edges" "(d, neg) \<in> set deps" using assms by (auto simp: flat_edges_iff)
  have "d \<in> fst ` set deps" using deps(2) by force
  then have "h \<in> set (h # map fst deps)" "d \<in> set (h # map fst deps)" by simp_all
  moreover have "h # map fst deps \<in> set (map (\<lambda>(head, deps). head # map fst deps) edges)"
    unfolding set_map using deps(1) by (rule rev_image_eqI) simp
  then have "set (h # map fst deps) \<subseteq> set (all_predicates edges)"
    unfolding all_predicates_def set_remdups set_concat by (intro Union_upper imageI)
  ultimately show ?thesis by blast
qed

lemma stratify_Inr:
  assumes "stratify edges = Inr s" and "length (all_predicates edges) \<le> usize_MAX"
  shows "is_strata (flat_edges edges) (stratum s)"
    and "is_strata (flat_edges edges) f \<Longrightarrow> stratum s p \<le> f p"
proof -
  let ?es = "flat_edges edges" and ?n = "length (all_predicates edges)"
  note loop = assms(1) [unfolded stratify_def]
  have heads: "\<forall>p. stratum s p = 0 \<or> p \<in> fst ` set ?es"
    using strat_loop_keeps [OF raise_closed_heads, of "map (\<lambda>p. (p, 0)) (all_predicates edges)" ?es ?n] loop by simp
  have "f d + (if neg then 1 else 0) \<le> f h" if "(h, d, neg) \<in> set ?es" "f = stratum s" for h d neg f
  proof -
    have q: "required (h, d, neg) s \<le> stratum s h" "stratum s h < ?n" using strat_loop_fixed [OF loop] that(1) by fastforce+
    have "stratum s d < ?n" using heads [rule_format, of d] strat_loop_fixed [OF loop] q(2) by fastforce
    then show ?thesis using q(1) assms(2) that(2) by (auto simp: required_def sat_add_def split: if_splits)
  qed
  then show "is_strata ?es (stratum s)" by (fastforce simp: is_strata_def)
  show "stratum s p \<le> f p" if "is_strata ?es f"
    using strat_loop_keeps [OF raise_closed_below [OF that], of "map (\<lambda>p. (p, 0)) (all_predicates edges)" ?n] loop by simp
qed

lemma stratify_Inl:
  assumes "stratify edges = Inl e"
  shows "neg_cycle (set (flat_edges edges))"
proof -
  let ?E = "set (flat_edges edges)" and ?n = "length (all_predicates edges)"
  let ?init = "map (\<lambda>p. (p, 0)) (all_predicates edges)"
  have "\<exists>p k. ?n \<le> k \<and> neg_depth ?E p k"
    using strat_loop_keeps [OF raise_closed_depth [OF order_refl], of "flat_edges edges" ?init ?n]
    by (simp add: assms [unfolded stratify_def] neg_depth_0)
  then obtain p k where pk: "?n \<le> k" "neg_depth ?E p k" by blast
  have "flat_edges edges \<noteq> []" using assms by (auto simp: stratify_def strat_loop.simps)
  then obtain h d neg where "(h, d, neg) \<in> ?E" by (metis list.set_intros(1) neq_Nil_conv prod_cases3)
  then have "0 < ?n" using flat_edges_predicates [of h d neg edges] by (auto simp: length_pos_if_in_set)
  then have "0 < k" using pk(1) by (rule less_le_trans)
  moreover have "card (set (all_predicates edges)) = ?n" by (rule distinct_card) (simp add: all_predicates_def)
  ultimately show ?thesis
    using neg_depth_pigeonhole [OF pk(2), of "set (all_predicates edges)"] flat_edges_predicates [of _ _ _ edges] pk(1) by simp
qed

section \<open>What the graph records of the rules\<close>

text \<open>The predicates a clause calls, at any depth, with the polarity of the call; and the clauses the
  parser accepts, in which a negation contains no further negation or disjunction.\<close>

fun clause_calls :: "where_clause \<Rightarrow> (string \<times> bool) set" where
  "clause_calls (WRule p _) = {(p, False)}"
| "clause_calls (WNot inner) = (\<Union>c \<in> set inner. (\<lambda>p. (p, True)) ` set (rule_invocations c))"
| "clause_calls (WNotJoin _ inner) = (\<Union>c \<in> set inner. (\<lambda>p. (p, True)) ` set (rule_invocations c))"
| "clause_calls (WOr branches) = (\<Union>b \<in> set branches. \<Union>c \<in> set b. clause_calls c)"
| "clause_calls (WOrJoin _ branches) = (\<Union>b \<in> set branches. \<Union>c \<in> set b. clause_calls c)"
| "clause_calls (WPattern _) = {}"
| "clause_calls (WExpr _ _) = {}"

fun is_simple_clause :: "where_clause \<Rightarrow> bool" where
  "is_simple_clause (WRule _ _) = True"
| "is_simple_clause (WPattern _) = True"
| "is_simple_clause (WExpr _ _) = True"
| "is_simple_clause _ = False"

fun flat_negation :: "where_clause \<Rightarrow> bool" where
  "flat_negation (WNot inner) = list_all is_simple_clause inner"
| "flat_negation (WNotJoin _ inner) = list_all is_simple_clause inner"
| "flat_negation (WOr branches) = (\<forall>b \<in> set branches. \<forall>c \<in> set b. flat_negation c)"
| "flat_negation (WOrJoin _ branches) = (\<forall>b \<in> set branches. \<forall>c \<in> set b. flat_negation c)"
| "flat_negation _ = True"

lemma simple_calls:
  assumes "list_all is_simple_clause inner"
  shows "set (List.map_filter (\<lambda>c. case c of WRule p _ \<Rightarrow> Some (p, True) | _ \<Rightarrow> None) inner) =
    (\<Union>c \<in> set inner. (\<lambda>p. (p, True)) ` set (rule_invocations c))"
  using assms
proof (induction inner)
  case (Cons c inner)
  then show ?case by (cases c) (auto simp: List.map_filter_simps)
qed (simp add: List.map_filter_simps)

lemma collect_clause_deps_calls: "flat_negation c \<Longrightarrow> set (collect_clause_deps c) = clause_calls c"
  by (induction c rule: clause_calls.induct) (auto simp: simple_calls)

definition registry_calls :: "rule_registry \<Rightarrow> (string \<times> string \<times> bool) set" where
  "registry_calls registry =
     {(h, d, neg). \<exists>rs r c. (h, rs) \<in> set registry \<and> r \<in> set rs \<and> c \<in> set (r_body r) \<and> (d, neg) \<in> clause_calls c}"

definition flat_rules :: "rule_registry \<Rightarrow> bool" where
  "flat_rules registry \<longleftrightarrow> (\<forall>(h, rs) \<in> set registry. \<forall>r \<in> set rs. list_all flat_negation (r_body r))"

lemma flat_edges_push:
  assumes "hm_wf edges"
  shows "(h, d, neg) \<in> set (flat_edges (hm_modify_or_insert k (\<lambda>old. old @ xs) xs edges)) \<longleftrightarrow>
    (h, d, neg) \<in> set (flat_edges edges) \<or> h = k \<and> (d, neg) \<in> set xs"
proof -
  have wf: "hm_wf (hm_modify_or_insert k (\<lambda>old. old @ xs) xs edges)" using assms by simp
  have mem: "(h, deps) \<in> set m \<longleftrightarrow> hm_get m h = Some deps" if "hm_wf m" for m :: edge_map and deps
    using that by simp
  show ?thesis unfolding flat_edges_iff mem [OF wf] mem [OF assms] by (auto split: option.splits)
qed

lemma flat_edges_rules:
  "hm_wf edges \<Longrightarrow>
    hm_wf (fold (\<lambda>r edges. hm_modify_or_insert k (\<lambda>old. old @ rule_deps r) (rule_deps r) edges) rs edges) \<and>
    ((h, d, neg) \<in> set (flat_edges (fold (\<lambda>r edges. hm_modify_or_insert k (\<lambda>old. old @ rule_deps r) (rule_deps r) edges) rs edges)) \<longleftrightarrow>
     (h, d, neg) \<in> set (flat_edges edges) \<or> h = k \<and> (\<exists>r \<in> set rs. (d, neg) \<in> set (rule_deps r)))"
  by (induction rs arbitrary: edges) (auto simp: flat_edges_push)

lemma flat_edges_registry:
  "hm_wf edges \<Longrightarrow>
    (h, d, neg) \<in> set (flat_edges (fold (\<lambda>(head, rs) edges.
        fold (\<lambda>r edges. hm_modify_or_insert head (\<lambda>old. old @ rule_deps r) (rule_deps r) edges) rs edges) registry edges)) \<longleftrightarrow>
    (h, d, neg) \<in> set (flat_edges edges) \<or> (\<exists>rs r. (h, rs) \<in> set registry \<and> r \<in> set rs \<and> (d, neg) \<in> set (rule_deps r))"
proof (induction registry arbitrary: edges)
  case (Cons e registry)
  obtain k rs where e: "e = (k, rs)" by (cases e)
  let ?edges = "fold (\<lambda>r edges. hm_modify_or_insert k (\<lambda>old. old @ rule_deps r) (rule_deps r) edges) rs edges"
  have "hm_wf ?edges" using flat_edges_rules [OF Cons.prems] by blast
  then show ?case using Cons.IH [of ?edges] flat_edges_rules [OF Cons.prems, of k rs h d neg] e by auto
qed simp

lemma from_rules_calls:
  assumes "flat_rules registry"
  shows "set (flat_edges (from_rules registry)) = registry_calls registry"
proof -
  have deps: "(d, neg) \<in> set (rule_deps r) \<longleftrightarrow> (\<exists>c \<in> set (r_body r). (d, neg) \<in> clause_calls c)"
    if "(h, rs) \<in> set registry" "r \<in> set rs" for h rs r d neg
    using that assms by (fastforce simp: rule_deps_def flat_rules_def list_all_iff collect_clause_deps_calls)
  have "(h, d, neg) \<in> set (flat_edges (from_rules registry)) \<longleftrightarrow> (h, d, neg) \<in> registry_calls registry" for h d neg
  proof -
    have "(h, d, neg) \<in> set (flat_edges (from_rules registry)) \<longleftrightarrow>
        (\<exists>rs r. (h, rs) \<in> set registry \<and> r \<in> set rs \<and> (d, neg) \<in> set (rule_deps r))"
      using flat_edges_registry [of "[]" h d neg registry] by (simp add: from_rules_def flat_edges_def)
    then show ?thesis using deps unfolding registry_calls_def by blast
  qed
  then show ?thesis by auto
qed

section \<open>Registering rules\<close>

definition wf_registry :: "rule_registry \<Rightarrow> bool" where
  "wf_registry registry \<longleftrightarrow> hm_wf registry \<and> [] \<notin> snd ` set registry"

lemma update_same: "hm_get m k = Some v \<Longrightarrow> hm_insert k v m = m"
  by (induction m) (auto split: if_splits)

lemma update_update: "hm_insert k w (hm_insert k v m) = hm_insert k w m"
  by (induction m) auto

lemma delete_update_new: "hm_get m k = None \<Longrightarrow> AList.delete k (hm_insert k v m) = m"
  by (induction m) (auto simp: AList.delete_eq split: if_splits)

lemma register_rollback:
  assumes "wf_registry registry"
  shows "let registry1 = register_rule_unchecked p r registry in
    \<exists>rs. hm_get registry1 p = Some rs \<and>
      (if butlast rs = [] then AList.delete p registry1 else hm_insert p (butlast rs) registry1) = registry"
proof (cases "hm_get registry p")
  case None
  then show ?thesis by (simp add: register_rule_unchecked_def hm_modify_or_insert_def delete_update_new)
next
  case (Some rs)
  then have "rs \<noteq> []" using assms by (force simp: wf_registry_def dest: map_of_SomeD)
  then show ?thesis using Some by (simp add: register_rule_unchecked_def hm_modify_or_insert_def update_update update_same)
qed

lemma register_unchecked_wf:
  assumes "wf_registry registry"
  shows "wf_registry (register_rule_unchecked p r registry)"
proof -
  have wf: "hm_wf (register_rule_unchecked p r registry)" using assms by (simp add: wf_registry_def register_rule_unchecked_def)
  moreover have "[] \<notin> snd ` set (register_rule_unchecked p r registry)"
    unfolding hm_values [OF wf] using assms hm_values [of registry "[]"]
    by (auto simp: register_rule_unchecked_def wf_registry_def split: option.splits)
  ultimately show ?thesis by (simp add: wf_registry_def)
qed

text \<open>C5: the stratification test is exact and computes the least stratification.  Whatever the order in
  which the edges are visited, it fails exactly when some predicate depends on itself through a negative
  edge; otherwise every positive edge stays within or below its head's stratum, every negative edge leads to a
  strictly lower one, and no stratification assigns a smaller number to any predicate.\<close>

theorem stratify_correct:
  assumes "length (all_predicates edges) \<le> usize_MAX"
  shows "case stratify edges of
      Inr s \<Rightarrow> \<not> neg_cycle (set (flat_edges edges)) \<and> is_strata (flat_edges edges) (stratum s) \<and>
        (\<forall>f p. is_strata (flat_edges edges) f \<longrightarrow> stratum s p \<le> f p)
    | Inl e \<Rightarrow> neg_cycle (set (flat_edges edges))"
proof (cases "stratify edges")
  case (Inr s)
  then show ?thesis
    using stratify_Inr [OF Inr assms] strata_no_neg_cycle [of "flat_edges edges" "stratum s"] by simp
qed (simp add: stratify_Inl)

theorem stratify_correct_witness:
  "let edges = [(''eligible'', [(''rejected'', True), (''known'', False)]), (''known'', [])] in
   \<exists>s. stratify edges = Inr s \<and> stratum s ''eligible'' = 1 \<and> stratum s ''rejected'' = 0 \<and>
     \<not> neg_cycle (set (flat_edges edges)) \<and> is_strata (flat_edges edges) (stratum s)"
proof -
  let ?edges = "[(''eligible'', [(''rejected'', True), (''known'', False)]), (''known'', [])] :: edge_map"
  let ?s = "[(''eligible'', 1), (''rejected'', 0), (''known'', 0)] :: strata"
  have "stratify ?edges = Inr ?s"
    by (simp add: stratify_def all_predicates_def flat_edges_def strat_loop.simps relax_def stratum_def Let_def sat_add_def usize_MAX_def)
  moreover have "length (all_predicates ?edges) \<le> usize_MAX" by (simp add: all_predicates_def usize_MAX_def)
  note stratify_correct [OF this]
  ultimately show ?thesis unfolding Let_def by (intro exI [of _ ?s]) (simp add: stratum_def)
qed

text \<open>C13: registering a rule keeps the registry stratified or leaves it alone.  A rule is accepted exactly
  when the extended registry has no recursion through negation, at any depth of its clauses; a rejected rule
  is rolled back completely, also when it was the first one of its predicate.\<close>

theorem register_rule_safe:
  assumes "wf_registry registry" and "flat_rules (register_rule_unchecked p r registry)"
    and "length (all_predicates (from_rules (register_rule_unchecked p r registry))) \<le> usize_MAX"
  shows "case register_rule p r registry of
      (registry', Inr _) \<Rightarrow> registry' = register_rule_unchecked p r registry \<and> wf_registry registry' \<and>
        get_rules registry' p = get_rules registry p @ [r] \<and> \<not> neg_cycle (registry_calls registry')
    | (registry', Inl e) \<Rightarrow> registry' = registry \<and> (\<exists>err. e = Rejected err) \<and>
        neg_cycle (registry_calls (register_rule_unchecked p r registry))"
proof -
  let ?r = "register_rule_unchecked p r registry"
  have calls: "set (flat_edges (from_rules ?r)) = registry_calls ?r" by (rule from_rules_calls) (rule assms(2))
  show ?thesis
  proof (cases "stratify (from_rules ?r)")
    case (Inl e)
    then have "neg_cycle (registry_calls ?r)" using stratify_Inl [OF Inl] calls by simp
    moreover obtain rs where "hm_get ?r p = Some rs"
        "(if butlast rs = [] then AList.delete p ?r else hm_insert p (butlast rs) ?r) = registry"
      using register_rollback [OF assms(1), of p r] unfolding Let_def by blast
    ultimately show ?thesis using Inl by (simp add: register_rule_def Let_def)
  next
    case (Inr s)
    then have "\<not> neg_cycle (registry_calls ?r)" using stratify_Inr(1) [OF Inr assms(3)] strata_no_neg_cycle calls by metis
    moreover have "get_rules ?r p = get_rules registry p @ [r]"
      by (simp add: get_rules_def register_rule_unchecked_def split: option.splits)
    ultimately show ?thesis using Inr register_unchecked_wf [OF assms(1)] by (simp add: register_rule_def Let_def)
  qed
qed

theorem register_rule_safe_witness:
  "let r = \<lparr> r_head = [ESymbol ''p'', ESymbol ''?x''], r_body = [WNot [WRule ''p'' [ESymbol ''?x'']]] \<rparr> in
   \<exists>e. register_rule ''p'' r registry_new = (registry_new, Inl (Rejected e)) \<and>
     neg_cycle (registry_calls (register_rule_unchecked ''p'' r registry_new))"
proof -
  let ?r = "\<lparr> r_head = [ESymbol ''p'', ESymbol ''?x''], r_body = [WNot [WRule ''p'' [ESymbol ''?x'']]] \<rparr>"
  have reg: "register_rule_unchecked ''p'' ?r registry_new = [(''p'', [?r])]"
    by (simp add: register_rule_unchecked_def hm_modify_or_insert_def registry_new_def)
  have g: "from_rules [(''p'', [?r])] = [(''p'', [(''p'', True)])]"
    by (simp add: from_rules_def hm_modify_or_insert_def rule_deps_def List.map_filter_simps)
  have "stratify [(''p'', [(''p'', True)])] = Inl (Unstratifiable ''p'' ''p'')"
    by (simp add: stratify_def all_predicates_def flat_edges_def strat_loop.simps relax_def stratum_def Let_def sat_add_def usize_MAX_def)
  then have run: "register_rule ''p'' ?r registry_new = (registry_new, Inl (Rejected (Unstratifiable ''p'' ''p'')))"
    unfolding register_rule_def Let_def reg g by (simp add: registry_new_def AList.delete_eq)
  have "wf_registry registry_new" by (simp add: wf_registry_def registry_new_def)
  moreover have "flat_rules (register_rule_unchecked ''p'' ?r registry_new)" by (simp add: reg flat_rules_def)
  moreover have "length (all_predicates (from_rules (register_rule_unchecked ''p'' ?r registry_new))) \<le> usize_MAX"
    by (simp add: reg g all_predicates_def usize_MAX_def)
  ultimately have "neg_cycle (registry_calls (register_rule_unchecked ''p'' ?r registry_new))"
    using register_rule_safe [of registry_new "''p''" ?r] by (simp add: run)
  then show ?thesis unfolding Let_def using run by blast
qed

section \<open>The number of passes\<close>

text \<open>The loop with a bound on the number of its passes.\<close>

fun strat_passes :: "nat \<Rightarrow> nat \<Rightarrow> (string \<times> string \<times> bool) list \<Rightarrow> strata \<Rightarrow> (strat_error + strata) option" where
  "strat_passes 0 n es s = None"
| "strat_passes (Suc k) n es s =
     (case relax_all n es (s, False) of
        Inl e \<Rightarrow> Some (Inl e)
      | Inr (s', changed) \<Rightarrow> if changed then strat_passes k n es s' else Some (Inr s'))"

lemma strat_passes_enough: "strat_room n es s < k \<Longrightarrow> strat_passes k n es s = Some (strat_loop n es s)"
proof (induction k arbitrary: s)
  case (Suc k)
  show ?case
  proof (cases "relax_all n es (s, False)")
    case (Inr sc)
    obtain s1 b1 where sc: "sc = (s1, b1)" by (cases sc)
    show ?thesis
    proof (cases b1)
      case True
      then have "strat_room n es s1 < k" using strat_room_decreases [of n es s s1] Inr sc Suc.prems by simp
      then show ?thesis using Suc.IH Inr sc True by (simp add: strat_loop.simps [of n es s])
    qed (simp add: Inr sc strat_loop.simps [of n es s])
  qed (simp add: strat_loop.simps [of n es s])
qed simp

text \<open>C33: the propagation ends after a number of passes that is at most quadratic in the number of
  predicates.\<close>

theorem stratify_pass_bound:
  "let n = length (all_predicates edges) in
   strat_passes (Suc (n * n)) n (flat_edges edges) (map (\<lambda>p. (p, 0)) (all_predicates edges)) = Some (stratify edges)"
proof -
  let ?n = "length (all_predicates edges)" and ?es = "flat_edges edges"
  have "fst ` set ?es \<subseteq> set (all_predicates edges)" using flat_edges_predicates by fastforce
  then have "card (fst ` set ?es) \<le> card (set (all_predicates edges))" by (rule card_mono [rotated]) simp
  then have "card (fst ` set ?es) \<le> ?n" by (rule le_trans) (rule card_length)
  then have "strat_room ?n ?es (map (\<lambda>p. (p, 0)) (all_predicates edges)) \<le> ?n * ?n" by (simp add: strat_room_def)
  then show ?thesis using strat_passes_enough [of ?n ?es _ "Suc (?n * ?n)"] by (simp add: Let_def stratify_def)
qed

end
