(* ===== verification/Float64.thy ===== *)
theory Float64
  imports Graph_Types "HOL-Library.Log_Nat"
begin

text \<open>
  The arithmetic of Rust's \<open>f64\<close> that the query engine uses: IEEE-754 binary64 with rounding to nearest,
  ties to even.  A finite double is a sign and a whole number of units \<open>2 ^ -1074\<close>, so every operation
  is exact arithmetic on integers followed by one rounding.  A quiet NaN stands for every NaN result,
  whose payload Rust leaves open.
\<close>

section \<open>Magnitudes\<close>

text \<open>The value of a magnitude (exponent and fraction bits) in units of \<open>2 ^ -1074\<close>.  The magnitude of
  infinity gets the value at which rounding overflows.\<close>

definition mag_units :: "nat \<Rightarrow> nat" where
  "mag_units m = (let e = m div 2 ^ 52; f = m mod 2 ^ 52 in if e = 0 then f else (2 ^ 52 + f) * 2 ^ (e - 1))"

text \<open>The number of units in 1.\<close>

definition one_units :: nat where
  "one_units = 2 ^ 1074"

lemma one_units_pos [simp]: "0 < one_units" "one_units \<noteq> 0"
  by (simp_all add: one_units_def)

definition f64_units :: "f64 \<Rightarrow> int" where
  "f64_units f = (if f64_sign_negative f then - int (mag_units (f64_magnitude f)) else int (mag_units (f64_magnitude f)))"

definition mag_inf :: nat where
  "mag_inf = 0x7FF0000000000000"

definition f64_is_inf :: "f64 \<Rightarrow> bool" where
  "f64_is_inf f \<longleftrightarrow> f64_magnitude f = mag_inf"

definition f64_of_mag :: "bool \<Rightarrow> nat \<Rightarrow> f64" where
  "f64_of_mag neg m = F64 (of_nat (min m mag_inf + (if neg then 2 ^ 63 else 0)))"

definition half_even :: "nat \<Rightarrow> nat \<Rightarrow> nat" where
  "half_even x y =
     (let q = x div y; r = x mod y in if 2 * r < y \<or> 2 * r = y \<and> even q then q else q + 1)"

text \<open>The magnitude nearest to \<open>x / y\<close> units: 53 significant bits, fewer below the normal range.\<close>

definition round_mag :: "nat \<Rightarrow> nat \<Rightarrow> nat" where
  "round_mag x y = (let s = floorlog 2 (x div y) - 53 in half_even x (y * 2 ^ s) + s * 2 ^ 52)"

section \<open>Operations\<close>

definition f64_add :: "f64 \<Rightarrow> f64 \<Rightarrow> f64" where
  "f64_add a b =
     (if f64_is_nan a \<or> f64_is_nan b then f64_nan
      else if f64_is_inf a then (if f64_is_inf b \<and> f64_sign_negative a \<noteq> f64_sign_negative b then f64_nan else a)
      else if f64_is_inf b then b
      else let u = f64_units a + f64_units b in
        if u = 0 then (if f64_sign_negative a \<and> f64_sign_negative b then f64_neg_zero else f64_zero)
        else f64_of_mag (u < 0) (round_mag (nat \<bar>u\<bar>) 1))"

definition f64_sub :: "f64 \<Rightarrow> f64 \<Rightarrow> f64" where
  "f64_sub a b = f64_add a (f64_neg b)"

definition f64_mul :: "f64 \<Rightarrow> f64 \<Rightarrow> f64" where
  "f64_mul a b =
     (let neg = (f64_sign_negative a \<noteq> f64_sign_negative b) in
      if f64_is_nan a \<or> f64_is_nan b then f64_nan
      else if f64_is_inf a \<or> f64_is_inf b then
        (if f64_magnitude a = 0 \<or> f64_magnitude b = 0 then f64_nan else f64_of_mag neg mag_inf)
      else f64_of_mag neg (round_mag (mag_units (f64_magnitude a) * mag_units (f64_magnitude b)) (one_units)))"

definition f64_div :: "f64 \<Rightarrow> f64 \<Rightarrow> f64" where
  "f64_div a b =
     (let neg = (f64_sign_negative a \<noteq> f64_sign_negative b) in
      if f64_is_nan a \<or> f64_is_nan b then f64_nan
      else if f64_is_inf a then (if f64_is_inf b then f64_nan else f64_of_mag neg mag_inf)
      else if f64_is_inf b then f64_of_mag neg 0
      else if f64_magnitude b = 0 then (if f64_magnitude a = 0 then f64_nan else f64_of_mag neg mag_inf)
      else f64_of_mag neg (round_mag (mag_units (f64_magnitude a) * one_units) (mag_units (f64_magnitude b))))"

definition f64_lt :: "f64 \<Rightarrow> f64 \<Rightarrow> bool" where
  "f64_lt a b \<longleftrightarrow> f64_partial_cmp a b = Some Less"

definition f64_le :: "f64 \<Rightarrow> f64 \<Rightarrow> bool" where
  "f64_le a b \<longleftrightarrow> f64_lt a b \<or> f64_eq a b"

text \<open>\<open>i as f64\<close> rounds to nearest; \<open>f as i64\<close> truncates and saturates, and sends NaN to zero.\<close>

definition i64_as_f64 :: "i64 \<Rightarrow> f64" where
  "i64_as_f64 i = f64_of_mag (i64_int i < 0) (round_mag (nat \<bar>i64_int i\<bar> * one_units) 1)"

definition f64_as_i64 :: "f64 \<Rightarrow> i64" where
  "f64_as_i64 f =
     (if f64_is_nan f then I64 0
      else let t = int (mag_units (f64_magnitude f) div one_units) in
        if f64_sign_negative f then (if 2 ^ 63 \<le> t then i64_MIN else i64_of_int (- t))
        else (if 2 ^ 63 \<le> t then i64_MAX else i64_of_int t))"

text \<open>\<open>(a - b).abs() < f64::EPSILON\<close>, where \<open>EPSILON\<close> is \<open>2 ^ -52\<close>.\<close>

definition f64_abs :: "f64 \<Rightarrow> f64" where
  "f64_abs f = (if f64_sign_negative f then f64_neg f else f)"

definition f64_EPSILON :: f64 where
  "f64_EPSILON = F64 0x3CB0000000000000"

definition f64_near :: "f64 \<Rightarrow> f64 \<Rightarrow> bool" where
  "f64_near a b \<longleftrightarrow> f64_lt (f64_abs (f64_sub a b)) f64_EPSILON"

section \<open>Rounding is monotone and exact on representable numbers\<close>

lemma half_even_bounds: "0 < y \<Longrightarrow> x div y \<le> half_even x y \<and> half_even x y \<le> Suc (x div y)"
  by (auto simp: half_even_def Let_def)

lemma half_even_mono:
  assumes "x \<le> x'" and "0 < y"
  shows "half_even x y \<le> half_even x' y"
proof (cases "x div y = x' div y")
  case True
  then have "x mod y \<le> x' mod y" using assms(1) by (metis add_le_cancel_left div_mult_mod_eq)
  then show ?thesis using True by (auto simp: half_even_def Let_def)
next
  case False
  then have "x div y < x' div y" using assms by (simp add: div_le_mono le_neq_implies_less)
  then show ?thesis using half_even_bounds [OF assms(2), of x] half_even_bounds [OF assms(2), of x'] by simp
qed

lemma half_even_exact [simp]: "0 < y \<Longrightarrow> half_even (k * y) y = k"
  by (simp add: half_even_def)

lemma half_even_bits:
  assumes "x < 2 ^ (53 + s)"
  shows "half_even x (2 ^ s) \<le> 2 ^ 53"
proof -
  have "x div 2 ^ s < 2 ^ 53" using assms by (simp add: less_mult_imp_div_less power_add)
  then show ?thesis using half_even_bounds [of "2 ^ s" x] by simp
qed

lemma round_mag_1: "round_mag x 1 = half_even x (2 ^ (floorlog 2 x - 53)) + (floorlog 2 x - 53) * 2 ^ 52"
  by (simp add: round_mag_def Let_def)

lemma round_mag_upper: "round_mag x 1 \<le> 2 ^ 53 + (floorlog 2 x - 53) * 2 ^ 52"
proof -
  have "x < 2 ^ floorlog 2 x" using floorlog_bounds [of x 2] by (cases "x = 0") simp_all
  also have "\<dots> \<le> (2 :: nat) ^ (53 + (floorlog 2 x - 53))" by (rule power_increasing) auto
  finally have "half_even x (2 ^ (floorlog 2 x - 53)) \<le> 2 ^ 53" by (rule half_even_bits)
  then show ?thesis unfolding round_mag_1 by (rule add_right_mono)
qed

lemma round_mag_lower:
  assumes "53 < floorlog 2 x"
  shows "2 ^ 52 + (floorlog 2 x - 53) * 2 ^ 52 \<le> round_mag x 1"
proof -
  obtain s where s: "floorlog 2 x = 53 + s" using assms by (metis less_imp_add_positive)
  have "0 < x" using assms by (cases "x = 0") (simp_all add: floorlog_def)
  then have "2 ^ (floorlog 2 x - 1) \<le> x" using floorlog_bounds [of x 2] by simp
  then have "2 ^ 52 * 2 ^ s \<le> x" unfolding s by (simp add: power_add)
  then have "2 ^ 52 \<le> x div 2 ^ s" by (subst less_eq_div_iff_mult_less_eq) simp_all
  then have "2 ^ 52 \<le> half_even x (2 ^ s)" using half_even_bounds [of "2 ^ s" x] by (simp del: power_numeral)
  then show ?thesis unfolding round_mag_1 s by simp
qed

lemma round_mag_mono:
  assumes "x \<le> x'"
  shows "round_mag x 1 \<le> round_mag x' 1"
proof -
  let ?s = "floorlog 2 x - 53" and ?s' = "floorlog 2 x' - 53"
  have s: "?s \<le> ?s'" using floorlog_mono [OF assms, of 2] by simp
  show ?thesis
  proof (cases "?s = ?s'")
    case True
    then show ?thesis unfolding round_mag_1 using half_even_mono [OF assms, of "2 ^ ?s"] by simp
  next
    case False
    then have lt: "?s < ?s'" using s by simp
    have "(2 :: nat) ^ 53 + ?s * 2 ^ 52 = 2 ^ 52 + Suc ?s * 2 ^ 52" by simp
    also have "\<dots> \<le> 2 ^ 52 + ?s' * 2 ^ 52" using lt by (intro add_left_mono mult_right_mono) simp_all
    finally have "(2 :: nat) ^ 53 + ?s * 2 ^ 52 \<le> 2 ^ 52 + ?s' * 2 ^ 52" .
    moreover have "53 < floorlog 2 x'" using lt by simp
    ultimately show ?thesis using round_mag_upper [of x] round_mag_lower [of x'] by linarith
  qed
qed

lemma mag_units_small: "m < 2 ^ 53 \<Longrightarrow> mag_units m = m"
proof -
  assume "m < 2 ^ 53"
  then have "m div 2 ^ 52 < 2" by (simp add: less_mult_imp_div_less)
  then consider "m div 2 ^ 52 = 0" | "m div 2 ^ 52 = 1" by linarith
  then show ?thesis
  proof cases
    case 1
    then show ?thesis by (simp add: mag_units_def Let_def div_eq_0_iff)
  next
    case 2
    then show ?thesis using div_mult_mod_eq [of m "2 ^ 52"] by (simp add: mag_units_def Let_def)
  qed
qed

lemma round_mag_exact: "round_mag (mag_units m) 1 = m"
proof (cases "m div 2 ^ 52 = 0")
  case True
  then have m: "m < 2 ^ 52" by (simp add: div_eq_0_iff)
  then have "floorlog 2 m \<le> 53" by (intro floorlog_leI) auto
  then show ?thesis using m half_even_exact [of 1 m] by (simp add: round_mag_def mag_units_small)
next
  case False
  let ?e = "m div 2 ^ 52" and ?f = "m mod 2 ^ 52"
  have units: "mag_units m = (2 ^ 52 + ?f) * 2 ^ (?e - 1)" using False by (simp add: mag_units_def Let_def)
  have "(2 :: nat) ^ 52 * 2 ^ (?e - 1) \<le> mag_units m" unfolding units by simp
  then have lo: "(2 :: nat) ^ (52 + (?e - 1)) \<le> mag_units m" by (simp add: power_add)
  have "2 ^ 52 + ?f < 2 ^ 53" using mod_less_divisor [of "2 ^ 52" m] by simp
  then have hi: "mag_units m < 2 ^ (53 + (?e - 1))" unfolding units power_add by simp
  have "floorlog 2 (mag_units m) = 53 + (?e - 1)"
    using floorlog_geI [of 2 "53 + (?e - 1)" "mag_units m"] floorlog_leI [of "mag_units m" 2 "53 + (?e - 1)"] lo hi
    by (simp add: add.commute)
  then have "round_mag (mag_units m) 1 = 2 ^ 52 + ?f + (?e - 1) * 2 ^ 52"
    unfolding round_mag_def Let_def units by (simp add: half_even_exact)
  also have "\<dots> = ?e * 2 ^ 52 + ?f" using False by (cases ?e) simp_all
  finally show ?thesis by (simp add: div_mult_mod_eq)
qed

section \<open>Converting integers\<close>

lemma unat_f64_of_mag: "unat (to_bits (f64_of_mag neg m)) = min m mag_inf + (if neg then 2 ^ 63 else 0)"
proof -
  have "min m mag_inf < 2 ^ 63" by (simp add: mag_inf_def min_less_iff_disj)
  then have "min m mag_inf + (if neg then 2 ^ 63 else 0) < 2 ^ LENGTH(64)" by simp
  then show ?thesis unfolding f64_of_mag_def f64.sel by (rule unat_of_nat_eq)
qed

lemma f64_of_mag_sign [simp]: "f64_sign_negative (f64_of_mag neg m) = neg"
proof -
  have "min m mag_inf < 2 ^ 63" by (simp add: mag_inf_def min_less_iff_disj)
  then show ?thesis by (simp add: f64_sign_negative_def unat_f64_of_mag mag_inf_def)
qed

lemma f64_of_mag_magnitude [simp]: "f64_magnitude (f64_of_mag neg m) = min m mag_inf"
proof -
  have "min m mag_inf < 2 ^ 63" by (simp add: mag_inf_def min_less_iff_disj)
  then show ?thesis by (simp add: f64_magnitude_def unat_f64_of_mag)
qed

lemma f64_of_mag_key: "f64_key (f64_of_mag neg m) = (if neg then - int (min m mag_inf) else int (min m mag_inf))"
  by (simp add: f64_key_def)

lemma f64_of_mag_nan [simp]: "\<not> f64_is_nan (f64_of_mag neg m)"
  by (simp add: f64_is_nan_def mag_inf_def)

lemma i64_as_f64_key:
  "f64_key (i64_as_f64 i) = (if i64_int i < 0 then - 1 else 1) * int (min (round_mag (nat \<bar>i64_int i\<bar> * one_units) 1) mag_inf)"
  by (simp add: i64_as_f64_def f64_of_mag_key)

lemma i64_as_f64_nan [simp]: "\<not> f64_is_nan (i64_as_f64 i)"
  by (simp add: i64_as_f64_def)

lemma i64_as_f64_mono:
  assumes "i64_int a \<le> i64_int b"
  shows "f64_key (i64_as_f64 a) \<le> f64_key (i64_as_f64 b)"
proof -
  let ?m = "\<lambda>i. min (round_mag (nat \<bar>i64_int i\<bar> * one_units) 1) mag_inf"
  have mono: "?m x \<le> ?m y" if "\<bar>i64_int x\<bar> \<le> \<bar>i64_int y\<bar>" for x y
    using that by (intro min.mono round_mag_mono mult_right_mono) (simp_all add: nat_mono)
  show ?thesis
    using assms mono [of a b] mono [of b a] unfolding i64_as_f64_key
    by (cases "i64_int a < 0"; cases "i64_int b < 0") auto
qed

text \<open>Within \<open>2 ^ 53\<close> the conversion loses nothing.\<close>

lemma round_mag_inj:
  assumes "round_mag (mag_units m) 1 = round_mag (mag_units m') 1"
  shows "m = m'"
  using assms by (simp only: round_mag_exact)

lemma scaled_units:
  assumes "0 < k" and "k \<le> 2 ^ 53"
  shows "\<exists>m < mag_inf. mag_units m = k * one_units"
proof -
  let ?n = "floorlog 2 k"
  have b: "2 ^ (?n - 1) \<le> k" "k < 2 ^ ?n" "0 < ?n" using floorlog_bounds [of k 2] assms(1) by (simp_all add: floorlog_def)
  have n: "?n \<le> 54" using assms(2) by (intro floorlog_leI) auto
  obtain f where f: "k * 2 ^ (54 - ?n) = 2 * (2 ^ 52 + f)" "f < 2 ^ 52"
  proof -
    have "(2 :: nat) ^ 53 = 2 ^ (?n - 1) * 2 ^ (54 - ?n)" using b(3) n by (simp flip: power_add)
    moreover have "2 ^ (?n - 1) * 2 ^ (54 - ?n) \<le> k * 2 ^ (54 - ?n)" using b(1) by (rule mult_le_mono1)
    ultimately have lo: "2 ^ 53 \<le> k * 2 ^ (54 - ?n)" by (simp only:)
    have hi: "k * 2 ^ (54 - ?n) < 2 ^ 54" using b(2) n by (metis le_add_diff_inverse mult_less_mono1 pos2 power_add zero_less_power)
    have "even (k * 2 ^ (54 - ?n))"
    proof (cases "?n = 54")
      case True
      then have "2 ^ 53 \<le> k" using b(1) by simp
      then have "k = 2 ^ 53" using assms(2) by simp
      then show ?thesis by simp
    next
      case False
      then show ?thesis using n by simp
    qed
    then obtain j where j: "k * 2 ^ (54 - ?n) = 2 * j" by (rule evenE)
    then have "2 ^ 52 \<le> j" "j < 2 ^ 53" using lo hi by simp_all
    then show ?thesis using j that [of "j - 2 ^ 52"] by simp
  qed
  let ?m = "(1022 + ?n) * 2 ^ 52 + f"
  have split: "(d * 2 ^ 52 + f) div 2 ^ 52 = d" "(d * 2 ^ 52 + f) mod 2 ^ 52 = f" for d
    using f(2) by (simp_all del: power_numeral)
  have "mag_units ?m = (2 ^ 52 + f) * 2 ^ (1021 + ?n)" unfolding mag_units_def Let_def split by simp
  also have "\<dots> = k * 2 ^ (54 - ?n) * 2 ^ (1020 + ?n)" unfolding f(1) by (simp add: power_add)
  also have "\<dots> = k * one_units" using n by (simp flip: power_add add: mult.assoc one_units_def)
  finally have "mag_units ?m = k * one_units" .
  moreover have "?m < mag_inf" using f(2) n by (simp add: mag_inf_def)
  ultimately show ?thesis by blast
qed

lemma scaled_round:
  assumes "k \<le> 2 ^ 53"
  shows "mag_units (round_mag (k * one_units) 1) = k * one_units \<and> round_mag (k * one_units) 1 < mag_inf"
proof (cases "k = 0")
  case True
  have "half_even 0 1 = 0" by (simp add: half_even_def)
  then show ?thesis using True by (simp add: round_mag_def floorlog_def mag_units_def mag_inf_def)
next
  case False
  then obtain m where m: "m < mag_inf" "mag_units m = k * one_units" using scaled_units [of k] assms by auto
  show ?thesis unfolding m(2) [symmetric] round_mag_exact using m(1) by simp
qed

lemma i64_as_f64_inj:
  assumes "\<bar>i64_int a\<bar> \<le> 2 ^ 53" and "\<bar>i64_int b\<bar> \<le> 2 ^ 53" and "f64_key (i64_as_f64 a) = f64_key (i64_as_f64 b)"
  shows "i64_int a = i64_int b"
proof -
  let ?k = "\<lambda>i. nat \<bar>i64_int i\<bar>" and ?m = "\<lambda>i. round_mag (nat \<bar>i64_int i\<bar> * one_units) 1"
  have small: "mag_units (?m i) = ?k i * one_units \<and> ?m i < mag_inf" if "\<bar>i64_int i\<bar> \<le> 2 ^ 53" for i
    using that by (intro scaled_round) (simp add: nat_le_iff)
  have inf: "?m a < mag_inf" "?m b < mag_inf" using small assms(1,2) by blast+
  have zero: "i64_int i = 0" if "\<bar>i64_int i\<bar> \<le> 2 ^ 53" "?m i = 0" for i
    using small [OF that(1)] that(2) by (simp add: mag_units_def one_units_def)
  have key: "f64_key (i64_as_f64 i) = (if i64_int i < 0 then - 1 else 1) * int (?m i)" if "?m i < mag_inf" for i
    using that unfolding i64_as_f64_key by (simp add: min_def)
  have "?m a = ?m b" using assms(3) unfolding key [OF inf(1)] key [OF inf(2)] by (auto split: if_splits)
  then have k: "?k a = ?k b" using small [OF assms(1)] small [OF assms(2)] by simp
  have sign: "(i64_int a < 0) = (i64_int b < 0) \<or> ?m a = 0"
    using assms(3) \<open>?m a = ?m b\<close> unfolding key [OF inf(1)] key [OF inf(2)] by (auto split: if_splits)
  moreover have "i64_int a = 0" if "?m a = 0" using zero [OF assms(1) that] .
  moreover have "\<bar>i64_int a\<bar> = \<bar>i64_int b\<bar>" using k by (metis abs_ge_zero nat_0_le)
  ultimately show ?thesis by linarith
qed

text \<open>Comparing integers through doubles never inverts them, and is exact up to \<open>2 ^ 53\<close>.\<close>

lemma f64_lt_iff: "f64_lt a b \<longleftrightarrow> \<not> f64_is_nan a \<and> \<not> f64_is_nan b \<and> f64_key a < f64_key b"
  by (auto simp: f64_lt_def f64_partial_cmp_def)

lemma f64_le_iff: "f64_le a b \<longleftrightarrow> \<not> f64_is_nan a \<and> \<not> f64_is_nan b \<and> f64_key a \<le> f64_key b"
  by (auto simp: f64_le_def f64_lt_iff f64_eq_iff)

lemma i64_lt_sound: "f64_lt (i64_as_f64 a) (i64_as_f64 b) \<Longrightarrow> a < b"
  using i64_as_f64_mono [of b a] by (force simp: f64_lt_iff less_i64_def)

lemma i64_le_complete: "a \<le> b \<Longrightarrow> f64_le (i64_as_f64 a) (i64_as_f64 b)"
  using i64_as_f64_mono [of a b] by (simp add: f64_le_iff less_eq_i64_def)

lemma i64_lt_exact:
  assumes "\<bar>i64_int a\<bar> \<le> 2 ^ 53" and "\<bar>i64_int b\<bar> \<le> 2 ^ 53"
  shows "f64_lt (i64_as_f64 a) (i64_as_f64 b) \<longleftrightarrow> a < b"
  using i64_lt_sound [of a b] i64_as_f64_mono [of a b] i64_as_f64_inj [OF assms]
  by (auto simp: f64_lt_iff less_i64_def order.strict_iff_order)

lemma i64_le_exact:
  assumes "\<bar>i64_int a\<bar> \<le> 2 ^ 53" and "\<bar>i64_int b\<bar> \<le> 2 ^ 53"
  shows "f64_le (i64_as_f64 a) (i64_as_f64 b) \<longleftrightarrow> a \<le> b"
  using i64_lt_exact [OF assms(2,1)] by (auto simp: f64_le_iff f64_lt_iff)

text \<open>The first integer that is not a double falls between two of them and goes to the even one.\<close>

lemma half_even_scale:
  assumes "0 < c"
  shows "half_even (x * c) (y * c) = half_even x y"
proof -
  have d: "x * c div (y * c) = x div y" using assms by simp
  have m: "x * c mod (y * c) = x mod y * c" by (simp add: mult_mod_left)
  have "2 * (x mod y * c) < y * c \<longleftrightarrow> 2 * (x mod y) < y" "2 * (x mod y * c) = y * c \<longleftrightarrow> 2 * (x mod y) = y"
    using assms by (simp_all flip: mult.assoc)
  then show ?thesis unfolding half_even_def Let_def d m by simp
qed

lemma floorlog_scale:
  assumes "2 ^ n \<le> x" and "x < 2 ^ Suc n"
  shows "floorlog 2 (x * 2 ^ k) = Suc n + k"
proof (rule antisym)
  have "x * 2 ^ k < 2 ^ Suc n * 2 ^ k" using assms(2) by (rule mult_strict_right_mono) simp
  then show "floorlog 2 (x * 2 ^ k) \<le> Suc n + k" by (intro floorlog_leI) (simp_all add: power_add)
  have "2 ^ n * 2 ^ k \<le> x * 2 ^ k" using assms(1) by (rule mult_right_mono) simp
  then show "Suc n + k \<le> floorlog 2 (x * 2 ^ k)" by (intro floorlog_geI) (simp_all add: power_add)
qed

lemma round_mag_scaled:
  assumes "2 ^ n \<le> x" and "x < 2 ^ Suc n" and "52 \<le> n"
  shows "round_mag (x * 2 ^ k) 1 = half_even x (2 ^ (n - 52)) + (n - 52 + k) * 2 ^ 52"
proof -
  have e: "floorlog 2 (x * 2 ^ k) - 53 = (n - 52) + k" using floorlog_scale [OF assms(1,2), of k] assms(3) by simp
  show ?thesis unfolding round_mag_1 e power_add by (subst half_even_scale) simp_all
qed

lemma round_2_53: "round_mag ((2 ^ 53 + 1) * one_units) 1 = round_mag (2 ^ 53 * one_units) 1"
proof -
  have "round_mag ((2 ^ 53 + 1) * one_units) 1 = half_even (2 ^ 53 + 1) (2 ^ (53 - 52)) + (53 - 52 + 1074) * 2 ^ 52"
    unfolding one_units_def by (rule round_mag_scaled) simp_all
  moreover have "round_mag (2 ^ 53 * one_units) 1 = half_even (2 ^ 53) (2 ^ (53 - 52)) + (53 - 52 + 1074) * 2 ^ 52"
    unfolding one_units_def by (rule round_mag_scaled) simp_all
  moreover have "half_even (2 ^ 53 + 1) (2 ^ (53 - 52)) = half_even (2 ^ 53) (2 ^ (53 - 52))"
    by (simp add: half_even_def)
  ultimately show ?thesis by (simp only:)
qed

end
