(* ===== verification/Functions.thy ===== *)
theory Functions
  imports Float64 Rust_Std
begin

text \<open>
  The function registry and the built-in aggregates (\<open>query/datalog/functions.rs\<close>).  The type-erased
  accumulator of a user-defined aggregate is a type parameter, and user closures are functions.
\<close>

section \<open>Descriptors and the registry\<close>

datatype agg_state = AggSum f64 bool | AggCount i64 | AggMinMax "value option" | AggAvg f64 nat

record window_ops =
  wo_init :: agg_state
  wo_step :: "agg_state \<Rightarrow> value \<Rightarrow> agg_state"
  wo_finalise :: "agg_state \<Rightarrow> value"

record 'u udf_ops =
  udf_init :: 'u
  udf_step :: "'u \<Rightarrow> value \<Rightarrow> 'u"
  udf_finalise :: "'u \<Rightarrow> nat \<Rightarrow> value"

datatype 'u agg_impl = Builtin window_ops | Udf "'u udf_ops"

record predicate_desc =
  pd_f :: "value \<Rightarrow> bool"
  pd_builtin :: bool

record 'u aggregate_desc =
  ad_impl :: "'u agg_impl"
  ad_builtin :: bool

record 'u function_registry =
  fr_aggregates :: "(string, 'u aggregate_desc) hash_map"
  fr_predicates :: "(string, predicate_desc) hash_map"

definition i64_saturating_add :: "i64 \<Rightarrow> i64 \<Rightarrow> i64" where
  "i64_saturating_add a b =
     (let s = i64_int a + i64_int b in
      if s < - (2 ^ 63) then i64_MIN else if 2 ^ 63 \<le> s then i64_MAX else i64_of_int s)"

definition usize_as_f64 :: "nat \<Rightarrow> f64" where
  "usize_as_f64 n = f64_of_mag False (round_mag (n * one_units) 1)"

text \<open>\<open>i64::try_from(len).unwrap_or(i64::MAX)\<close>\<close>

definition i64_of_usize :: "nat \<Rightarrow> i64" where
  "i64_of_usize n = (if n < 2 ^ 63 then i64_of_int (int n) else i64_MAX)"

fun value_lt :: "value \<Rightarrow> value \<Rightarrow> bool" where
  "value_lt (Integer x) (Integer y) = (x < y)"
| "value_lt (Float x) (Float y) = f64_lt x y"
| "value_lt (Integer x) (Float y) = f64_lt (i64_as_f64 x) y"
| "value_lt (Float x) (Integer y) = f64_lt x (i64_as_f64 y)"
| "value_lt (String x) (String y) = (x < y)"
| "value_lt _ _ = False"

definition partial_or_equal :: "f64 \<Rightarrow> f64 \<Rightarrow> ordering" where
  "partial_or_equal x y = get_or Equal (f64_partial_cmp x y)"

fun loose_cmp :: "value \<Rightarrow> value \<Rightarrow> ordering" where
  "loose_cmp (Integer x) (Integer y) = cmp x y"
| "loose_cmp (Float x) (Float y) = partial_or_equal x y"
| "loose_cmp (Integer x) (Float y) = partial_or_equal (i64_as_f64 x) y"
| "loose_cmp (Float x) (Integer y) = partial_or_equal x (i64_as_f64 y)"
| "loose_cmp (String x) (String y) = cmp x y"
| "loose_cmp _ _ = Equal"

fun value_type_name :: "value \<Rightarrow> string" where
  "value_type_name (String _) = ''String''"
| "value_type_name (Integer _) = ''Integer''"
| "value_type_name (Float _) = ''Float''"
| "value_type_name (Boolean _) = ''Boolean''"
| "value_type_name (Ref _) = ''Ref''"
| "value_type_name (Keyword _) = ''Keyword''"
| "value_type_name Null = ''Null''"

section \<open>Window aggregates\<close>

definition count_ops :: window_ops where
  "count_ops =
     \<lparr> wo_init = AggCount (I64 0),
       wo_step = (\<lambda>st v. if v = Null then st else (case st of AggCount n \<Rightarrow> AggCount (i64_saturating_add n (I64 1)) | _ \<Rightarrow> st)),
       wo_finalise = (\<lambda>st. case st of AggCount n \<Rightarrow> Integer n | _ \<Rightarrow> Null) \<rparr>"

definition sum_ops :: window_ops where
  "sum_ops =
     \<lparr> wo_init = AggSum f64_zero False,
       wo_step = (\<lambda>st v. case st of
           AggSum tot is_float \<Rightarrow>
             (case v of Integer i \<Rightarrow> AggSum (f64_add tot (i64_as_f64 i)) is_float
              | Float f \<Rightarrow> AggSum (f64_add tot f) True | _ \<Rightarrow> st)
         | _ \<Rightarrow> st),
       wo_finalise = (\<lambda>st. case st of
           AggSum tot is_float \<Rightarrow> if is_float then Float tot else Integer (f64_as_i64 tot)
         | _ \<Rightarrow> Null) \<rparr>"

definition min_max_ops :: "bool \<Rightarrow> window_ops" where
  "min_max_ops minimum =
     \<lparr> wo_init = AggMinMax None,
       wo_step = (\<lambda>st v. if v = Null then st else (case st of
           AggMinMax None \<Rightarrow> AggMinMax (Some v)
         | AggMinMax (Some c) \<Rightarrow> if (if minimum then value_lt v c else value_lt c v) then AggMinMax (Some v) else st
         | _ \<Rightarrow> st)),
       wo_finalise = (\<lambda>st. case st of AggMinMax c \<Rightarrow> get_or Null c | _ \<Rightarrow> Null) \<rparr>"

definition avg_ops :: window_ops where
  "avg_ops =
     \<lparr> wo_init = AggAvg f64_zero 0,
       wo_step = (\<lambda>st v. case st of
           AggAvg s n \<Rightarrow>
             (case v of Integer i \<Rightarrow> AggAvg (f64_add s (i64_as_f64 i)) (sat_add n 1)
              | Float f \<Rightarrow> AggAvg (f64_add s f) (sat_add n 1) | _ \<Rightarrow> st)
         | _ \<Rightarrow> st),
       wo_finalise = (\<lambda>st. case st of
           AggAvg s n \<Rightarrow> if n = 0 then Null else Float (f64_div s (usize_as_f64 n))
         | _ \<Rightarrow> Null) \<rparr>"

definition stub_ops :: window_ops where
  "stub_ops = \<lparr> wo_init = AggCount (I64 0), wo_step = (\<lambda>st _. st), wo_finalise = (\<lambda>_. Null) \<rparr>"

definition builtin_desc :: "window_ops \<Rightarrow> 'u aggregate_desc" where
  "builtin_desc ops = \<lparr> ad_impl = Builtin ops, ad_builtin = True \<rparr>"

definition with_builtins :: "'u function_registry" where
  "with_builtins =
     \<lparr> fr_aggregates =
         fold (\<lambda>(name, ops) m. hm_insert name (builtin_desc ops) m)
           [(''count'', count_ops), (''sum'', sum_ops), (''min'', min_max_ops True), (''max'', min_max_ops False),
            (''avg'', avg_ops), (''count-distinct'', stub_ops), (''sum-distinct'', stub_ops)] [],
       fr_predicates =
         fold (\<lambda>name m. hm_insert name \<lparr> pd_f = (\<lambda>_. False), pd_builtin = True \<rparr> m)
           [''string?'', ''integer?'', ''float?'', ''boolean?'', ''nil?'', ''starts-with?'', ''ends-with?'',
            ''contains?'', ''matches?''] [] \<rparr>"

definition get_aggregate :: "'u function_registry \<Rightarrow> string \<Rightarrow> 'u aggregate_desc option" where
  "get_aggregate reg name = hm_get (fr_aggregates reg) name"

definition is_known :: "'u function_registry \<Rightarrow> string \<Rightarrow> bool" where
  "is_known reg name \<longleftrightarrow> hm_get (fr_aggregates reg) name \<noteq> None"

definition is_window_compatible :: "'u function_registry \<Rightarrow> string \<Rightarrow> bool" where
  "is_window_compatible reg name \<longleftrightarrow>
     name \<noteq> ''count-distinct'' \<and> name \<noteq> ''sum-distinct'' \<and> hm_get (fr_aggregates reg) name \<noteq> None"

definition register_aggregate_desc ::
    "string \<Rightarrow> 'u aggregate_desc \<Rightarrow> 'u function_registry \<Rightarrow> string + 'u function_registry" where
  "register_aggregate_desc name desc reg =
     (if hm_get (fr_aggregates reg) name \<noteq> None then Inl name
      else Inr (reg\<lparr> fr_aggregates := hm_insert name desc (fr_aggregates reg) \<rparr>))"

definition register_predicate_desc ::
    "string \<Rightarrow> predicate_desc \<Rightarrow> 'u function_registry \<Rightarrow> string + 'u function_registry" where
  "register_predicate_desc name desc reg =
     (if hm_get (fr_predicates reg) name \<noteq> None then Inl name
      else Inr (reg\<lparr> fr_predicates := hm_insert name desc (fr_predicates reg) \<rparr>))"

definition get_predicate :: "'u function_registry \<Rightarrow> string \<Rightarrow> predicate_desc option" where
  "get_predicate reg name =
     (case hm_get (fr_predicates reg) name of
        Some d \<Rightarrow> if pd_builtin d then None else Some d
      | None \<Rightarrow> None)"

section \<open>Batch aggregates\<close>

text \<open>\<open>BTreeSet<Value>\<close>: sorted by \<open>Value\<close>'s order, keeping the first of equal values.\<close>

fun vset_insert :: "value \<Rightarrow> value list \<Rightarrow> value list" where
  "vset_insert v [] = [v]"
| "vset_insert v (w # ws) =
     (case value_cmp v w of Less \<Rightarrow> v # w # ws | Equal \<Rightarrow> w # ws | Greater \<Rightarrow> w # vset_insert v ws)"

definition vset_of :: "value list \<Rightarrow> value list" where
  "vset_of vs = fold vset_insert vs []"

datatype agg_error = SumType string | MinMaxEmpty | MinMaxMixed string string string | MinMaxType string string
  | UnknownAggregate string

fun sum_floats :: "value list \<Rightarrow> f64 \<Rightarrow> agg_error + f64" where
  "sum_floats [] s = Inr s"
| "sum_floats (v # vs) s =
     (case v of
        Float f \<Rightarrow> sum_floats vs (f64_add s f)
      | Integer i \<Rightarrow> sum_floats vs (f64_add s (i64_as_f64 i))
      | other \<Rightarrow> Inl (SumType (value_type_name other)))"

fun sum_ints :: "value list \<Rightarrow> i64 \<Rightarrow> agg_error + i64" where
  "sum_ints [] s = Inr s"
| "sum_ints (v # vs) s =
     (case v of
        Integer i \<Rightarrow> sum_ints vs (i64_saturating_add s i)
      | other \<Rightarrow> Inl (SumType (value_type_name other)))"

fun is_float_value :: "value \<Rightarrow> bool" where
  "is_float_value (Float _) = True"
| "is_float_value _ = False"

definition sum_values :: "value list \<Rightarrow> agg_error + value" where
  "sum_values vs =
     (if vs = [] then Inr (Integer (I64 0))
      else if list_ex is_float_value vs then res_bind (sum_floats vs f64_zero) (\<lambda>s. Inr (Float s))
      else res_bind (sum_ints vs (I64 0)) (\<lambda>s. Inr (Integer s)))"

definition min_max_step :: "string \<Rightarrow> value \<Rightarrow> value \<Rightarrow> agg_error + value" where
  "min_max_step name acc v =
     res_bind
       (case (acc, v) of
          (Integer a, Integer b) \<Rightarrow> Inr (cmp a b)
        | (Float a, Float b) \<Rightarrow> Inr (partial_or_equal a b)
        | (String a, String b) \<Rightarrow> Inr (cmp a b)
        | _ \<Rightarrow> Inl (MinMaxType name (value_type_name v)))
       (\<lambda>c. Inr (if (if name = ''min'' then c = Greater else c = Less) then v else acc))"

definition min_max_values :: "string \<Rightarrow> value list \<Rightarrow> agg_error + value" where
  "min_max_values name vs =
     (case vs of
        [] \<Rightarrow> Inl MinMaxEmpty
      | first # rest \<Rightarrow>
          (case find (\<lambda>v. discriminant v \<noteq> discriminant first) rest of
             Some v \<Rightarrow> Inl (MinMaxMixed name (value_type_name first) (value_type_name v))
           | None \<Rightarrow> res_fold (\<lambda>v acc. min_max_step name acc v) vs first))"

fun avg_step :: "f64 \<times> nat \<Rightarrow> value \<Rightarrow> f64 \<times> nat" where
  "avg_step (s, n) (Integer i) = (f64_add s (i64_as_f64 i), sat_add n 1)"
| "avg_step (s, n) (Float f) = (f64_add s f, sat_add n 1)"
| "avg_step (s, n) _ = (s, n)"

definition avg_values :: "value list \<Rightarrow> value" where
  "avg_values vs =
     (if vs = [] then Null
      else case fold (\<lambda>v sn. avg_step sn v) vs (f64_zero, 0) of
        (s, n) \<Rightarrow> if n = 0 then Null else Float (f64_div s (usize_as_f64 n)))"

definition apply_builtin_aggregate :: "string \<Rightarrow> value list \<Rightarrow> agg_error + value" where
  "apply_builtin_aggregate name vs =
     (if name = ''count'' then Inr (Integer (i64_of_usize (length vs)))
      else if name = ''count-distinct'' then Inr (Integer (i64_of_usize (length (vset_of vs))))
      else if name = ''sum'' then sum_values vs
      else if name = ''sum-distinct'' then sum_values (vset_of vs)
      else if name = ''min'' \<or> name = ''max'' then min_max_values name vs
      else if name = ''avg'' then Inr (avg_values vs)
      else Inl (UnknownAggregate name))"

end
