(* ===== verification/Expressions.thy ===== *)
theory Expressions
  imports Functions Datalog_Types
begin

text \<open>
  Evaluation of the expressions in where clauses (\<open>eval_expr\<close>, \<open>eval_binop\<close>, \<open>is_truthy\<close> and
  \<open>apply_expr_clauses\<close> in \<open>query/datalog/executor.rs\<close>).  Matching a compiled regular expression is an
  argument.  Besides a value and the engine's soft error, an evaluation can have a third outcome: Rust's
  integer division panics on overflow.
\<close>

section \<open>Evaluation\<close>

datatype 'a outcome = Ok 'a | Err | Panic

primrec out_bind :: "'a outcome \<Rightarrow> ('a \<Rightarrow> 'b outcome) \<Rightarrow> 'b outcome" where
  "out_bind (Ok x) f = f x"
| "out_bind Err f = Err"
| "out_bind Panic f = Panic"

type_synonym bindings = "(string, value) hash_map"

fun is_truthy :: "value \<Rightarrow> bool" where
  "is_truthy (Boolean b) = b"
| "is_truthy (Integer i) = (i \<noteq> I64 0)"
| "is_truthy (Float f) = (\<not> f64_eq f f64_zero)"
| "is_truthy _ = False"

fun to_float :: "value \<Rightarrow> f64 outcome" where
  "to_float (Integer i) = Ok (i64_as_f64 i)"
| "to_float (Float f) = Ok f"
| "to_float _ = Err"

definition to_float_pair :: "value \<Rightarrow> value \<Rightarrow> (f64 \<times> f64) outcome" where
  "to_float_pair l r = out_bind (to_float l) (\<lambda>lf. out_bind (to_float r) (\<lambda>rf. Ok (lf, rf)))"

text \<open>\<open>a / b\<close> on \<open>i64\<close> truncates and panics when the quotient is not an \<open>i64\<close>.\<close>

definition i64_quot :: "i64 \<Rightarrow> i64 \<Rightarrow> i64 outcome" where
  "i64_quot a b =
     (let q = sgn (i64_int a) * sgn (i64_int b) * (\<bar>i64_int a\<bar> div \<bar>i64_int b\<bar>) in
      if q = 2 ^ 63 then Panic else Ok (i64_of_int q))"

definition ends_with :: "string \<Rightarrow> string \<Rightarrow> bool" where
  "ends_with s t \<longleftrightarrow> suffix t s"

definition contains_str :: "string \<Rightarrow> string \<Rightarrow> bool" where
  "contains_str s t \<longleftrightarrow> sublist t s"

definition no_nan :: "f64 \<Rightarrow> value outcome" where
  "no_nan f = (if f64_is_nan f then Err else Ok (Float f))"

fun int_arith :: "bin_op \<Rightarrow> i64 \<Rightarrow> i64 \<Rightarrow> value outcome" where
  "int_arith OpAdd a b = Ok (Integer (I64 (i64_bits a + i64_bits b)))"
| "int_arith OpSub a b = Ok (Integer (I64 (i64_bits a - i64_bits b)))"
| "int_arith OpMul a b = Ok (Integer (I64 (i64_bits a * i64_bits b)))"
| "int_arith OpDiv a b = (if b = I64 0 then Err else out_bind (i64_quot a b) (\<lambda>q. Ok (Integer q)))"
| "int_arith _ _ _ = Err"

fun float_arith :: "bin_op \<Rightarrow> f64 \<Rightarrow> f64 \<Rightarrow> value outcome" where
  "float_arith OpAdd a b = no_nan (f64_add a b)"
| "float_arith OpSub a b = no_nan (f64_sub a b)"
| "float_arith OpMul a b = no_nan (f64_mul a b)"
| "float_arith OpDiv a b = (if f64_eq b f64_zero \<or> f64_is_nan b then Err else Ok (Float (f64_div a b)))"
| "float_arith _ _ _ = Err"

definition arith :: "bin_op \<Rightarrow> value \<Rightarrow> value \<Rightarrow> value outcome" where
  "arith oper l r =
     (case (l, r) of
        (Integer a, Integer b) \<Rightarrow> int_arith oper a b
      | _ \<Rightarrow> out_bind (to_float_pair l r) (\<lambda>(lf, rf). float_arith oper lf rf))"

definition compare_num :: "(f64 \<Rightarrow> f64 \<Rightarrow> bool) \<Rightarrow> value \<Rightarrow> value \<Rightarrow> value outcome" where
  "compare_num c l r = out_bind (to_float_pair l r) (\<lambda>(lf, rf). Ok (Boolean (c lf rf)))"

definition string_test :: "(string \<Rightarrow> string \<Rightarrow> bool) \<Rightarrow> value \<Rightarrow> value \<Rightarrow> value outcome" where
  "string_test t l r = (case (l, r) of (String s, String u) \<Rightarrow> Ok (Boolean (t s u)) | _ \<Rightarrow> Err)"

fun eval_binop :: "(string \<Rightarrow> string \<Rightarrow> bool) \<Rightarrow> bin_op \<Rightarrow> value \<Rightarrow> value \<Rightarrow> value outcome" where
  "eval_binop re OpEq l r = Ok (Boolean (value_eq l r))"
| "eval_binop re OpNeq l r = Ok (Boolean (\<not> value_eq l r))"
| "eval_binop re OpLt l r = compare_num f64_lt l r"
| "eval_binop re OpGt l r = compare_num (\<lambda>a b. f64_lt b a) l r"
| "eval_binop re OpLte l r = compare_num f64_le l r"
| "eval_binop re OpGte l r = compare_num (\<lambda>a b. f64_le b a) l r"
| "eval_binop re OpStartsWith l r = string_test starts_with l r"
| "eval_binop re OpEndsWith l r = string_test ends_with l r"
| "eval_binop re OpContains l r = string_test contains_str l r"
| "eval_binop re (OpMatches pat) l r = string_test (\<lambda>s _. re pat s) l r"
| "eval_binop re oper l r = arith oper l r"

fun eval_unop :: "'u function_registry option \<Rightarrow> unary_op \<Rightarrow> value \<Rightarrow> value outcome" where
  "eval_unop reg StringQ v = Ok (Boolean (case v of String _ \<Rightarrow> True | _ \<Rightarrow> False))"
| "eval_unop reg IntegerQ v = Ok (Boolean (case v of Integer _ \<Rightarrow> True | _ \<Rightarrow> False))"
| "eval_unop reg FloatQ v = Ok (Boolean (case v of Float _ \<Rightarrow> True | _ \<Rightarrow> False))"
| "eval_unop reg BooleanQ v = Ok (Boolean (case v of Boolean _ \<Rightarrow> True | _ \<Rightarrow> False))"
| "eval_unop reg NilQ v = Ok (Boolean (v = Null))"
| "eval_unop reg (UdfQ name) v =
     (case Option.bind reg (\<lambda>r. get_predicate r name) of
        Some d \<Rightarrow> Ok (Boolean (pd_f d v))
      | None \<Rightarrow> Err)"

fun eval_expr ::
    "(string \<Rightarrow> string \<Rightarrow> bool) \<Rightarrow> 'u function_registry option \<Rightarrow> expr \<Rightarrow> bindings \<Rightarrow> value outcome" where
  "eval_expr re reg (XVar v) b = (case hm_get b v of Some x \<Rightarrow> Ok x | None \<Rightarrow> Err)"
| "eval_expr re reg (XLit x) b = Ok x"
| "eval_expr re reg (XUn oper a) b = out_bind (eval_expr re reg a b) (eval_unop reg oper)"
| "eval_expr re reg (XBin oper x y) b =
     out_bind (eval_expr re reg x b) (\<lambda>l. out_bind (eval_expr re reg y b) (eval_binop re oper l))"
| "eval_expr re reg (XSlot _) b = Err"

section \<open>Expression clauses\<close>

text \<open>One clause on one row: \<open>Ok None\<close> drops the row.\<close>

definition expr_row ::
    "(string \<Rightarrow> string \<Rightarrow> bool) \<Rightarrow> 'u function_registry \<Rightarrow> expr \<Rightarrow> string option \<Rightarrow> bindings \<Rightarrow> bindings option outcome" where
  "expr_row re reg e out b =
     (case eval_expr re (Some reg) e b of
        Ok v \<Rightarrow> Ok (case out of Some var \<Rightarrow> Some (hm_insert var v b) | None \<Rightarrow> if is_truthy v then Some b else None)
      | Err \<Rightarrow> Ok None
      | Panic \<Rightarrow> Panic)"

fun expr_rows ::
    "(string \<Rightarrow> string \<Rightarrow> bool) \<Rightarrow> 'u function_registry \<Rightarrow> expr \<Rightarrow> string option \<Rightarrow> bindings list \<Rightarrow> bindings list outcome" where
  "expr_rows re reg e out [] = Ok []"
| "expr_rows re reg e out (b # bs) =
     out_bind (expr_row re reg e out b) (\<lambda>r.
     out_bind (expr_rows re reg e out bs) (\<lambda>rs. Ok (case r of Some b' \<Rightarrow> b' # rs | None \<Rightarrow> rs)))"

fun unknown_udf :: "'u function_registry \<Rightarrow> where_clause \<Rightarrow> bool" where
  "unknown_udf reg (WExpr (XUn (UdfQ name) _) _) = (get_predicate reg name = None)"
| "unknown_udf reg _ = False"

fun expr_clauses ::
    "(string \<Rightarrow> string \<Rightarrow> bool) \<Rightarrow> 'u function_registry \<Rightarrow> where_clause list \<Rightarrow> bindings list \<Rightarrow> bindings list outcome" where
  "expr_clauses re reg [] bs = Ok bs"
| "expr_clauses re reg (WExpr e out # cs) bs = out_bind (expr_rows re reg e out bs) (expr_clauses re reg cs)"
| "expr_clauses re reg (_ # cs) bs = expr_clauses re reg cs bs"

definition apply_expr_clauses ::
    "(string \<Rightarrow> string \<Rightarrow> bool) \<Rightarrow> 'u function_registry \<Rightarrow> bindings list \<Rightarrow> where_clause list \<Rightarrow> bindings list outcome" where
  "apply_expr_clauses re reg bs cs = (if list_ex (unknown_udf reg) cs then Err else expr_clauses re reg cs bs)"

text \<open>The rule evaluator's version: all clauses on one row before the next row.\<close>

fun expr_chain ::
    "(string \<Rightarrow> string \<Rightarrow> bool) \<Rightarrow> 'u function_registry \<Rightarrow> where_clause list \<Rightarrow> bindings \<Rightarrow> bindings option outcome" where
  "expr_chain re reg [] b = Ok (Some b)"
| "expr_chain re reg (WExpr e out # cs) b =
     out_bind (expr_row re reg e out b) (\<lambda>r. case r of None \<Rightarrow> Ok None | Some b' \<Rightarrow> expr_chain re reg cs b')"
| "expr_chain re reg (_ # cs) b = expr_chain re reg cs b"

fun apply_expr_clauses_in_evaluator ::
    "(string \<Rightarrow> string \<Rightarrow> bool) \<Rightarrow> 'u function_registry \<Rightarrow> bindings list \<Rightarrow> where_clause list \<Rightarrow> bindings list outcome" where
  "apply_expr_clauses_in_evaluator re reg [] cs = Ok []"
| "apply_expr_clauses_in_evaluator re reg (b # bs) cs =
     out_bind (expr_chain re reg cs b) (\<lambda>r.
     out_bind (apply_expr_clauses_in_evaluator re reg bs cs) (\<lambda>rs. Ok (case r of Some b' \<Rightarrow> b' # rs | None \<Rightarrow> rs)))"

section \<open>Row by row and clause by clause\<close>

lemma out_bind_assoc [simp]: "out_bind (out_bind x f) g = out_bind x (\<lambda>v. out_bind (f v) g)"
  by (cases x) simp_all

lemma out_bind_Ok_right [simp]: "out_bind x Ok = x"
  by (cases x) simp_all

lemma row_never_err: "expr_row re reg e out b \<noteq> Err"
  by (simp add: expr_row_def split: outcome.split)

lemma rows_never_err: "expr_rows re reg e out bs \<noteq> Err"
proof (induction bs)
  case (Cons b bs)
  then show ?case using row_never_err [of re reg e out b]
    by (cases "expr_row re reg e out b"; cases "expr_rows re reg e out bs") simp_all
qed simp

lemma chain_never_err: "expr_chain re reg cs b \<noteq> Err"
proof (induction re reg cs b rule: expr_chain.induct)
  case (2 re reg e out cs b)
  then show ?case using row_never_err [of re reg e out b]
    by (cases "expr_row re reg e out b") (auto split: option.split)
qed simp_all

text \<open>Filtering every row through a first clause and then the rest is filtering every row through all of
  them; a row that panics makes both panic.\<close>

lemma chain_after_rows:
  "out_bind (expr_rows re reg e out bs) (\<lambda>bs'. apply_expr_clauses_in_evaluator re reg bs' cs) =
   apply_expr_clauses_in_evaluator re reg bs (WExpr e out # cs)"
proof (induction bs)
  case (Cons b bs)
  show ?case
  proof (cases "expr_row re reg e out b")
    case (Ok r)
    show ?thesis
    proof (cases r)
      case None
      then show ?thesis using Ok Cons by simp
    next
      case (Some b')
      have swap: "out_bind (expr_rows re reg e out bs) (\<lambda>rs. out_bind (expr_chain re reg cs b') (\<lambda>r. out_bind
            (apply_expr_clauses_in_evaluator re reg rs cs) (\<lambda>rs. Ok (case r of None \<Rightarrow> rs | Some b' \<Rightarrow> b' # rs)))) =
          out_bind (expr_chain re reg cs b') (\<lambda>r. out_bind (out_bind (expr_rows re reg e out bs)
            (\<lambda>rs. apply_expr_clauses_in_evaluator re reg rs cs)) (\<lambda>rs. Ok (case r of None \<Rightarrow> rs | Some b' \<Rightarrow> b' # rs)))"
        using rows_never_err [of re reg e out bs] chain_never_err [of re reg cs b']
        by (cases "expr_rows re reg e out bs"; cases "expr_chain re reg cs b'")
          simp_all
      show ?thesis using Ok Some swap unfolding Cons by simp
    qed
  qed simp_all
qed simp

lemma evaluator_no_exprs: "apply_expr_clauses_in_evaluator re reg bs [] = Ok bs"
  by (induction bs) simp_all

lemma evaluator_skip:
  "\<not> (\<exists>e out. c = WExpr e out) \<Longrightarrow>
   apply_expr_clauses_in_evaluator re reg bs (c # cs) = apply_expr_clauses_in_evaluator re reg bs cs"
  by (induction bs) (cases c; simp)+

lemma expr_clauses_evaluator: "expr_clauses re reg cs bs = apply_expr_clauses_in_evaluator re reg bs cs"
proof (induction re reg cs bs rule: expr_clauses.induct)
  case (1 re reg bs)
  then show ?case by (simp add: evaluator_no_exprs)
next
  case (2 re reg e out cs bs)
  then have "expr_clauses re reg (WExpr e out # cs) bs =
      out_bind (expr_rows re reg e out bs) (\<lambda>bs'. apply_expr_clauses_in_evaluator re reg bs' cs)"
    by (cases "expr_rows re reg e out bs") simp_all
  then show ?case using chain_after_rows by metis
qed (simp_all add: evaluator_skip)



section \<open>Types\<close>

datatype ty = TString | TInteger | TFloat | TBoolean | TRef | TKeyword | TNull

fun value_ty :: "value \<Rightarrow> ty" where
  "value_ty (String _) = TString"
| "value_ty (Integer _) = TInteger"
| "value_ty (Float _) = TFloat"
| "value_ty (Boolean _) = TBoolean"
| "value_ty (Ref _) = TRef"
| "value_ty (Keyword _) = TKeyword"
| "value_ty Null = TNull"

abbreviation is_num :: "ty \<Rightarrow> bool" where
  "is_num t \<equiv> t = TInteger \<or> t = TFloat"

text \<open>The type of an expression in an environment, and whether it is total: type tests, comparisons, string
  tests and the ring operations on integers cannot fail on operands of the right type; divisions, operations
  on doubles and user-defined predicates can.\<close>

inductive has_type :: "(string \<Rightarrow> ty option) \<Rightarrow> expr \<Rightarrow> ty \<Rightarrow> bool \<Rightarrow> bool" where
  ht_var: "env v = Some t \<Longrightarrow> has_type env (XVar v) t True"
| ht_lit: "has_type env (XLit x) (value_ty x) True"
| ht_test: "has_type env e t p \<Longrightarrow> oper \<in> {StringQ, IntegerQ, FloatQ, BooleanQ, NilQ} \<Longrightarrow> has_type env (XUn oper e) TBoolean p"
| ht_udf: "has_type env e t p \<Longrightarrow> has_type env (XUn (UdfQ name) e) TBoolean False"
| ht_eq: "has_type env x t p \<Longrightarrow> has_type env y u q \<Longrightarrow> oper \<in> {OpEq, OpNeq} \<Longrightarrow> has_type env (XBin oper x y) TBoolean (p \<and> q)"
| ht_cmp: "has_type env x t p \<Longrightarrow> has_type env y u q \<Longrightarrow> is_num t \<Longrightarrow> is_num u \<Longrightarrow> oper \<in> {OpLt, OpGt, OpLte, OpGte} \<Longrightarrow>
    has_type env (XBin oper x y) TBoolean (p \<and> q)"
| ht_int: "has_type env x TInteger p \<Longrightarrow> has_type env y TInteger q \<Longrightarrow> oper \<in> {OpAdd, OpSub, OpMul} \<Longrightarrow>
    has_type env (XBin oper x y) TInteger (p \<and> q)"
| ht_quot: "has_type env x TInteger p \<Longrightarrow> has_type env y TInteger q \<Longrightarrow> has_type env (XBin OpDiv x y) TInteger False"
| ht_float: "has_type env x t p \<Longrightarrow> has_type env y u q \<Longrightarrow> is_num t \<Longrightarrow> is_num u \<Longrightarrow> t = TFloat \<or> u = TFloat \<Longrightarrow>
    oper \<in> {OpAdd, OpSub, OpMul, OpDiv} \<Longrightarrow> has_type env (XBin oper x y) TFloat False"
| ht_str: "has_type env x TString p \<Longrightarrow> has_type env y TString q \<Longrightarrow> oper \<in> {OpStartsWith, OpEndsWith, OpContains} \<Longrightarrow>
    has_type env (XBin oper x y) TBoolean (p \<and> q)"
| ht_re: "has_type env x TString p \<Longrightarrow> has_type env y TString q \<Longrightarrow> has_type env (XBin (OpMatches pat) x y) TBoolean (p \<and> q)"

definition env_ok :: "(string \<Rightarrow> ty option) \<Rightarrow> bindings \<Rightarrow> bool" where
  "env_ok env b \<longleftrightarrow> (\<forall>v t. env v = Some t \<longrightarrow> (\<exists>x. hm_get b v = Some x \<and> value_ty x = t))"

lemma value_ty_iff [simp]:
  "value_ty v = TString \<longleftrightarrow> (\<exists>s. v = String s)" "value_ty v = TInteger \<longleftrightarrow> (\<exists>i. v = Integer i)"
  "value_ty v = TFloat \<longleftrightarrow> (\<exists>f. v = Float f)"
  by (cases v; simp)+

lemma int_arith_result: "int_arith oper a b = Err \<or> int_arith oper a b = Panic \<or> (\<exists>i. int_arith oper a b = Ok (Integer i))"
  by (cases oper; cases "i64_quot a b") simp_all

lemma float_arith_result: "float_arith oper a b = Err \<or> (\<exists>f. float_arith oper a b = Ok (Float f))"
  by (cases oper) (simp_all add: no_nan_def)

lemma arith_result:
  assumes "is_num (value_ty l)" and "is_num (value_ty r)"
  shows "arith oper l r = Err \<or> arith oper l r = Panic \<or>
    (\<exists>v. arith oper l r = Ok v \<and> value_ty v = (if value_ty l = TFloat \<or> value_ty r = TFloat then TFloat else TInteger))"
proof (cases "\<exists>a b. l = Integer a \<and> r = Integer b")
  case True
  then obtain a b where "l = Integer a" "r = Integer b" by blast
  then show ?thesis using int_arith_result [of oper a b] by (auto simp: arith_def)
next
  case False
  then obtain a b where ab: "to_float_pair l r = Ok (a, b)" using assms by (cases l; cases r) (auto simp: to_float_pair_def)
  have "arith oper l r = out_bind (to_float_pair l r) (\<lambda>(lf, rf). float_arith oper lf rf)"
    using False by (cases l; cases r) (simp_all add: arith_def)
  then have "arith oper l r = float_arith oper a b" using ab by simp
  moreover have "value_ty l = TFloat \<or> value_ty r = TFloat" using False assms by auto
  ultimately show ?thesis using float_arith_result [of oper a b] by auto
qed

text \<open>An outcome of a type, which is a value if \<open>p\<close>.\<close>

definition yields :: "value outcome \<Rightarrow> ty \<Rightarrow> bool \<Rightarrow> bool" where
  "yields r t p \<longleftrightarrow> (\<exists>v. r = Ok v \<and> value_ty v = t) \<or> \<not> p \<and> (r = Err \<or> r = Panic)"

lemma yields_un:
  assumes "yields r t p" and "\<And>v. value_ty v = t \<Longrightarrow> yields (f v) u q"
  shows "yields (out_bind r f) u (p \<and> q)"
  using assms(1) unfolding yields_def [of r]
proof (elim disjE exE conjE)
  fix v assume "r = Ok v" "value_ty v = t"
  then show ?thesis using assms(2) [of v] by (auto simp: yields_def)
qed (simp_all add: yields_def)

lemma yields_bin:
  assumes "yields x t p" and "yields y u q" and "\<And>l r. value_ty l = t \<Longrightarrow> value_ty r = u \<Longrightarrow> yields (f l r) w z"
  shows "yields (out_bind x (\<lambda>l. out_bind y (f l))) w (p \<and> q \<and> z)"
  by (rule yields_un [OF assms(1)], rule yields_un [OF assms(2)], rule assms(3))

lemma yields_arith: "is_num (value_ty l) \<Longrightarrow> is_num (value_ty r) \<Longrightarrow>
    yields (arith oper l r) (if value_ty l = TFloat \<or> value_ty r = TFloat then TFloat else TInteger) False"
  using arith_result [of l r oper] by (auto simp: yields_def)

lemma typed_yields:
  assumes "has_type env e t p" and "env_ok env b"
  shows "yields (eval_expr re reg e b) t p"
  using assms
proof (induction rule: has_type.induct)
  case (ht_var env v t)
  then obtain x where "hm_get b v = Some x" "value_ty x = t" by (auto simp: env_ok_def)
  then show ?case by (simp add: yields_def)
next
  case (ht_lit env x)
  then show ?case by (simp add: yields_def)
next
  case (ht_test env e t p oper)
  then have "yields (eval_expr re reg (XUn oper e) b) TBoolean (p \<and> True)"
    unfolding eval_expr.simps by (intro yields_un [of _ t]) (auto simp: yields_def)
  then show ?case by simp
next
  case (ht_udf env e t p name)
  then have "yields (eval_expr re reg (XUn (UdfQ name) e) b) TBoolean (p \<and> False)"
    unfolding eval_expr.simps by (intro yields_un [of _ t]) (auto simp: yields_def split: option.split)
  then show ?case by simp
next
  case (ht_eq env x t p y u q oper)
  then have "yields (eval_expr re reg (XBin oper x y) b) TBoolean (p \<and> q \<and> True)"
    unfolding eval_expr.simps by (intro yields_bin [of _ t _ _ u]) (auto simp: yields_def)
  then show ?case by simp
next
  case (ht_cmp env x t p y u q oper)
  then have "yields (eval_expr re reg (XBin oper x y) b) TBoolean (p \<and> q \<and> True)"
    unfolding eval_expr.simps
    by (intro yields_bin [of _ t _ _ u]) (auto simp: yields_def compare_num_def to_float_pair_def)
  then show ?case by simp
next
  case (ht_int env x p y q oper)
  then have "yields (eval_expr re reg (XBin oper x y) b) TInteger (p \<and> q \<and> True)"
    unfolding eval_expr.simps by (intro yields_bin [of _ TInteger _ _ TInteger]) (auto simp: yields_def arith_def)
  then show ?case by simp
next
  case (ht_quot env x p y q)
  have "yields (eval_binop re OpDiv l r) TInteger False" if "value_ty l = TInteger" "value_ty r = TInteger" for l r
    using yields_arith [of l r OpDiv] that by simp
  then have "yields (eval_expr re reg (XBin OpDiv x y) b) TInteger (p \<and> q \<and> False)"
    unfolding eval_expr.simps using ht_quot by (intro yields_bin [of _ TInteger _ _ TInteger]) blast+
  then show ?case by simp
next
  case (ht_float env x t p y u q oper)
  have "yields (eval_binop re oper l r) TFloat False" if "value_ty l = t" "value_ty r = u" for l r
    using yields_arith [of l r oper] that ht_float.hyps by auto
  then have "yields (eval_expr re reg (XBin oper x y) b) TFloat (p \<and> q \<and> False)"
    unfolding eval_expr.simps using ht_float by (intro yields_bin [of _ t _ _ u]) blast+
  then show ?case by simp
next
  case (ht_str env x p y q oper)
  then have "yields (eval_expr re reg (XBin oper x y) b) TBoolean (p \<and> q \<and> True)"
    unfolding eval_expr.simps by (intro yields_bin [of _ TString _ _ TString]) (auto simp: yields_def string_test_def)
  then show ?case by simp
next
  case (ht_re env x p y q pat)
  then have "yields (eval_expr re reg (XBin (OpMatches pat) x y) b) TBoolean (p \<and> q \<and> True)"
    unfolding eval_expr.simps by (intro yields_bin [of _ TString _ _ TString]) (auto simp: yields_def string_test_def)
  then show ?case by simp
qed

text \<open>C34: expressions are type safe.  When the variables of a well-typed expression are bound to values of
  their types, evaluation yields a value of the expression's type; only an expression with a division, an
  operation on doubles or a user-defined predicate can fail to yield one.\<close>

theorem eval_expr_type_safe:
  assumes "has_type env e t p" and "env_ok env b"
  shows "(\<exists>v. eval_expr re reg e b = Ok v \<and> value_ty v = t) \<or>
    \<not> p \<and> (eval_expr re reg e b = Err \<or> eval_expr re reg e b = Panic)"
  using typed_yields [OF assms] by (simp add: yields_def)

theorem eval_expr_type_safe_witness:
  "\<exists>v. eval_expr (\<lambda>_ _. False) (Some (with_builtins :: unit function_registry))
      (XBin OpLt (XVar ''?x'') (XBin OpMul (XLit (Integer (I64 3))) (XVar ''?x''))) [(''?x'', Integer (I64 2))] = Ok v \<and>
     value_ty v = TBoolean"
proof -
  let ?env = "\<lambda>v. if v = ''?x'' then Some TInteger else None"
  let ?e = "XBin OpLt (XVar ''?x'') (XBin OpMul (XLit (Integer (I64 3))) (XVar ''?x''))"
  have x: "has_type ?env (XVar ''?x'') TInteger True" by (rule ht_var) simp
  have l: "has_type ?env (XLit (Integer (I64 3))) TInteger True" using ht_lit [of ?env "Integer (I64 3)"] by simp
  have "has_type ?env ?e TBoolean (True \<and> True \<and> True)"
    by (rule ht_cmp [OF x ht_int [OF l x]]) simp_all
  moreover have "env_ok ?env [(''?x'', Integer (I64 2))]" by (simp add: env_ok_def)
  ultimately show ?thesis
    using eval_expr_type_safe [of ?env ?e TBoolean "True \<and> True \<and> True" "[(''?x'', Integer (I64 2))]" "\<lambda>_ _. False"
        "Some (with_builtins :: unit function_registry)"] by blast
qed

section \<open>Integer arithmetic and comparison\<close>

lemma i64_int_range: "- (2 ^ 63) \<le> i64_int i" "i64_int i < 2 ^ 63"
  using sint_range_size [of "i64_bits i"] by (simp_all add: i64_int_def word_size)

lemma i64_int_of_int: "- (2 ^ 63) \<le> k \<Longrightarrow> k < 2 ^ 63 \<Longrightarrow> i64_int (i64_of_int k) = k"
  by (simp add: i64_int_def i64_of_int_def signed_take_bit_int_eq_self sint_sbintrunc')

lemma quotient_overflow:
  fixes x y m :: int
  assumes "- m \<le> x" and "x < m" and "y \<noteq> 0" and "0 < m" and "sgn x * sgn y * (\<bar>x\<bar> div \<bar>y\<bar>) = m"
  shows "x = - m \<and> y = - 1"
proof -
  have nonneg: "0 \<le> \<bar>x\<bar> div \<bar>y\<bar>" using assms(3) by (simp add: pos_imp_zdiv_nonneg_iff)
  have le: "\<bar>x\<bar> div \<bar>y\<bar> \<le> \<bar>x\<bar>" using zdiv_mono2 [of "\<bar>x\<bar>" 1 "\<bar>y\<bar>"] assms(3) by simp
  have s: "sgn x * sgn y = 1"
  proof (rule ccontr)
    assume n: "sgn x * sgn y \<noteq> 1"
    have "sgn x * sgn y \<le> 0" using n assms(3) by (auto simp: sgn_if split: if_splits)
    then have "sgn x * sgn y * (\<bar>x\<bar> div \<bar>y\<bar>) \<le> 0" using nonneg by (rule mult_nonpos_nonneg)
    then show False using assms(4,5) by simp
  qed
  then have d: "\<bar>x\<bar> div \<bar>y\<bar> = m" using assms(5) by simp
  then have x: "x = - m" using le assms(1,2) by linarith
  have "\<bar>y\<bar> = 1"
  proof (rule ccontr)
    assume "\<bar>y\<bar> \<noteq> 1"
    then have "2 \<le> \<bar>y\<bar>" using assms(3) by linarith
    then have "\<bar>x\<bar> div \<bar>y\<bar> \<le> \<bar>x\<bar> div 2" by (intro zdiv_mono2) simp_all
    then show False using d x assms(4) by simp
  qed
  moreover have "y < 0" using s x assms(4) by (auto simp: sgn_if split: if_splits)
  ultimately show ?thesis using x by linarith
qed

lemma i64_quot_Panic_iff:
  assumes "b \<noteq> I64 0"
  shows "i64_quot a b = Panic \<longleftrightarrow> i64_int a = - (2 ^ 63) \<and> i64_int b = - 1"
proof -
  have "i64_int (I64 0) = 0" by (simp add: i64_int_def)
  then have "i64_int b \<noteq> 0" using assms by (metis i64_int_inj)
  then have "sgn (i64_int a) * sgn (i64_int b) * (\<bar>i64_int a\<bar> div \<bar>i64_int b\<bar>) = 2 ^ 63 \<Longrightarrow>
      i64_int a = - (2 ^ 63) \<and> i64_int b = - 1"
    using quotient_overflow [OF i64_int_range(1) i64_int_range(2), of "i64_int b" a] by simp
  moreover have "i64_quot a b = Panic \<longleftrightarrow> sgn (i64_int a) * sgn (i64_int b) * (\<bar>i64_int a\<bar> div \<bar>i64_int b\<bar>) = 2 ^ 63"
    by (simp add: i64_quot_def Let_def)
  ultimately show ?thesis by auto
qed

text \<open>C36: the only operator application that does not return is the quotient of the smallest integer by
  minus one.  Every other division of integers by a non-zero integer yields the truncated quotient, and a
  division by zero is the engine's soft error.\<close>

theorem eval_binop_panics_iff:
  "(eval_binop re oper l r = Panic \<longleftrightarrow> oper = OpDiv \<and> l = Integer i64_MIN \<and> r = Integer (I64 (- 1))) \<and>
   eval_binop re OpDiv (Integer a) (Integer (I64 0)) = Err"
proof -
  have "eval_binop re oper l r = Panic \<longleftrightarrow>
      oper = OpDiv \<and> (\<exists>a b. l = Integer a \<and> r = Integer b \<and> b \<noteq> I64 0 \<and> i64_quot a b = Panic)"
  proof (cases "oper = OpDiv")
    case True
    show ?thesis
      by (cases l; cases r) (auto simp: True arith_def to_float_pair_def i64_quot_def Let_def)
  next
    case False
    then show ?thesis
      by (cases oper; cases l; cases r)
        (auto simp: arith_def to_float_pair_def compare_num_def string_test_def no_nan_def)
  qed
  also have "\<dots> \<longleftrightarrow> oper = OpDiv \<and> l = Integer i64_MIN \<and> r = Integer (I64 (- 1))"
  proof -
    have "i64_int i64_MIN = - (2 ^ 63)" "i64_int (I64 (- 1)) = - 1" by (simp_all add: i64_int_def i64_MIN_def)
    then have "i64_int a = - (2 ^ 63) \<longleftrightarrow> a = i64_MIN" "i64_int b = - 1 \<longleftrightarrow> b = I64 (- 1)" for a b
      by (metis i64_int_inj)+
    then show ?thesis using i64_quot_Panic_iff by auto
  qed
  finally show ?thesis by (simp add: arith_def)
qed

text \<open>C37: integers are compared as doubles.  A strict comparison that succeeds is right and a weak comparison
  that fails is right; both are exact on integers up to \<open>2 ^ 53\<close> in magnitude, and the next integer is the
  first that a strict comparison cannot tell from its neighbour.\<close>

theorem integer_comparison_precision:
  "(eval_binop re OpLt (Integer a) (Integer b) = Ok (Boolean True) \<longrightarrow> a < b) \<and>
   (a \<le> b \<longrightarrow> eval_binop re OpLte (Integer a) (Integer b) = Ok (Boolean True)) \<and>
   (\<bar>i64_int a\<bar> \<le> 2 ^ 53 \<and> \<bar>i64_int b\<bar> \<le> 2 ^ 53 \<longrightarrow>
      eval_binop re OpLt (Integer a) (Integer b) = Ok (Boolean (a < b)) \<and>
      eval_binop re OpLte (Integer a) (Integer b) = Ok (Boolean (a \<le> b))) \<and>
   eval_binop re OpLt (Integer (i64_of_int (2 ^ 53))) (Integer (i64_of_int (2 ^ 53 + 1))) = Ok (Boolean False)"
proof -
  have lt: "eval_binop re OpLt (Integer x) (Integer y) = Ok (Boolean (f64_lt (i64_as_f64 x) (i64_as_f64 y)))"
    and le: "eval_binop re OpLte (Integer x) (Integer y) = Ok (Boolean (f64_le (i64_as_f64 x) (i64_as_f64 y)))" for x y
    by (simp_all add: compare_num_def to_float_pair_def)
  have "i64_as_f64 (i64_of_int (2 ^ 53)) = i64_as_f64 (i64_of_int (2 ^ 53 + 1))"
    using round_2_53 by (simp add: i64_as_f64_def i64_int_of_int)
  then have "\<not> f64_lt (i64_as_f64 (i64_of_int (2 ^ 53))) (i64_as_f64 (i64_of_int (2 ^ 53 + 1)))"
    by (simp add: f64_lt_iff)
  then show ?thesis
    unfolding lt le using i64_lt_sound [of a b] i64_le_complete [of a b] i64_lt_exact [of a b] i64_le_exact [of a b] by simp
qed

theorem integer_comparison_precision_witness:
  "eval_binop (\<lambda>_ _. False) OpLt (Integer (I64 3)) (Integer (I64 5)) = Ok (Boolean True) \<and>
   eval_binop (\<lambda>_ _. False) OpLte (Integer (I64 5)) (Integer (I64 3)) = Ok (Boolean False)"
proof -
  have i: "i64_int (I64 3) = 3" "i64_int (I64 5) = 5" by (simp_all add: i64_int_def)
  have "I64 3 < I64 5" "\<not> I64 5 \<le> I64 3" by (simp_all add: i less_i64_def less_eq_i64_def)
  then show ?thesis
    using integer_comparison_precision [of "\<lambda>_ _. False" "I64 3" "I64 5"] integer_comparison_precision [of "\<lambda>_ _. False" "I64 5" "I64 3"]
    by (simp only: i) simp
qed

end
