(* ===== verification/Aggregates.thy ===== *)
theory Aggregates
  imports Expressions
begin

text \<open>
  Grouping and aggregation of query results (\<open>AggregateAccumulator\<close>, \<open>AggregationSink\<close>,
  \<open>compute_aggregation\<close> in \<open>query/datalog/executor.rs\<close>).  Rows are streamed into one accumulator per group
  and aggregate; the streaming accumulators are shown to compute the batch aggregates of
  \<open>functions.rs\<close>, and the sink one row per group of equal keys.
\<close>

section \<open>Accumulators\<close>

datatype 'u accumulator = AccCount i64 | AccCountDistinct "value list" | AccSum i64 f64 bool
  | AccSumDistinct "value list" | AccMinMax "value option" bool | AccAvg f64 nat | AccUdf 'u nat

definition acc_new :: "'u function_registry \<Rightarrow> string \<Rightarrow> agg_error + 'u accumulator" where
  "acc_new reg func =
     (if func = ''count'' then Inr (AccCount (I64 0))
      else if func = ''count-distinct'' then Inr (AccCountDistinct [])
      else if func = ''sum'' then Inr (AccSum (I64 0) f64_zero False)
      else if func = ''sum-distinct'' then Inr (AccSumDistinct [])
      else if func = ''min'' then Inr (AccMinMax None True)
      else if func = ''max'' then Inr (AccMinMax None False)
      else if func = ''avg'' then Inr (AccAvg f64_zero 0)
      else case get_aggregate reg func of
        None \<Rightarrow> Inl (UnknownAggregate func)
      | Some d \<Rightarrow>
          if ad_builtin d then Inl (UnknownAggregate func)
          else (case ad_impl d of
                  Udf ops \<Rightarrow> Inr (AccUdf (udf_init ops) 0)
                | Builtin _ \<Rightarrow> Inl (UnknownAggregate func)))"

definition sum_push :: "i64 \<Rightarrow> f64 \<Rightarrow> bool \<Rightarrow> value \<Rightarrow> agg_error + 'u accumulator" where
  "sum_push ints flt saw v =
     (case v of
        Integer n \<Rightarrow> Inr (AccSum (i64_saturating_add ints n) (f64_add flt (i64_as_f64 n)) saw)
      | Float f \<Rightarrow> Inr (AccSum ints (f64_add flt f) True)
      | other \<Rightarrow> Inl (SumType (value_type_name other)))"

definition min_max_push :: "string \<Rightarrow> value option \<Rightarrow> bool \<Rightarrow> value \<Rightarrow> agg_error + 'u accumulator" where
  "min_max_push func current minimum v =
     bail_if (discriminant v \<noteq> 0 \<and> discriminant v \<noteq> 1 \<and> discriminant v \<noteq> 2) (MinMaxType func (value_type_name v))
       (case current of
          None \<Rightarrow> Inr (AccMinMax (Some v) minimum)
        | Some c \<Rightarrow>
            if discriminant c \<noteq> discriminant v
            then Inl (MinMaxMixed func (value_type_name c) (value_type_name v))
            else let o1 = loose_cmp v c in
              Inr (AccMinMax (Some (if minimum \<and> o1 = Less \<or> \<not> minimum \<and> o1 = Greater then v else c)) minimum))"

definition acc_push :: "'u function_registry \<Rightarrow> string \<Rightarrow> value option \<Rightarrow> 'u accumulator \<Rightarrow> agg_error + 'u accumulator" where
  "acc_push reg func x acc =
     (case x of
        None \<Rightarrow> Inr acc
      | Some v \<Rightarrow>
          if v = Null then Inr acc
          else case acc of
            AccCount n \<Rightarrow> Inr (AccCount (i64_saturating_add n (I64 1)))
          | AccCountDistinct vs \<Rightarrow> Inr (AccCountDistinct (vset_insert v vs))
          | AccSum ints flt saw \<Rightarrow> sum_push ints flt saw v
          | AccSumDistinct vs \<Rightarrow> Inr (AccSumDistinct (vset_insert v vs))
          | AccMinMax current minimum \<Rightarrow> min_max_push func current minimum v
          | AccAvg s n \<Rightarrow> (case avg_step (s, n) v of (s', n') \<Rightarrow> Inr (AccAvg s' n'))
          | AccUdf u n \<Rightarrow>
              (case get_aggregate reg func of
                 None \<Rightarrow> Inl (UnknownAggregate func)
               | Some d \<Rightarrow>
                   (case ad_impl d of
                      Udf ops \<Rightarrow> Inr (AccUdf (udf_step ops u v) (sat_add n 1))
                    | Builtin _ \<Rightarrow> Inl (UnknownAggregate func))))"

definition acc_finish :: "'u function_registry \<Rightarrow> string \<Rightarrow> 'u accumulator \<Rightarrow> agg_error + value option" where
  "acc_finish reg func acc =
     (case acc of
        AccCount n \<Rightarrow> Inr (Some (Integer n))
      | AccCountDistinct vs \<Rightarrow> Inr (Some (Integer (i64_of_usize (length vs))))
      | AccSum ints flt saw \<Rightarrow> Inr (Some (if saw then Float flt else Integer ints))
      | AccSumDistinct vs \<Rightarrow> res_bind (apply_builtin_aggregate ''sum-distinct'' vs) (\<lambda>v. Inr (Some v))
      | AccMinMax current _ \<Rightarrow> Inr current
      | AccAvg s n \<Rightarrow> Inr (Some (if n = 0 then Null else Float (f64_div s (usize_as_f64 n))))
      | AccUdf u n \<Rightarrow>
          if n = 0 then Inr (Some Null)
          else (case get_aggregate reg func of
                  None \<Rightarrow> Inl (UnknownAggregate func)
                | Some d \<Rightarrow>
                    (case ad_impl d of
                       Udf ops \<Rightarrow> Inr (Some (udf_finalise ops u n))
                     | Builtin _ \<Rightarrow> Inl (UnknownAggregate func))))"

section \<open>The sink\<close>

type_synonym 'u agg_group = "(nat \<times> string \<times> 'u accumulator) list"

record 'u aggregation_sink =
  sk_specs :: "find_spec list"
  sk_registry :: "'u function_registry"
  sk_group_vars :: "string list"
  sk_groups :: "(value list \<times> 'u agg_group) list"
  sk_global :: "'u agg_group option"
  sk_saw :: bool

fun find_variable :: "find_spec \<Rightarrow> string option" where
  "find_variable (FindVariable v) = Some v"
| "find_variable _ = None"

fun is_window_spec :: "find_spec \<Rightarrow> bool" where
  "is_window_spec (FindWindow _) = True"
| "is_window_spec _ = False"

fun is_aggregate_spec :: "find_spec \<Rightarrow> bool" where
  "is_aggregate_spec (FindAggregate _ _) = True"
| "is_aggregate_spec _ = False"

definition group_vars :: "find_spec list \<Rightarrow> string list \<Rightarrow> string list" where
  "group_vars specs with_vars =
     List.map_filter find_variable specs @ (if list_ex is_window_spec specs then [] else with_vars)"

definition sink_new :: "find_spec list \<Rightarrow> string list \<Rightarrow> 'u function_registry \<Rightarrow> 'u aggregation_sink" where
  "sink_new specs with_vars reg =
     \<lparr> sk_specs = specs, sk_registry = reg, sk_group_vars = group_vars specs with_vars,
       sk_groups = [], sk_global = None, sk_saw = False \<rparr>"

text \<open>\<open>Vec<Value>\<close> compares lexicographically; the groups are a \<open>BTreeMap\<close> in that order.\<close>

fun vec_cmp :: "value list \<Rightarrow> value list \<Rightarrow> ordering" where
  "vec_cmp [] [] = Equal"
| "vec_cmp [] (_ # _) = Less"
| "vec_cmp (_ # _) [] = Greater"
| "vec_cmp (v # vs) (w # ws) = then_with (value_cmp v w) (vec_cmp vs ws)"

fun vmap_get :: "(value list \<times> 'g) list \<Rightarrow> value list \<Rightarrow> 'g option" where
  "vmap_get [] k = None"
| "vmap_get ((k', g) # m) k = (if vec_cmp k k' = Equal then Some g else vmap_get m k)"

fun vmap_insert :: "value list \<Rightarrow> 'g \<Rightarrow> (value list \<times> 'g) list \<Rightarrow> (value list \<times> 'g) list" where
  "vmap_insert k g [] = [(k, g)]"
| "vmap_insert k g ((k', g') # m) =
     (case vec_cmp k k' of
        Less \<Rightarrow> (k, g) # (k', g') # m
      | Equal \<Rightarrow> (k', g) # m
      | Greater \<Rightarrow> (k', g') # vmap_insert k g m)"

definition make_group :: "find_spec list \<Rightarrow> 'u function_registry \<Rightarrow> agg_error + 'u agg_group" where
  "make_group specs reg =
     res_map (\<lambda>(i, func). res_bind (acc_new reg func) (\<lambda>a. Inr (i, func, a)))
       (List.map_filter (\<lambda>(i, spec). case spec of FindAggregate func _ \<Rightarrow> Some (i, func) | _ \<Rightarrow> None) (enumerate 0 specs))"

definition push_group ::
    "find_spec list \<Rightarrow> 'u function_registry \<Rightarrow> (string \<Rightarrow> value option) \<Rightarrow> 'u agg_group \<Rightarrow> agg_error + 'u agg_group" where
  "push_group specs reg value_for g =
     res_map (\<lambda>(i, func, acc).
       case list_get specs i of
         Some (FindAggregate _ var) \<Rightarrow> res_bind (acc_push reg func (value_for var) acc) (\<lambda>a. Inr (i, func, a))
       | _ \<Rightarrow> Inr (i, func, acc)) g"

definition sink_key :: "string list \<Rightarrow> (string \<Rightarrow> value option) \<Rightarrow> value list" where
  "sink_key vars value_for = map (\<lambda>v. get_or Null (value_for v)) vars"

definition push_values :: "(string \<Rightarrow> value option) \<Rightarrow> 'u aggregation_sink \<Rightarrow> agg_error + 'u aggregation_sink" where
  "push_values value_for s =
     (let s1 = s\<lparr> sk_saw := True \<rparr>; key = sink_key (sk_group_vars s) value_for in
      if sk_group_vars s = [] then
        res_bind (case sk_global s of Some g \<Rightarrow> Inr g | None \<Rightarrow> make_group (sk_specs s) (sk_registry s)) (\<lambda>g.
        res_bind (push_group (sk_specs s) (sk_registry s) value_for g) (\<lambda>g'.
        Inr (s1\<lparr> sk_global := Some g' \<rparr>)))
      else
        res_bind (case vmap_get (sk_groups s) key of Some g \<Rightarrow> Inr g | None \<Rightarrow> make_group (sk_specs s) (sk_registry s)) (\<lambda>g.
        res_bind (push_group (sk_specs s) (sk_registry s) value_for g) (\<lambda>g'.
        Inr (s1\<lparr> sk_groups := vmap_insert key g' (sk_groups s) \<rparr>))))"

definition sink_push :: "bindings \<Rightarrow> 'u aggregation_sink \<Rightarrow> agg_error + 'u aggregation_sink" where
  "sink_push b s = push_values (hm_get b) s"

text \<open>\<open>format!("__agg_{}", i)\<close>\<close>

fun usize_string :: "nat \<Rightarrow> string" where
  "usize_string n =
     (if n < 10 then [char_of (48 + n)] else usize_string (n div 10) @ [char_of (48 + n mod 10)])"

declare usize_string.simps [simp del]

definition agg_key :: "nat \<Rightarrow> string" where
  "agg_key i = ''__agg_'' @ usize_string i"

fun is_count_spec :: "find_spec \<Rightarrow> bool" where
  "is_count_spec (FindAggregate func _) = (func = ''count'' \<or> func = ''count-distinct'')"
| "is_count_spec _ = False"

fun finish_group ::
    "'u function_registry \<Rightarrow> 'u agg_group \<Rightarrow> bindings \<Rightarrow> agg_error + bindings option" where
  "finish_group reg [] b = Inr (Some b)"
| "finish_group reg ((i, func, acc) # g) b =
     res_bind (acc_finish reg func acc) (\<lambda>r.
       case r of Some v \<Rightarrow> finish_group reg g (hm_insert (agg_key i) v b) | None \<Rightarrow> Inr None)"

definition key_row :: "find_spec list \<Rightarrow> value list \<Rightarrow> bindings" where
  "key_row specs key =
     fold (\<lambda>(i, var) b. case list_get key i of Some v \<Rightarrow> hm_insert var v b | None \<Rightarrow> b)
       (enumerate 0 (List.map_filter find_variable specs)) []"

definition keep_some :: "'a option list \<Rightarrow> 'a list" where
  "keep_some rs = List.map_filter (\<lambda>r. r) rs"

definition finish_groups ::
    "find_spec list \<Rightarrow> 'u function_registry \<Rightarrow> (value list \<times> 'u agg_group) list \<Rightarrow> agg_error + bindings list" where
  "finish_groups specs reg groups =
     res_bind (res_map (\<lambda>(key, g). finish_group reg g (key_row specs key)) groups) (\<lambda>rs. Inr (keep_some rs))"

definition finish_empty :: "find_spec list \<Rightarrow> bindings list" where
  "finish_empty specs =
     (if \<not> list_ex (\<lambda>s. find_variable s \<noteq> None) specs \<and> list_all is_count_spec specs
      then [fold (\<lambda>i b. hm_insert (agg_key i) (Integer (I64 0)) b) [0..<length specs] []]
      else [])"

definition sink_finish :: "'u aggregation_sink \<Rightarrow> agg_error + bindings list" where
  "sink_finish s =
     (if \<not> sk_saw s then Inr (finish_empty (sk_specs s))
      else finish_groups (sk_specs s) (sk_registry s)
        (case sk_global s of Some g \<Rightarrow> vmap_insert [] g (sk_groups s) | None \<Rightarrow> sk_groups s))"

definition compute_aggregation ::
    "bindings list \<Rightarrow> find_spec list \<Rightarrow> string list \<Rightarrow> 'u function_registry \<Rightarrow> agg_error + bindings list" where
  "compute_aggregation rows specs with_vars reg =
     res_bind (res_fold sink_push rows (sink_new specs with_vars reg)) sink_finish"

section \<open>Streaming and batch aggregation agree\<close>

definition nonnull :: "value option list \<Rightarrow> value list" where
  "nonnull xs = filter (\<lambda>v. v \<noteq> Null) (keep_some xs)"

lemma keep_some_simps [simp]: "keep_some [] = []" "keep_some (None # xs) = keep_some xs" "keep_some (Some v # xs) = v # keep_some xs"
  by (simp_all add: keep_some_def List.map_filter_simps)

definition agg_stream :: "'u function_registry \<Rightarrow> string \<Rightarrow> value option list \<Rightarrow> agg_error + value option" where
  "agg_stream reg func xs =
     res_bind (acc_new reg func) (\<lambda>a. res_bind (res_fold (acc_push reg func) xs a) (acc_finish reg func))"

lemma push_nonnull: "res_fold (acc_push reg func) xs a = res_fold (\<lambda>v. acc_push reg func (Some v)) (nonnull xs) a"
proof (induction xs arbitrary: a)
  case (Cons x xs)
  show ?case
  proof (cases "x = None \<or> x = Some Null")
    case True
    then show ?thesis using Cons by (auto simp: acc_push_def nonnull_def)
  next
    case False
    then obtain v where "x = Some v" "v \<noteq> Null" by auto
    then show ?thesis using Cons by (cases "acc_push reg func x a") (simp_all add: nonnull_def)
  qed
qed (simp add: nonnull_def)

lemma nonnull_Null [simp]: "Null \<notin> set (nonnull xs)"
  by (simp add: nonnull_def)

lemma i64_count_step: "i64_saturating_add (i64_of_usize n) (I64 1) = i64_of_usize (Suc n)"
proof -
  have one: "i64_int (I64 1) = 1" and mx: "i64_int i64_MAX = 2 ^ 63 - 1" by (simp_all add: i64_int_def i64_MAX_def)
  show ?thesis
  proof (cases "n < 2 ^ 63")
    case True
    then have "i64_int (i64_of_usize n) = int n" by (simp add: i64_of_usize_def i64_int_of_int)
    then show ?thesis using True by (auto simp: i64_saturating_add_def one i64_of_usize_def add.commute Let_def)
  next
    case False
    then have "i64_of_usize n = i64_MAX" by (simp add: i64_of_usize_def)
    then show ?thesis using False by (simp add: i64_saturating_add_def one mx i64_of_usize_def Let_def)
  qed
qed

lemma stream_count:
  "Null \<notin> set vs \<Longrightarrow> res_fold (\<lambda>v. acc_push reg func (Some v)) vs (AccCount (i64_of_usize n)) = Inr (AccCount (i64_of_usize (n + length vs)))"
  by (induction vs arbitrary: n) (auto simp: acc_push_def i64_count_step)

lemma stream_count_distinct:
  "Null \<notin> set vs \<Longrightarrow> res_fold (\<lambda>v. acc_push reg func (Some v)) vs (AccCountDistinct ws) = Inr (AccCountDistinct (fold vset_insert vs ws))"
  by (induction vs arbitrary: ws) (auto simp: acc_push_def)

lemma stream_sum_distinct:
  "Null \<notin> set vs \<Longrightarrow> res_fold (\<lambda>v. acc_push reg func (Some v)) vs (AccSumDistinct ws) = Inr (AccSumDistinct (fold vset_insert vs ws))"
  by (induction vs arbitrary: ws) (auto simp: acc_push_def)

lemma stream_avg:
  "Null \<notin> set vs \<Longrightarrow> res_fold (\<lambda>v. acc_push reg func (Some v)) vs (AccAvg s n) =
     (case fold (\<lambda>v sn. avg_step sn v) vs (s, n) of (s', n') \<Rightarrow> Inr (AccAvg s' n'))"
proof (induction vs arbitrary: s n)
  case (Cons v vs)
  obtain s' n' where "avg_step (s, n) v = (s', n')" by (cases "avg_step (s, n) v")
  then show ?case using Cons by (auto simp: acc_push_def)
qed simp

subsection \<open>Sums\<close>

definition int_part :: "value list \<Rightarrow> i64 \<Rightarrow> i64" where
  "int_part vs i = fold (\<lambda>v i. case v of Integer n \<Rightarrow> i64_saturating_add i n | _ \<Rightarrow> i) vs i"

lemma stream_sum:
  "Null \<notin> set vs \<Longrightarrow> res_fold (\<lambda>v. acc_push reg func (Some v)) vs (AccSum i f saw) =
     res_bind (sum_floats vs f) (\<lambda>f'. Inr (AccSum (int_part vs i) f' (saw \<or> list_ex is_float_value vs)))"
proof (induction vs arbitrary: i f saw)
  case (Cons v vs)
  then show ?case by (cases v) (auto simp: acc_push_def sum_push_def int_part_def)
qed (simp add: int_part_def)

lemma sum_ints_floats:
  "\<not> list_ex is_float_value vs \<Longrightarrow> sum_ints vs i = res_bind (sum_floats vs f) (\<lambda>_. Inr (int_part vs i))"
proof (induction vs arbitrary: i f)
  case (Cons v vs)
  then show ?case by (cases v) (auto simp: int_part_def)
qed (simp add: int_part_def)

lemma stream_sum_values:
  assumes "Null \<notin> set vs"
  shows "res_bind (res_fold (\<lambda>v. acc_push reg func (Some v)) vs (AccSum (I64 0) f64_zero False)) (acc_finish reg func) =
    res_bind (sum_values vs) (\<lambda>v. Inr (Some v))"
proof (cases "list_ex is_float_value vs")
  case True
  then have "vs \<noteq> []" by auto
  then show ?thesis using True assms
    by (cases "sum_floats vs f64_zero") (simp_all add: stream_sum sum_values_def acc_finish_def)
next
  case False
  show ?thesis
  proof (cases "vs = []")
    case True
    then show ?thesis by (simp add: sum_values_def acc_finish_def)
  next
    case ne: False
    then show ?thesis using False assms sum_ints_floats [OF False, of "I64 0" f64_zero]
      by (cases "sum_floats vs f64_zero") (simp_all add: stream_sum sum_values_def acc_finish_def)
  qed
qed

subsection \<open>Distinct values\<close>

abbreviation vset_sorted :: "value list \<Rightarrow> bool" where
  "vset_sorted vs \<equiv> sorted_wrt (\<lambda>v w. value_cmp v w = Less) vs"

lemma vset_insert_set: "set (vset_insert v vs) \<subseteq> insert v (set vs)"
  by (induction vs) (auto split: ordering.split)

lemma vset_insert_sorted: "vset_sorted vs \<Longrightarrow> vset_sorted (vset_insert v vs)"
proof (induction vs)
  case (Cons w vs)
  have "value_cmp w v = Less" if "value_cmp v w = Greater" using that value_ord.ord_sym by blast
  moreover have "value_cmp v x = Less" if "value_cmp v w = Less" "value_cmp w x = Less" for x
    using value_ord.less_le_trans [OF that(1), of x] that(2) by simp
  ultimately show ?case using Cons vset_insert_set [of v vs] by (auto split: ordering.split)
qed simp

lemma vset_insert_last: "(\<And>w. w \<in> set vs \<Longrightarrow> value_cmp w v = Less) \<Longrightarrow> vset_insert v vs = vs @ [v]"
proof (induction vs)
  case (Cons w vs)
  have "value_cmp v w = Greater" using Cons.prems [of w] value_ord.ord_sym by auto
  then show ?case using Cons by simp
qed simp

lemma vset_fold_sorted: "vset_sorted (acc @ vs) \<Longrightarrow> fold vset_insert vs acc = acc @ vs"
proof (induction vs arbitrary: acc)
  case (Cons v vs)
  have "vset_insert v acc = acc @ [v]" using Cons.prems by (intro vset_insert_last) (auto simp: sorted_wrt_append)
  then show ?case using Cons by simp
qed simp

lemma vset_of_sorted: "vset_sorted (vset_of vs)"
proof -
  have "vset_sorted acc \<Longrightarrow> vset_sorted (fold vset_insert vs acc)" for acc
    by (induction vs arbitrary: acc) (auto intro: vset_insert_sorted)
  then show ?thesis by (simp add: vset_of_def)
qed

lemma vset_of_idem [simp]: "vset_of (vset_of vs) = vset_of vs"
  using vset_fold_sorted [of "[]" "vset_of vs"] vset_of_sorted [of vs] by (simp add: vset_of_def [of "vset_of vs"])

subsection \<open>Minimum and maximum\<close>

lemma loose_cmp_sym: "discriminant v = discriminant w \<Longrightarrow> (loose_cmp v w = Less) = (loose_cmp w v = Greater)"
  by (cases v; cases w) (auto simp: partial_or_equal_def f64_partial_cmp_def cmp_def)

lemma loose_cmp_refl [simp]: "loose_cmp v v = Equal"
  by (cases v) (simp_all add: partial_or_equal_def f64_partial_cmp_def)

lemma min_max_step_good:
  assumes "discriminant v = discriminant c" and "discriminant c \<le> 2"
  shows "min_max_step name c v =
    Inr (if name = ''min'' \<and> loose_cmp v c = Less \<or> name \<noteq> ''min'' \<and> loose_cmp v c = Greater then v else c)"
  using assms loose_cmp_sym [of v c] loose_cmp_sym [of c v]
  by (cases c; cases v) (auto simp: min_max_step_def)

lemma min_max_push_good:
  assumes "discriminant c \<le> 2" and "discriminant v = discriminant c" and "v \<noteq> Null"
  shows "acc_push reg name (Some v) (AccMinMax (Some c) (name = ''min'')) =
    res_bind (min_max_step name c v) (\<lambda>c'. Inr (AccMinMax (Some c') (name = ''min'')))"
  using assms min_max_step_good [of v c name]
  by (auto simp: acc_push_def min_max_push_def bail_if_def Let_def)

lemma min_max_push_bad:
  assumes "discriminant v \<noteq> discriminant c" and "v \<noteq> Null"
  shows "\<exists>e. acc_push reg name (Some v) (AccMinMax (Some c) m) = Inl e"
  using assms by (auto simp: acc_push_def min_max_push_def bail_if_def)

lemma stream_min_max_rest:
  assumes "discriminant c \<le> 2" and "Null \<notin> set vs"
  shows "case find (\<lambda>v. discriminant v \<noteq> discriminant c) vs of
      None \<Rightarrow> res_fold (\<lambda>v. acc_push reg name (Some v)) vs (AccMinMax (Some c) (name = ''min'')) =
        res_bind (res_fold (\<lambda>v acc. min_max_step name acc v) vs c) (\<lambda>c'. Inr (AccMinMax (Some c') (name = ''min'')))
    | Some _ \<Rightarrow> \<exists>e. res_fold (\<lambda>v. acc_push reg name (Some v)) vs (AccMinMax (Some c) (name = ''min'')) = Inl e"
  using assms
proof (induction vs arbitrary: c)
  case (Cons v vs)
  show ?case
  proof (cases "discriminant v = discriminant c")
    case True
    obtain c' where c': "min_max_step name c v = Inr c'" "discriminant c' = discriminant c"
      using min_max_step_good [OF True Cons.prems(1), of name] True by auto
    have "acc_push reg name (Some v) (AccMinMax (Some c) (name = ''min'')) = Inr (AccMinMax (Some c') (name = ''min''))"
      using min_max_push_good [OF Cons.prems(1) True, of reg name] c'(1) Cons.prems(2) by auto
    then show ?thesis using Cons.IH [of c'] Cons.prems c' True
      by (cases "find (\<lambda>v. discriminant v \<noteq> discriminant c) vs") simp_all
  next
    case False
    then show ?thesis using min_max_push_bad [of v c reg name "name = ''min''"] Cons.prems(2) by fastforce
  qed
qed simp

lemma min_max_fold_not_empty: "res_fold (\<lambda>v acc. min_max_step name acc v) vs c \<noteq> Inl MinMaxEmpty"
proof (induction vs arbitrary: c)
  case (Cons v vs)
  have "min_max_step name c v \<noteq> Inl MinMaxEmpty" by (cases c; cases v) (simp_all add: min_max_step_def)
  then show ?case using Cons.IH by (cases "min_max_step name c v") simp_all
qed simp

lemma stream_min_max:
  assumes "name = ''min'' \<or> name = ''max''" and "Null \<notin> set vs"
  shows "case min_max_values name vs of
      Inr v \<Rightarrow> res_fold (\<lambda>v. acc_push reg name (Some v)) vs (AccMinMax None (name = ''min'')) = Inr (AccMinMax (Some v) (name = ''min''))
    | Inl e \<Rightarrow> if vs = [] then e = MinMaxEmpty
        else e \<noteq> MinMaxEmpty \<and> (\<exists>e'. res_fold (\<lambda>v. acc_push reg name (Some v)) vs (AccMinMax None (name = ''min'')) = Inl e')"
proof (cases vs)
  case Nil
  then show ?thesis by (simp add: min_max_values_def)
next
  case (Cons c rest)
  have nn: "c \<noteq> Null" "Null \<notin> set rest" using assms(2) Cons by auto
  show ?thesis
  proof (cases "discriminant c \<le> 2")
    case True
    have start: "acc_push reg name (Some c) (AccMinMax None (name = ''min'')) = Inr (AccMinMax (Some c) (name = ''min''))"
      using True nn by (cases c) (simp_all add: acc_push_def min_max_push_def)
    have "min_max_step name c c = Inr c" using min_max_step_good [OF refl True, of name] by simp
    then have "min_max_values name vs = (case find (\<lambda>v. discriminant v \<noteq> discriminant c) rest of
        Some v \<Rightarrow> Inl (MinMaxMixed name (value_type_name c) (value_type_name v))
      | None \<Rightarrow> res_fold (\<lambda>v acc. min_max_step name acc v) rest c)"
      by (simp add: min_max_values_def Cons split: option.split)
    then show ?thesis using min_max_fold_not_empty [of name rest c] stream_min_max_rest [OF True nn(2), of reg name] start Cons
      by (auto split: option.splits sum.splits)
  next
    case False
    have "\<exists>e. acc_push reg name (Some c) (AccMinMax None (name = ''min'')) = Inl e"
      using False nn by (cases c) (simp_all add: acc_push_def min_max_push_def)
    moreover have "\<exists>e. e \<noteq> MinMaxEmpty \<and> min_max_values name vs = Inl e"
      using False by (cases c) (auto simp: min_max_values_def Cons min_max_step_def split: option.split)
    ultimately show ?thesis using Cons by fastforce
  qed
qed

subsection \<open>All built-in aggregates\<close>

definition builtin_aggregates :: "string set" where
  "builtin_aggregates = {''count'', ''count-distinct'', ''sum'', ''sum-distinct'', ''min'', ''max'', ''avg''}"

text \<open>The batch value of a group; a minimum or maximum without values removes the group's row.\<close>

definition agg_batch :: "string \<Rightarrow> value option list \<Rightarrow> agg_error + value option" where
  "agg_batch func xs =
     (case apply_builtin_aggregate func (nonnull xs) of
        Inr v \<Rightarrow> Inr (Some v)
      | Inl e \<Rightarrow> if e = MinMaxEmpty then Inr None else Inl e)"

lemma sum_values_not_empty: "sum_values vs \<noteq> Inl MinMaxEmpty"
proof -
  have "sum_floats vs f \<noteq> Inl MinMaxEmpty" for f
  proof (induction vs arbitrary: f)
    case (Cons v vs)
    then show ?case by (cases v) simp_all
  qed simp
  moreover have "sum_ints vs i \<noteq> Inl MinMaxEmpty" for i
  proof (induction vs arbitrary: i)
    case (Cons v vs)
    then show ?case by (cases v) simp_all
  qed simp
  ultimately show ?thesis
    by (cases "sum_floats vs f64_zero"; cases "sum_ints vs (I64 0)") (auto simp: sum_values_def)
qed

lemma builtin_cases:
  assumes "func \<in> builtin_aggregates"
  obtains "func = ''count''" | "func = ''count-distinct''" | "func = ''sum''" | "func = ''sum-distinct''"
    | "func = ''min'' \<or> func = ''max''" | "func = ''avg''"
  using assms unfolding builtin_aggregates_def by (elim insertE emptyE) simp_all

lemma agg_stream_run:
  "agg_stream reg func xs = res_bind (acc_new reg func) (\<lambda>a.
     res_bind (res_fold (\<lambda>v. acc_push reg func (Some v)) (nonnull xs) a) (acc_finish reg func))"
  by (simp add: agg_stream_def push_nonnull)

lemma stream_eq_min_max:
  assumes "func = ''min'' \<or> func = ''max''"
  shows "agg_stream reg func xs = Inr r \<longleftrightarrow> agg_batch func xs = Inr r"
proof -
  have new: "acc_new reg func = Inr (AccMinMax None (func = ''min''))" using assms by (auto simp: acc_new_def)
  have app: "apply_builtin_aggregate func vs = min_max_values func vs" for vs
    using assms by (auto simp: apply_builtin_aggregate_def)
  show ?thesis
    using stream_min_max [OF assms nonnull_Null, of xs reg]
    by (cases "min_max_values func (nonnull xs)")
      (auto simp: agg_stream_run new agg_batch_def app acc_finish_def split: if_splits)
qed

lemma agg_stream_batch:
  assumes "func \<in> builtin_aggregates"
  shows "agg_stream reg func xs = Inr r \<longleftrightarrow> agg_batch func xs = Inr r"
  using assms
proof (cases rule: builtin_cases)
  case 1
  have "i64_of_usize 0 = I64 0" by (simp add: i64_of_usize_def i64_of_int_def)
  then show ?thesis using 1 stream_count [of "nonnull xs" reg func 0]
    by (simp add: agg_stream_run agg_batch_def apply_builtin_aggregate_def acc_new_def acc_finish_def)
next
  case 2
  then show ?thesis using stream_count_distinct [of "nonnull xs" reg func "[]"]
    by (simp add: agg_stream_run agg_batch_def apply_builtin_aggregate_def acc_new_def acc_finish_def vset_of_def)
next
  case 3
  then show ?thesis using stream_sum_values [of "nonnull xs" reg func] sum_values_not_empty [of "nonnull xs"]
    by (cases "sum_values (nonnull xs)") (auto simp: agg_stream_run agg_batch_def apply_builtin_aggregate_def acc_new_def)
next
  case 4
  then have "res_fold (\<lambda>v. acc_push reg func (Some v)) (nonnull xs) (AccSumDistinct []) = Inr (AccSumDistinct (vset_of (nonnull xs)))"
    using stream_sum_distinct [of "nonnull xs" reg func "[]"] by (simp add: vset_of_def)
  then show ?thesis using 4 sum_values_not_empty [of "vset_of (nonnull xs)"]
    by (cases "sum_values (vset_of (nonnull xs))")
      (auto simp: agg_stream_run agg_batch_def apply_builtin_aggregate_def acc_new_def acc_finish_def)
next
  case 5
  then show ?thesis by (rule stream_eq_min_max)
next
  case 6
  then show ?thesis using stream_avg [of "nonnull xs" reg func f64_zero 0]
    by (auto simp: agg_stream_run agg_batch_def apply_builtin_aggregate_def acc_new_def acc_finish_def avg_values_def
        split: prod.splits)
qed

text \<open>C38: every built-in aggregate computes the same result streamed as in batch.  For any sequence of bound,
  null and missing values, the accumulator succeeds exactly when the batch function does, with the same
  value, including saturating integer sums, the order of floating additions, NaN, and values that compare
  equal; only for the minimum and maximum of no values the accumulator yields no row where the batch function
  reports an error.\<close>

theorem streaming_aggregates_correct:
  assumes "func \<in> builtin_aggregates"
  shows "agg_stream reg func xs = Inr r \<longleftrightarrow>
    (case apply_builtin_aggregate func (nonnull xs) of
       Inr v \<Rightarrow> r = Some v
     | Inl e \<Rightarrow> (func = ''min'' \<or> func = ''max'') \<and> nonnull xs = [] \<and> r = None)"
proof -
  have empty: "apply_builtin_aggregate func vs = Inl MinMaxEmpty \<longleftrightarrow> (func = ''min'' \<or> func = ''max'') \<and> vs = []" for vs
  proof (cases "func = ''min'' \<or> func = ''max''")
    case True
    then have f: "apply_builtin_aggregate func vs = min_max_values func vs" by (auto simp: apply_builtin_aggregate_def)
    have "vs = []" if "min_max_values func vs = Inl MinMaxEmpty"
      using that min_max_fold_not_empty [of func vs "hd vs"]
      by (cases vs) (auto simp: min_max_values_def simp del: res_fold.simps split: option.splits)
    then show ?thesis using True f by (auto simp: min_max_values_def)
  next
    case False
    then show ?thesis using assms sum_values_not_empty by (auto simp: builtin_aggregates_def apply_builtin_aggregate_def)
  qed
  show ?thesis unfolding agg_stream_batch [OF assms] agg_batch_def
    using empty [of "nonnull xs"] by (auto split: sum.splits)
qed

theorem streaming_aggregates_correct_witness:
  "agg_stream (with_builtins :: unit function_registry) ''sum'' [Some (Integer (I64 4)), None, Some Null, Some (Integer (I64 5))] =
     Inr (Some (Integer (I64 9)))"
proof -
  have nn: "nonnull [Some (Integer (I64 4)), None, Some Null, Some (Integer (I64 5))] = [Integer (I64 4), Integer (I64 5)]"
    by (simp add: nonnull_def)
  have "i64_saturating_add (I64 0) (I64 4) = I64 4" "i64_saturating_add (I64 4) (I64 5) = I64 9"
    by (simp_all add: i64_saturating_add_def i64_int_def i64_of_int_def)
  then have "apply_builtin_aggregate ''sum'' [Integer (I64 4), Integer (I64 5)] = Inr (Integer (I64 9))"
    by (simp add: apply_builtin_aggregate_def sum_values_def)
  then show ?thesis
    using streaming_aggregates_correct [of "''sum''" "with_builtins :: unit function_registry"
        "[Some (Integer (I64 4)), None, Some Null, Some (Integer (I64 5))]" "Some (Integer (I64 9))"]
    by (simp add: builtin_aggregates_def nn)
qed

section \<open>Groups\<close>

lemma cmp_Cons: "cmp (x # xs) (y # ys) = then_with (cmp x y) (cmp xs ys)" for x :: "'a :: linorder"
  by (auto simp: cmp_def)

lemma vec_cmp_rank: "vec_cmp vs ws = cmp (map value_rank vs) (map value_rank ws)"
  by (induction vs ws rule: vec_cmp.induct) (simp_all add: cmp_Cons value_cmp_rank, simp_all add: cmp_def)

interpretation vec_ord: total_cmp vec_cmp
  by unfold_locales (auto simp: vec_cmp_rank cmp_def split: if_splits)

lemma vec_cmp_eq_iff: "vec_cmp a b = Equal \<longleftrightarrow> map value_rank a = map value_rank b"
  by (auto simp: vec_cmp_rank cmp_def)

abbreviation same_key :: "value list \<Rightarrow> value list \<Rightarrow> bool" where
  "same_key k k' \<equiv> vec_cmp k k' = Equal"

lemma same_key_sym: "same_key a b \<longleftrightarrow> same_key b a"
  by (auto simp: vec_cmp_eq_iff)

lemma same_key_trans: "same_key a b \<Longrightarrow> same_key a c \<longleftrightarrow> same_key b c"
  by (auto simp: vec_cmp_eq_iff)

abbreviation vmap_sorted :: "(value list \<times> 'g) list \<Rightarrow> bool" where
  "vmap_sorted m \<equiv> sorted_wrt (\<lambda>x y. vec_cmp (fst x) (fst y) = Less) m"

lemma vmap_insert_mem: "vmap_sorted m \<Longrightarrow> (k0, g0) \<in> set (vmap_insert k g m) \<Longrightarrow> same_key k k0 \<and> g0 = g \<or> (k0, g0) \<in> set m"
  by (induction k g m rule: vmap_insert.induct) (auto simp: vec_ord.ord_refl split: ordering.splits)

lemma vmap_insert_other:
  "vmap_sorted m \<Longrightarrow> (k0, g0) \<in> set (vmap_insert k g m) \<Longrightarrow> \<not> same_key k k0 \<Longrightarrow> (k0, g0) \<in> set m"
  using vmap_insert_mem by fastforce

lemma vmap_insert_same:
  "vmap_sorted m \<Longrightarrow> (k0, g0) \<in> set (vmap_insert k g m) \<Longrightarrow> same_key k k0 \<Longrightarrow> g0 = g"
proof (induction m)
  case (Cons x m)
  obtain k' g' where x: "x = (k', g')" by (cases x)
  have less: "vec_cmp k' k1 = Less" if "(k1, g1) \<in> set m" for k1 g1 using Cons.prems(1) that x by fastforce
  show ?case
  proof (cases "vec_cmp k k'")
    case Less
    have "\<not> same_key k k0" if "(k0, g0) = (k', g') \<or> (k0, g0) \<in> set m"
      using that Less less [of k0 g0] vec_ord.less_le_trans [OF Less, of k0] by auto
    then show ?thesis using Cons.prems Less x by auto
  next
    case Equal
    have "\<not> same_key k k0" if "(k0, g0) \<in> set m" using less [OF that] same_key_trans [OF Equal, of k0] by simp
    then show ?thesis using Cons.prems Equal x by auto
  next
    case Greater
    then show ?thesis using Cons x by auto
  qed
qed simp

lemma vmap_insert_keys: "map fst (vmap_insert k g m) = map fst (vmap_insert k () (map (\<lambda>(k, _). (k, ())) m))"
  by (induction m rule: vmap_insert.induct) (auto split: ordering.split)

lemma vmap_insert_sorted: "vmap_sorted m \<Longrightarrow> vmap_sorted (vmap_insert k g m)"
proof (induction m)
  case (Cons x m)
  obtain k' g' where x: "x = (k', g')" by (cases x)
  have sym: "vec_cmp k' k = Less" if "vec_cmp k k' = Greater" using that vec_ord.ord_sym by blast
  have tr: "vec_cmp k k1 = Less" if "vec_cmp k k' = Less" "vec_cmp k' k1 = Less" for k1
    using vec_ord.less_le_trans [OF that(1), of k1] that(2) by simp
  have eq: "vec_cmp k' k1 = Less" if "same_key k k1" "vec_cmp k k' = Greater" for k1
    using vec_ord.less_le_trans [OF sym [OF that(2)], of k1] that(1) by simp
  show ?case
  proof (cases "vec_cmp k k'")
    case Greater
    have "vec_cmp k' (fst y) = Less" if "y \<in> set (vmap_insert k g m)" for y
      using vmap_insert_mem [of m "fst y" "snd y" k g] that Cons.prems x eq [OF _ Greater] by fastforce
    then show ?thesis using Cons Greater x by simp
  qed (use Cons x tr in auto)
qed simp

lemma vmap_get_Some: "vmap_get m k = Some g \<Longrightarrow> \<exists>k'. (k', g) \<in> set m \<and> same_key k k'"
  by (induction m k rule: vmap_get.induct) (auto split: if_splits)

lemma vmap_get_None: "vmap_get m k = None \<Longrightarrow> (k', g) \<in> set m \<Longrightarrow> \<not> same_key k k'"
  by (induction m k rule: vmap_get.induct) (auto split: if_splits)

lemma vmap_insert_covers: "\<exists>k'. k' \<in> fst ` set (vmap_insert k g m) \<and> same_key k k'"
  by (induction k g m rule: vmap_insert.induct) (auto simp: vec_ord.ord_refl split: ordering.split intro: rev_bexI)

lemma vmap_insert_keeps: "fst ` set m \<subseteq> fst ` set (vmap_insert k g m)"
  by (induction m rule: vmap_insert.induct) (auto split: ordering.split)

definition row_key :: "string list \<Rightarrow> bindings \<Rightarrow> value list" where
  "row_key vars b = sink_key vars (hm_get b)"

definition group_keys :: "string list \<Rightarrow> bindings list \<Rightarrow> value list list" where
  "group_keys vars rows = map fst (fold (\<lambda>b. vmap_insert (row_key vars b) ()) rows [])"

definition rows_of :: "string list \<Rightarrow> bindings list \<Rightarrow> value list \<Rightarrow> bindings list" where
  "rows_of vars rows k = filter (\<lambda>b. same_key (row_key vars b) k) rows"

definition group_run :: "find_spec list \<Rightarrow> 'u function_registry \<Rightarrow> bindings list \<Rightarrow> agg_error + 'u agg_group" where
  "group_run specs reg rows =
     res_bind (make_group specs reg) (res_fold (\<lambda>b. push_group specs reg (hm_get b)) rows)"

lemma group_run_snoc:
  fixes reg :: "'u function_registry"
  shows "group_run specs reg (rows @ [b]) = res_bind (group_run specs reg rows) (push_group specs reg (hm_get b))"
proof (cases "make_group specs reg")
  case (Inr g)
  have "res_fold f [] = Inr" for f :: "bindings \<Rightarrow> 'u agg_group \<Rightarrow> agg_error + 'u agg_group" by (rule ext) simp
  then show ?thesis using Inr
    by (cases "res_fold (\<lambda>b. push_group specs reg (hm_get b)) rows g") (simp_all add: group_run_def)
qed (simp add: group_run_def)

lemma group_keys_snoc:
  "group_keys vars (rows @ [b]) = map fst (vmap_insert (row_key vars b) () (map (\<lambda>k. (k, ())) (group_keys vars rows)))"
proof -
  have "map (\<lambda>k. (k, ())) (map fst m) = m" for m :: "(value list \<times> unit) list"
    by (induction m) auto
  then show ?thesis by (simp add: group_keys_def)
qed

text \<open>The groups after some rows: sorted, one for every key, each the run of its rows.\<close>

definition groups_ok ::
    "find_spec list \<Rightarrow> 'u function_registry \<Rightarrow> string list \<Rightarrow> bindings list \<Rightarrow> (value list \<times> 'u agg_group) list \<Rightarrow> bool" where
  "groups_ok specs reg vars rows groups \<longleftrightarrow>
     vmap_sorted groups \<and> map fst groups = group_keys vars rows \<and>
     (\<forall>(k, g) \<in> set groups. group_run specs reg (rows_of vars rows k) = Inr g)"

lemma groups_ok_Nil: "groups_ok specs reg vars [] []"
  by (simp add: groups_ok_def group_keys_def)

lemma rows_of_same: "same_key k k' \<Longrightarrow> rows_of vars rows k = rows_of vars rows k'"
  unfolding rows_of_def using same_key_trans same_key_sym by (metis (no_types, lifting))

lemma rows_of_new:
  assumes "\<And>k'. k' \<in> set (group_keys vars rows) \<Longrightarrow> \<not> same_key k k'"
  shows "rows_of vars rows k = []"
  using assms
proof (induction rows rule: rev_induct)
  case (snoc b rows)
  let ?m = "map (\<lambda>k. (k, ())) (group_keys vars rows)"
  have keys: "set (group_keys vars (rows @ [b])) = fst ` set (vmap_insert (row_key vars b) () ?m)"
    by (simp add: group_keys_snoc)
  have "fst ` set ?m = set (group_keys vars rows)" by (simp add: image_image)
  then have keep: "set (group_keys vars rows) \<subseteq> set (group_keys vars (rows @ [b]))"
    unfolding keys using vmap_insert_keeps [of ?m "row_key vars b" "()"] by simp
  obtain k' where k': "k' \<in> set (group_keys vars (rows @ [b]))" "same_key (row_key vars b) k'"
    unfolding keys using vmap_insert_covers [of "row_key vars b" "()" ?m] by blast
  have "\<not> same_key (row_key vars b) k"
    using snoc.prems [OF k'(1)] k'(2) same_key_trans [of "row_key vars b" k k'] by blast
  moreover have "rows_of vars rows k = []" using snoc.IH snoc.prems keep by blast
  ultimately show ?case by (simp add: rows_of_def)
qed (simp add: rows_of_def)

lemma groups_ok_lookup:
  assumes "groups_ok specs reg vars rows groups"
  shows "(case vmap_get groups (row_key vars b) of Some g \<Rightarrow> Inr g | None \<Rightarrow> make_group specs reg) =
    group_run specs reg (rows_of vars rows (row_key vars b))"
proof (cases "vmap_get groups (row_key vars b)")
  case None
  have keys: "map fst groups = group_keys vars rows" using assms by (simp add: groups_ok_def)
  have "\<not> same_key (row_key vars b) k'" if "k' \<in> set (group_keys vars rows)" for k'
  proof -
    have "k' \<in> fst ` set groups" using that unfolding keys [symmetric] by simp
    then obtain h where "(k', h) \<in> set groups" by force
    then show ?thesis by (rule vmap_get_None [OF None])
  qed
  then have "rows_of vars rows (row_key vars b) = []" by (rule rows_of_new)
  then show ?thesis using None by (cases "make_group specs reg") (simp_all add: group_run_def)
next
  case (Some h)
  then have "\<exists>k'. (k', h) \<in> set groups \<and> same_key (row_key vars b) k'" by (rule vmap_get_Some)
  then obtain k' where k': "(k', h) \<in> set groups" "same_key (row_key vars b) k'" by blast
  then have "group_run specs reg (rows_of vars rows k') = Inr h" using assms by (auto simp: groups_ok_def)
  then show ?thesis using Some rows_of_same [OF k'(2), of vars rows] by simp
qed

lemma groups_ok_push:
  assumes "groups_ok specs reg vars rows groups"
    and "group_run specs reg (rows_of vars rows (row_key vars b)) = Inr g"
    and "push_group specs reg (hm_get b) g = Inr g'"
  shows "groups_ok specs reg vars (rows @ [b]) (vmap_insert (row_key vars b) g' groups)"
proof -
  let ?k = "row_key vars b"
  have sorted: "vmap_sorted groups" and keys: "map fst groups = group_keys vars rows"
    and run: "\<And>k g. (k, g) \<in> set groups \<Longrightarrow> group_run specs reg (rows_of vars rows k) = Inr g"
    using assms(1) by (auto simp: groups_ok_def)
  have "group_run specs reg (rows_of vars (rows @ [b]) k0) = Inr g0" if m: "(k0, g0) \<in> set (vmap_insert ?k g' groups)" for k0 g0
  proof (cases "same_key ?k k0")
    case True
    then have "rows_of vars (rows @ [b]) k0 = rows_of vars rows ?k @ [b]"
      using rows_of_same [OF True, of vars rows] by (simp add: rows_of_def)
    then show ?thesis using vmap_insert_same [OF sorted m True] assms(2,3) by (simp add: group_run_snoc)
  next
    case False
    then show ?thesis using run [OF vmap_insert_other [OF sorted m False]] by (simp add: rows_of_def)
  qed
  moreover have "map fst (vmap_insert ?k g' groups) = group_keys vars (rows @ [b])"
  proof -
    have "map (\<lambda>(k, _). (k, ())) groups = map (\<lambda>k. (k, ())) (group_keys vars rows)" by (simp add: keys [symmetric] case_prod_beta)
    then show ?thesis by (simp add: vmap_insert_keys [of ?k g'] group_keys_snoc)
  qed
  ultimately show ?thesis using vmap_insert_sorted [OF sorted] by (auto simp: groups_ok_def)
qed

subsection \<open>The sink's state\<close>

definition sink_view :: "'u aggregation_sink \<Rightarrow> (value list \<times> 'u agg_group) list" where
  "sink_view s = (case sk_global s of Some g \<Rightarrow> [([], g)] | None \<Rightarrow> sk_groups s)"

definition sink_inv ::
    "find_spec list \<Rightarrow> 'u function_registry \<Rightarrow> string list \<Rightarrow> bindings list \<Rightarrow> 'u aggregation_sink \<Rightarrow> bool" where
  "sink_inv specs reg vars rows s \<longleftrightarrow>
     sk_specs s = specs \<and> sk_registry s = reg \<and> sk_group_vars s = vars \<and> sk_saw s = (rows \<noteq> []) \<and>
     (if vars = [] then sk_groups s = [] else sk_global s = None) \<and> groups_ok specs reg vars rows (sink_view s)"

lemma sink_push_ok:
  assumes "sink_inv specs reg vars rows s"
    and "group_run specs reg (rows_of vars rows (row_key vars b)) = Inr g" and "push_group specs reg (hm_get b) g = Inr g'"
  shows "\<exists>s'. sink_push b s = Inr s' \<and> sink_inv specs reg vars (rows @ [b]) s'"
proof -
  have ok: "groups_ok specs reg vars rows (sink_view s)" and s: "sk_specs s = specs" "sk_registry s = reg" "sk_group_vars s = vars"
    using assms(1) by (simp_all add: sink_inv_def)
  have look: "(case vmap_get (sink_view s) (row_key vars b) of Some g \<Rightarrow> Inr g | None \<Rightarrow> make_group specs reg) = Inr g"
    using groups_ok_lookup [OF ok, of b] assms(2) by simp
  have next_ok: "groups_ok specs reg vars (rows @ [b]) (vmap_insert (row_key vars b) g' (sink_view s))"
    by (rule groups_ok_push [OF ok assms(2,3)])
  show ?thesis
  proof (cases "vars = []")
    case True
    then have k: "row_key vars b = []" "sk_groups s = []" using assms(1) by (simp_all add: row_key_def sink_key_def sink_inv_def)
    then have "(case sk_global s of Some g \<Rightarrow> Inr g | None \<Rightarrow> make_group (sk_specs s) (sk_registry s)) = Inr g"
      using look s by (cases "sk_global s") (simp_all add: sink_view_def)
    moreover have "vmap_insert [] g' (sink_view s) = [([], g')]" using k by (cases "sk_global s") (simp_all add: sink_view_def)
    ultimately show ?thesis using True s k assms(3) next_ok
      by (simp add: sink_push_def push_values_def sink_inv_def sink_view_def)
  next
    case False
    then have g: "sk_global s = None" using assms(1) by (simp add: sink_inv_def)
    then have "(case vmap_get (sk_groups s) (sink_key vars (hm_get b)) of Some g \<Rightarrow> Inr g
        | None \<Rightarrow> make_group (sk_specs s) (sk_registry s)) = Inr g"
      unfolding s using look g by (simp add: sink_view_def row_key_def)
    then show ?thesis using False s g assms(3) next_ok
      by (simp add: sink_push_def push_values_def sink_inv_def sink_view_def row_key_def)
  qed
qed

text \<open>As long as the runs of all groups succeed, so does the sink.\<close>

lemma group_run_prefix: "group_run specs reg (rows @ rest) = Inr g \<Longrightarrow> \<exists>g'. group_run specs reg rows = Inr g'"
  by (cases "make_group specs reg"; cases "group_run specs reg rows") (auto simp: group_run_def)

lemma group_keys_keep: "set (group_keys vars rows) \<subseteq> set (group_keys vars (rows @ [b]))"
  using vmap_insert_keeps [of "map (\<lambda>k. (k, ())) (group_keys vars rows)" "row_key vars b" "()"]
  by (simp add: group_keys_snoc image_image)

lemma group_keys_cover: "\<exists>k \<in> set (group_keys vars (rows @ [b])). same_key (row_key vars b) k"
  using vmap_insert_covers [of "row_key vars b" "()" "map (\<lambda>k. (k, ())) (group_keys vars rows)"]
  by (auto simp: group_keys_snoc)

lemma sink_fold_ok:
  assumes "\<And>k. k \<in> set (group_keys vars rows) \<Longrightarrow> \<exists>g. group_run specs reg (rows_of vars rows k) = Inr g"
    and "vars = group_vars specs with_vars"
  shows "\<exists>s. res_fold sink_push rows (sink_new specs with_vars reg) = Inr s \<and> sink_inv specs reg vars rows s"
  using assms(1)
proof (induction rows rule: rev_induct)
  case Nil
  show ?case using assms(2) by (simp add: sink_inv_def sink_new_def sink_view_def groups_ok_Nil)
next
  case (snoc b rows)
  have "\<exists>g. group_run specs reg (rows_of vars rows k) = Inr g" if "k \<in> set (group_keys vars rows)" for k
  proof -
    have "k \<in> set (group_keys vars (rows @ [b]))" using that group_keys_keep [of vars rows b] by blast
    then obtain g where g: "group_run specs reg (rows_of vars (rows @ [b]) k) = Inr g" using snoc.prems by blast
    have "rows_of vars (rows @ [b]) k = rows_of vars rows k @ rows_of vars [b] k" by (simp add: rows_of_def)
    then show ?thesis using group_run_prefix g by metis
  qed
  then obtain s where s: "res_fold sink_push rows (sink_new specs with_vars reg) = Inr s" "sink_inv specs reg vars rows s"
    using snoc.IH by blast
  obtain k where k: "k \<in> set (group_keys vars (rows @ [b]))" "same_key (row_key vars b) k" using group_keys_cover by blast
  obtain g' where "group_run specs reg (rows_of vars (rows @ [b]) k) = Inr g'" using snoc.prems [OF k(1)] by blast
  moreover have "rows_of vars (rows @ [b]) k = rows_of vars rows (row_key vars b) @ [b]"
    using rows_of_same [OF k(2), of vars rows] k(2) by (simp add: rows_of_def)
  ultimately obtain g where "group_run specs reg (rows_of vars rows (row_key vars b)) = Inr g" "push_group specs reg (hm_get b) g = Inr g'"
    by (auto simp: group_run_snoc res_bind_Inr)
  then show ?case using sink_push_ok [OF s(2)] s(1) by (auto simp: res_bind_Inr)
qed

subsection \<open>One row per group\<close>

definition agg_items :: "find_spec list \<Rightarrow> (nat \<times> string \<times> string) list" where
  "agg_items specs =
     List.map_filter (\<lambda>(i, spec). case spec of FindAggregate func var \<Rightarrow> Some (i, func, var) | _ \<Rightarrow> None) (enumerate 0 specs)"

definition batch_value :: "string \<Rightarrow> string \<Rightarrow> bindings list \<Rightarrow> value option" where
  "batch_value func var rows = (case agg_batch func (map (\<lambda>b. hm_get b var) rows) of Inr r \<Rightarrow> r | Inl _ \<Rightarrow> None)"

fun agg_row :: "(nat \<times> string \<times> string) list \<Rightarrow> bindings list \<Rightarrow> bindings \<Rightarrow> bindings option" where
  "agg_row [] rows b = Some b"
| "agg_row ((i, func, var) # items) rows b =
     (case batch_value func var rows of
        Some v \<Rightarrow> agg_row items rows (hm_insert (agg_key i) v b)
      | None \<Rightarrow> None)"

lemma agg_items_spec: "(i, func, var) \<in> set (agg_items specs) \<Longrightarrow> list_get specs i = Some (FindAggregate func var)"
  by (auto simp: agg_items_def List.map_filter_def in_set_enumerate_eq list_get_Some_iff split: find_spec.splits)

lemma res_map_map: "res_map f (map g xs) = res_map (\<lambda>x. f (g x)) xs"
  by (induction xs) simp_all

lemma res_map_ok: "(\<And>x. x \<in> set xs \<Longrightarrow> f x = Inr (g x)) \<Longrightarrow> res_map f xs = Inr (map g xs)"
  by (induction xs) auto

lemma make_group_items:
  "make_group specs reg = res_map (\<lambda>x. res_bind (acc_new reg (fst (snd x))) (\<lambda>a. Inr (fst x, fst (snd x), a))) (agg_items specs)"
proof -
  have "List.map_filter (\<lambda>(i, spec). case spec of FindAggregate func _ \<Rightarrow> Some (i, func) | _ \<Rightarrow> None) xs =
      map (\<lambda>x. (fst x, fst (snd x)))
        (List.map_filter (\<lambda>(i, spec). case spec of FindAggregate func var \<Rightarrow> Some (i, func, var) | _ \<Rightarrow> None) xs)" for xs :: "(nat \<times> find_spec) list"
    by (induction xs) (auto simp: List.map_filter_simps split: find_spec.splits)
  then show ?thesis by (simp add: make_group_def agg_items_def res_map_map)
qed

lemma push_group_items:
  assumes "\<And>i f v. (i, f, v) \<in> set items \<Longrightarrow> list_get specs i = Some (FindAggregate f v)"
    and "\<And>x. x \<in> set items \<Longrightarrow> res_fold (\<lambda>b. acc_push reg (fst (snd x)) (hm_get b (snd (snd x)))) rows (A x) = Inr (A' x)"
  shows "res_fold (\<lambda>b. push_group specs reg (hm_get b)) rows (map (\<lambda>x. (fst x, fst (snd x), A x)) items) =
    Inr (map (\<lambda>x. (fst x, fst (snd x), A' x)) items)"
  using assms(2)
proof (induction rows arbitrary: A)
  case Nil
  then have "A x = A' x" if "x \<in> set items" for x using that by fastforce
  then show ?case by simp
next
  case (Cons b rows)
  let ?B = "\<lambda>x. projr (acc_push reg (fst (snd x)) (hm_get b (snd (snd x))) (A x))"
  have step: "acc_push reg (fst (snd x)) (hm_get b (snd (snd x))) (A x) = Inr (?B x)" if "x \<in> set items" for x
    using Cons.prems [OF that] by (auto simp: res_bind_Inr)
  have spec: "list_get specs (fst x) = Some (FindAggregate (fst (snd x)) (snd (snd x)))" if "x \<in> set items" for x
    using assms(1) [of "fst x" "fst (snd x)" "snd (snd x)"] that by simp
  have "push_group specs reg (hm_get b) (map (\<lambda>x. (fst x, fst (snd x), A x)) items) =
      Inr (map (\<lambda>x. (fst x, fst (snd x), ?B x)) items)"
    unfolding push_group_def res_map_map by (rule res_map_ok) (simp add: spec, subst step, simp_all)
  moreover have "res_fold (\<lambda>b. acc_push reg (fst (snd x)) (hm_get b (snd (snd x)))) rows (?B x) = Inr (A' x)" if mem: "x \<in> set items" for x
  proof -
    obtain a where "acc_push reg (fst (snd x)) (hm_get b (snd (snd x))) (A x) = Inr a" using step [OF mem] by blast
    then show ?thesis using Cons.prems [OF mem] by simp
  qed
  ultimately show ?case using Cons.IH [of ?B] by simp
qed

lemma group_run_batch:
  assumes "\<And>i f v. (i, f, v) \<in> set (agg_items specs) \<Longrightarrow>
      f \<in> builtin_aggregates \<and> (\<exists>r. agg_batch f (map (\<lambda>b. hm_get b v) rows) = Inr r)"
  shows "\<exists>g. group_run specs reg rows = Inr g \<and> (\<forall>b. finish_group reg g b = Inr (agg_row (agg_items specs) rows b))"
proof -
  let ?items = "agg_items specs"
  let ?new = "\<lambda>x. projr (acc_new reg (fst (snd x)))"
  let ?run = "\<lambda>x. projr (res_fold (\<lambda>b. acc_push reg (fst (snd x)) (hm_get b (snd (snd x)))) rows (?new x))"
  have item: "acc_new reg (fst (snd x)) = Inr (?new x) \<and>
      res_fold (\<lambda>b. acc_push reg (fst (snd x)) (hm_get b (snd (snd x)))) rows (?new x) = Inr (?run x) \<and>
      acc_finish reg (fst (snd x)) (?run x) = Inr (batch_value (fst (snd x)) (snd (snd x)) rows)"
    if mem: "x \<in> set ?items" for x
  proof -
    obtain i f v where x: "x = (i, f, v)" by (cases x)
    obtain r where r: "f \<in> builtin_aggregates" "agg_batch f (map (\<lambda>b. hm_get b v) rows) = Inr r"
      using assms [of i f v] mem x by blast
    then have "agg_stream reg f (map (\<lambda>b. hm_get b v) rows) = Inr r" by (simp add: agg_stream_batch)
    then show ?thesis using r x
      by (auto simp: agg_stream_def res_bind_Inr res_fold_map batch_value_def)
  qed
  have "make_group specs reg = Inr (map (\<lambda>x. (fst x, fst (snd x), ?new x)) ?items)"
    unfolding make_group_items
  proof (rule res_map_ok)
    fix x assume "x \<in> set ?items"
    then obtain a where "acc_new reg (fst (snd x)) = Inr a" using item by blast
    then show "res_bind (acc_new reg (fst (snd x))) (\<lambda>a. Inr (fst x, fst (snd x), a)) = Inr (fst x, fst (snd x), ?new x)"
      by simp
  qed
  then have run: "group_run specs reg rows = Inr (map (\<lambda>x. (fst x, fst (snd x), ?run x)) ?items)"
    unfolding group_run_def using push_group_items [of ?items specs reg rows ?new ?run] agg_items_spec item by simp
  have fin: "finish_group reg (map (\<lambda>x. (fst x, fst (snd x), R x)) items) b = Inr (agg_row items rows b)"
    if "\<And>x. x \<in> set items \<Longrightarrow> acc_finish reg (fst (snd x)) (R x) = Inr (batch_value (fst (snd x)) (snd (snd x)) rows)"
    for items b R
    using that by (induction items arbitrary: b) (auto split: option.split)
  show ?thesis by (intro exI conjI allI, rule run, rule fin) (use item in blast)
qed

text \<open>C6: aggregation returns one row per group.  When the batch aggregates of every group are defined, the
  result lists, in the order of the group keys, the key's variables together with the batch aggregates of
  exactly those input rows whose key compares equal, leaving out a group whose minimum or maximum has no
  values; without any input row there is no group, and only a query for counts alone yields a row of
  zeros.\<close>

theorem compute_aggregation_groups:
  assumes "vars = group_vars specs with_vars"
    and "\<And>i f v k. (i, f, v) \<in> set (agg_items specs) \<Longrightarrow> k \<in> set (group_keys vars rows) \<Longrightarrow>
      f \<in> builtin_aggregates \<and> (\<exists>r. agg_batch f (map (\<lambda>b. hm_get b v) (rows_of vars rows k)) = Inr r)"
  shows "compute_aggregation rows specs with_vars reg = Inr
    (if rows = [] then finish_empty specs
     else keep_some (map (\<lambda>k. agg_row (agg_items specs) (rows_of vars rows k) (key_row specs k)) (group_keys vars rows)))"
proof -
  have run: "\<exists>g. group_run specs reg (rows_of vars rows k) = Inr g \<and>
      (\<forall>b. finish_group reg g b = Inr (agg_row (agg_items specs) (rows_of vars rows k) b))"
    if "k \<in> set (group_keys vars rows)" for k
    by (rule group_run_batch) (use assms(2) that in blast)
  then obtain s where s: "res_fold sink_push rows (sink_new specs with_vars reg) = Inr s" "sink_inv specs reg vars rows s"
    using sink_fold_ok [OF _ assms(1), of rows reg] by blast
  show ?thesis
  proof (cases "rows = []")
    case True
    then show ?thesis using s by (simp add: compute_aggregation_def sink_finish_def sink_inv_def)
  next
    case False
    have ok: "groups_ok specs reg vars rows (sink_view s)" using s(2) by (simp add: sink_inv_def)
    have "finish_group reg g (key_row specs k) = Inr (agg_row (agg_items specs) (rows_of vars rows k) (key_row specs k))"
      if "(k, g) \<in> set (sink_view s)" for k g
    proof -
      have g: "group_run specs reg (rows_of vars rows k) = Inr g" using ok that by (auto simp: groups_ok_def)
      have "k \<in> set (map fst (sink_view s))" using that by force
      then have "k \<in> set (group_keys vars rows)" using ok by (simp only: groups_ok_def)
      then show ?thesis using run [of k] g by auto
    qed
    then have "res_map (\<lambda>(key, g). finish_group reg g (key_row specs key)) (sink_view s) =
        Inr (map (\<lambda>x. agg_row (agg_items specs) (rows_of vars rows (fst x)) (key_row specs (fst x))) (sink_view s))"
      by (intro res_map_ok) auto
    also have "map (\<lambda>x. h (fst x)) (sink_view s) = map h (group_keys vars rows)" for h :: "value list \<Rightarrow> bindings option"
    proof -
      have "map (\<lambda>x. h (fst x)) (sink_view s) = map h (map fst (sink_view s))" by simp
      then show ?thesis using ok by (simp only: groups_ok_def)
    qed
    finally have "res_map (\<lambda>(key, g). finish_group reg g (key_row specs key)) (sink_view s) =
        Inr (map (\<lambda>k. agg_row (agg_items specs) (rows_of vars rows k) (key_row specs k)) (group_keys vars rows))" .
    moreover have "sink_finish s = finish_groups specs reg (sink_view s)"
      using s(2) False by (cases "sk_global s") (auto simp: sink_finish_def sink_inv_def sink_view_def split: if_splits)
    ultimately show ?thesis using False s(1) by (simp add: compute_aggregation_def finish_groups_def)
  qed
qed

theorem compute_aggregation_groups_witness:
  "let rows = [[(''?d'', String ''x''), (''?n'', Integer (I64 2))], [(''?d'', String ''y''), (''?n'', Null)],
        [(''?d'', String ''x''), (''?n'', Integer (I64 3))]];
       specs = [FindVariable ''?d'', FindAggregate ''sum'' ''?n'', FindAggregate ''min'' ''?n''] in
   compute_aggregation rows specs [] (with_builtins :: unit function_registry) =
     Inr [[(''?d'', String ''x''), (''__agg_1'', Integer (I64 5)), (''__agg_2'', Integer (I64 2))]]"
proof -
  let ?rows = "[[(''?d'', String ''x''), (''?n'', Integer (I64 2))], [(''?d'', String ''y''), (''?n'', Null)],
        [(''?d'', String ''x''), (''?n'', Integer (I64 3))]] :: bindings list"
  let ?specs = "[FindVariable ''?d'', FindAggregate ''sum'' ''?n'', FindAggregate ''min'' ''?n'']"
  have vars: "group_vars ?specs [] = [''?d'']" by (simp add: group_vars_def List.map_filter_simps)
  have items: "agg_items ?specs = [(1, ''sum'', ''?n''), (2, ''min'', ''?n'')]"
    by (simp add: agg_items_def List.map_filter_simps)
  have keys: "group_keys [''?d''] ?rows = [[String ''x''], [String ''y'']]"
    by (simp add: group_keys_def row_key_def sink_key_def cmp_def)
  have rows: "rows_of [''?d''] ?rows [String ''x''] = [?rows ! 0, ?rows ! 2]" "rows_of [''?d''] ?rows [String ''y''] = [?rows ! 1]"
    by (simp_all add: rows_of_def row_key_def sink_key_def cmp_def)
  have ints: "i64_saturating_add (I64 0) (I64 2) = I64 2" "i64_saturating_add (I64 2) (I64 3) = I64 5"
      "\<not> I64 2 < I64 2" "I64 2 < I64 3"
    by (simp_all add: i64_saturating_add_def i64_int_def i64_of_int_def less_i64_def)
  have batch: "agg_batch ''sum'' [Some (Integer (I64 2)), Some (Integer (I64 3))] = Inr (Some (Integer (I64 5)))"
      "agg_batch ''min'' [Some (Integer (I64 2)), Some (Integer (I64 3))] = Inr (Some (Integer (I64 2)))"
      "agg_batch ''sum'' [Some Null] = Inr (Some (Integer (I64 0)))" "agg_batch ''min'' [Some Null] = Inr None"
    by (simp_all add: agg_batch_def nonnull_def apply_builtin_aggregate_def sum_values_def min_max_values_def
        min_max_step_def ints cmp_def)
  have key: "agg_key (Suc 0) = ''__agg_1''" "agg_key 2 = ''__agg_2''"
    by (simp_all add: agg_key_def usize_string.simps char_of_def bit_Suc_0_iff)
  have kr: "key_row ?specs [String ''x''] = [(''?d'', String ''x'')]"
    by (simp add: key_row_def List.map_filter_simps list_get_def)
  have "compute_aggregation ?rows ?specs [] (with_builtins :: unit function_registry) = Inr (if ?rows = [] then finish_empty ?specs
     else keep_some (map (\<lambda>k. agg_row (agg_items ?specs) (rows_of [''?d''] ?rows k) (key_row ?specs k)) (group_keys [''?d''] ?rows)))"
    by (rule compute_aggregation_groups [OF vars [symmetric]])
      (unfold items keys, auto simp: rows batch builtin_aggregates_def)
  then show ?thesis unfolding Let_def items keys by (simp add: rows batch batch_value_def key kr)
qed

end
