(* ===== verification/Matcher.thy ===== *)
theory Matcher
  imports Expressions Fact_Store
begin

text \<open>
  Pattern matching (\<open>query/datalog/matcher.rs\<close>): matching one fact against a pattern, the nested-loop join,
  the hash join with its normalisation of entity keywords, and the variants with a row limit.  Parsing,
  deriving and printing UUIDs are the operations of the record \<open>uuid_api\<close>.  The lemmas show that the hash
  join returns the rows of the nested loop, that both compute the answers of a conjunctive query, and that
  the row limit either rejects a query or changes nothing.
\<close>

section \<open>Entities and values\<close>

record uuid_api =
  parse_str :: "string \<Rightarrow> uuid option"
  new_v5 :: "bytes \<Rightarrow> uuid"
  uuid_string :: "uuid \<Rightarrow> string"

datatype convert_error = UnboundVariable string | NotAValue edn_value | NotAnEntity edn_value

fun edn_to_value :: "edn_value \<Rightarrow> convert_error + value" where
  "edn_to_value (EString s) = Inr (String s)"
| "edn_to_value (EInteger i) = Inr (Integer i)"
| "edn_to_value (EFloat f) = Inr (Float f)"
| "edn_to_value (EBoolean b) = Inr (Boolean b)"
| "edn_to_value (EKeyword k) = Inr (Keyword k)"
| "edn_to_value (EUuid u) = Inr (Ref u)"
| "edn_to_value ENil = Inr Null"
| "edn_to_value (ESymbol s) = (if starts_with s ''?'' then Inl (UnboundVariable s) else Inl (NotAValue (ESymbol s)))"
| "edn_to_value e = Inl (NotAValue e)"

definition keyword_id :: "uuid_api \<Rightarrow> string \<Rightarrow> uuid" where
  "keyword_id u k = (case parse_str u (dropWhile (\<lambda>c. c = CHR '':'') k) of Some i \<Rightarrow> i | None \<Rightarrow> new_v5 u (as_bytes k))"

fun edn_to_entity_id :: "uuid_api \<Rightarrow> edn_value \<Rightarrow> convert_error + uuid" where
  "edn_to_entity_id u (EKeyword k) = Inr (keyword_id u k)"
| "edn_to_entity_id u (EUuid i) = Inr i"
| "edn_to_entity_id u e = Inl (NotAnEntity e)"

fun matcher_value_to_edn :: "value \<Rightarrow> edn_value" where
  "matcher_value_to_edn (String s) = EString s"
| "matcher_value_to_edn (Integer i) = EInteger i"
| "matcher_value_to_edn (Float f) = EFloat f"
| "matcher_value_to_edn (Boolean b) = EBoolean b"
| "matcher_value_to_edn (Ref i) = EUuid i"
| "matcher_value_to_edn (Keyword k) = EKeyword k"
| "matcher_value_to_edn Null = ENil"

fun normalize_join_value :: "uuid_api \<Rightarrow> value \<Rightarrow> value" where
  "normalize_join_value u (Keyword k) =
     (case edn_to_entity_id u (EKeyword k) of Inr i \<Rightarrow> Ref i | Inl _ \<Rightarrow> Keyword k)"
| "normalize_join_value u v = v"

section \<open>One fact\<close>

datatype matcher_storage = Owned fact_store | Slice "fact list"

record pattern_matcher =
  pm_storage :: matcher_storage
  pm_valid_at_value :: "value"
  pm_retain :: bool

definition matcher_new :: "fact_store \<Rightarrow> pattern_matcher" where
  "matcher_new s = \<lparr> pm_storage = Owned s, pm_valid_at_value = Null, pm_retain = False \<rparr>"

definition matcher_from_slice :: "fact list \<Rightarrow> pattern_matcher" where
  "matcher_from_slice fs = \<lparr> pm_storage = Slice fs, pm_valid_at_value = Null, pm_retain = False \<rparr>"

definition matcher_with_metadata :: "fact list \<Rightarrow> value \<Rightarrow> bool \<Rightarrow> pattern_matcher" where
  "matcher_with_metadata fs v retain = \<lparr> pm_storage = Slice fs, pm_valid_at_value = v, pm_retain = retain \<rparr>"

definition get_facts :: "pattern_matcher \<Rightarrow> fact list" where
  "get_facts m =
     (case pm_storage m of
        Owned s \<Rightarrow> (case get_asserted_facts s of Inr fs \<Rightarrow> fs | Inl _ \<Rightarrow> [])
      | Slice fs \<Rightarrow> fs)"

definition is_wildcard :: "string \<Rightarrow> bool" where
  "is_wildcard s \<longleftrightarrow> s = ''_'' \<or> starts_with s ''?_''"

definition match_attribute_component :: "edn_value \<Rightarrow> attribute \<Rightarrow> bindings \<Rightarrow> bindings option" where
  "match_attribute_component c a b =
     (case c of
        ESymbol s \<Rightarrow>
          if is_wildcard s then Some b
          else if starts_with s ''?'' then
            (case hm_get b s of
               Some existing \<Rightarrow> if existing = Keyword a then Some b else None
             | None \<Rightarrow> Some (hm_insert s (Keyword a) b))
          else None
      | EKeyword k \<Rightarrow> if k = a then Some b else None
      | _ \<Rightarrow> None)"

text \<open>A constant component against a value.\<close>

fun const_matches :: "uuid_api \<Rightarrow> edn_value \<Rightarrow> value \<Rightarrow> bool" where
  "const_matches u (EKeyword k) v =
     (case v of
        Keyword k' \<Rightarrow> k = k'
      | Ref i \<Rightarrow> (case edn_to_entity_id u (EKeyword k) of Inr e \<Rightarrow> e = i | Inl _ \<Rightarrow> False)
      | _ \<Rightarrow> False)"
| "const_matches u (EString s) v = (case v of String s' \<Rightarrow> s = s' | _ \<Rightarrow> False)"
| "const_matches u (EInteger i) v = (case v of Integer i' \<Rightarrow> i = i' | _ \<Rightarrow> False)"
| "const_matches u (EFloat f) v = (case v of Float f' \<Rightarrow> f64_near f f' | _ \<Rightarrow> False)"
| "const_matches u (EBoolean b) v = (case v of Boolean b' \<Rightarrow> b = b' | _ \<Rightarrow> False)"
| "const_matches u (EUuid i) v =
     (case v of
        Ref i' \<Rightarrow> i = i'
      | Keyword k \<Rightarrow> (case edn_to_entity_id u (EKeyword k) of Inr e \<Rightarrow> i = e | Inl _ \<Rightarrow> False)
      | _ \<Rightarrow> False)"
| "const_matches u ENil v = (v = Null)"
| "const_matches u _ v = False"

definition match_component :: "uuid_api \<Rightarrow> edn_value \<Rightarrow> value \<Rightarrow> bindings \<Rightarrow> bindings option" where
  "match_component u c v b =
     (case c of
        ESymbol s \<Rightarrow>
          if is_wildcard s then Some b
          else if starts_with s ''?'' then
            (case hm_get b s of
               Some existing \<Rightarrow> if value_eq existing v then Some b else None
             | None \<Rightarrow> Some (hm_insert s v b))
          else None
      | _ \<Rightarrow> if const_matches u c v then Some b else None)"

fun pseudo_value :: "value \<Rightarrow> fact \<Rightarrow> pseudo_attr \<Rightarrow> value" where
  "pseudo_value va f PaValidFrom = Integer (valid_from f)"
| "pseudo_value va f PaValidTo = Integer (valid_to f)"
| "pseudo_value va f PaTxCount = Integer (I64 (tx_count f))"
| "pseudo_value va f PaTxId = Integer (I64 (tx_id f))"
| "pseudo_value va f PaValidAt = va"

definition hidden_key :: "pseudo_attr \<Rightarrow> string \<Rightarrow> string" where
  "hidden_key p eid =
     (case p of PaValidFrom \<Rightarrow> ''__fvf_'' | PaValidTo \<Rightarrow> ''__fvt_'' | PaTxCount \<Rightarrow> ''__ftc_'' | _ \<Rightarrow> ''__fti_'') @ eid"

definition retain_metadata :: "uuid_api \<Rightarrow> fact \<Rightarrow> bindings \<Rightarrow> bindings" where
  "retain_metadata u f b =
     (let eid = uuid_string u (entity f) in
      fold (\<lambda>p. hm_insert (hidden_key p eid) (pseudo_value Null f p)) [PaValidFrom, PaValidTo, PaTxCount, PaTxId] b)"

definition match_fact_against_pattern :: "uuid_api \<Rightarrow> pattern_matcher \<Rightarrow> pattern \<Rightarrow> fact \<Rightarrow> bindings option" where
  "match_fact_against_pattern u m p f =
     Option.bind (match_component u (p_entity p) (Ref (entity f)) []) (\<lambda>b.
       case p_attribute p of
         Real a \<Rightarrow>
           Option.bind (match_attribute_component a (attr f) b) (\<lambda>b.
           Option.bind (match_component u (p_value p) (val f) b) (\<lambda>b.
           Some (if pm_retain m then retain_metadata u f b else b)))
       | Pseudo pa \<Rightarrow> match_component u (p_value p) (pseudo_value (pm_valid_at_value m) f pa) b)"

definition match_pattern :: "uuid_api \<Rightarrow> pattern_matcher \<Rightarrow> pattern \<Rightarrow> bindings list" where
  "match_pattern u m p = List.map_filter (match_fact_against_pattern u m p) (get_facts m)"

datatype match_error = TooManyRows nat

definition push_row :: "nat \<Rightarrow> bindings \<Rightarrow> bindings list \<Rightarrow> match_error + bindings list" where
  "push_row max_results b rs = (if max_results \<le> length rs then Inl (TooManyRows max_results) else Inr (rs @ [b]))"

definition match_pattern_bounded :: "uuid_api \<Rightarrow> pattern_matcher \<Rightarrow> pattern \<Rightarrow> nat \<Rightarrow> match_error + bindings list" where
  "match_pattern_bounded u m p max_results =
     res_fold (\<lambda>f rs. case match_fact_against_pattern u m p f of None \<Rightarrow> Inr rs | Some b \<Rightarrow> push_row max_results b rs)
       (get_facts m) []"

section \<open>Rows extended by a scan\<close>

definition apply_binding_to_component :: "edn_value \<Rightarrow> bindings \<Rightarrow> edn_value" where
  "apply_binding_to_component c b =
     (case c of
        ESymbol s \<Rightarrow>
          if starts_with s ''?'' then (case hm_get b s of Some v \<Rightarrow> matcher_value_to_edn v | None \<Rightarrow> c) else c
      | _ \<Rightarrow> c)"

definition apply_bindings_to_pattern :: "pattern \<Rightarrow> bindings \<Rightarrow> pattern" where
  "apply_bindings_to_pattern p b =
     p\<lparr> p_entity := apply_binding_to_component (p_entity p) b,
        p_attribute := (case p_attribute p of Real a \<Rightarrow> Real (apply_binding_to_component a b) | Pseudo pa \<Rightarrow> Pseudo pa),
        p_value := apply_binding_to_component (p_value p) b \<rparr>"

definition is_hidden :: "string \<Rightarrow> bool" where
  "is_hidden s \<longleftrightarrow> starts_with s ''__f''"

definition scan_consistent :: "bindings \<Rightarrow> bindings \<Rightarrow> bool" where
  "scan_consistent existing additional \<longleftrightarrow>
     list_all (\<lambda>(var, v). is_hidden var \<or> (case hm_get existing var of Some w \<Rightarrow> value_eq w v | None \<Rightarrow> True)) additional"

definition hm_extend :: "bindings \<Rightarrow> bindings \<Rightarrow> bindings" where
  "hm_extend b additional = fold (\<lambda>(var, v). hm_insert var v) additional b"

definition match_pattern_with_bindings_scan ::
    "uuid_api \<Rightarrow> pattern_matcher \<Rightarrow> pattern \<Rightarrow> bindings \<Rightarrow> bindings list" where
  "match_pattern_with_bindings_scan u m p existing =
     List.map_filter (\<lambda>f.
       Option.bind (match_fact_against_pattern u m (apply_bindings_to_pattern p existing) f) (\<lambda>additional.
         if scan_consistent existing additional then Some (hm_extend existing additional) else None))
       (get_facts m)"

fun resolved_uuid :: "uuid_api \<Rightarrow> edn_value \<Rightarrow> uuid option" where
  "resolved_uuid u (EUuid i) = Some i"
| "resolved_uuid u (EKeyword k) = (case edn_to_entity_id u (EKeyword k) of Inr i \<Rightarrow> Some i | Inl _ \<Rightarrow> None)"
| "resolved_uuid u _ = None"

definition match_pattern_with_bindings ::
    "uuid_api \<Rightarrow> pattern_matcher \<Rightarrow> pattern \<Rightarrow> bindings \<Rightarrow> bindings list" where
  "match_pattern_with_bindings u m p existing =
     (case p_attribute p of
        Real _ \<Rightarrow> match_pattern_with_bindings_scan u m p existing
      | Pseudo pa \<Rightarrow>
          (case resolved_uuid u (apply_binding_to_component (p_entity p) existing) of
             None \<Rightarrow> match_pattern_with_bindings_scan u m p existing
           | Some i \<Rightarrow>
               if pa = PaValidAt then match_pattern_with_bindings_scan u m p existing
               else (case hm_get existing (hidden_key pa (uuid_string u i)) of
                       None \<Rightarrow> match_pattern_with_bindings_scan u m p existing
                     | Some stored \<Rightarrow> (case match_component u (p_value p) stored existing of Some b \<Rightarrow> [b] | None \<Rightarrow> []))))"

definition match_pattern_with_bindings_bounded ::
    "uuid_api \<Rightarrow> pattern_matcher \<Rightarrow> pattern \<Rightarrow> bindings \<Rightarrow> nat \<Rightarrow> match_error + bindings list" where
  "match_pattern_with_bindings_bounded u m p existing max_results =
     (let rs = match_pattern_with_bindings u m p existing in
      if max_results < length rs then Inl (TooManyRows max_results) else Inr rs)"

section \<open>Joins\<close>

text \<open>The build side of the hash join: a \<open>HashMap\<close> keyed by values, which finds a key that is equal and hashes
  alike.\<close>

definition same_value_key :: "value \<Rightarrow> value \<Rightarrow> bool" where
  "same_value_key v w \<longleftrightarrow> value_eq v w \<and> value_hash v = value_hash w"

fun build_push :: "value \<Rightarrow> 'b \<Rightarrow> (value \<times> 'b list) list \<Rightarrow> (value \<times> 'b list) list" where
  "build_push k b [] = [(k, [b])]"
| "build_push k b ((k', bs) # m) =
     (if same_value_key k k' then (k', bs @ [b]) # m else (k', bs) # build_push k b m)"

fun build_get :: "(value \<times> 'b list) list \<Rightarrow> value \<Rightarrow> 'b list option" where
  "build_get [] k = None"
| "build_get ((k', bs) # m) k = (if same_value_key k k' then Some bs else build_get m k)"

definition bound_variable :: "bindings list \<Rightarrow> edn_value \<Rightarrow> string option" where
  "bound_variable existing c =
     (case c of
        ESymbol s \<Rightarrow>
          if starts_with s ''?'' \<and> (case existing of [] \<Rightarrow> False | b # _ \<Rightarrow> hm_get b s \<noteq> None) then Some s else None
      | _ \<Rightarrow> None)"

definition join_variable :: "bindings list \<Rightarrow> pattern \<Rightarrow> string option" where
  "join_variable existing p =
     (case p_attribute p of
        Pseudo _ \<Rightarrow> None
      | Real _ \<Rightarrow>
          (case bound_variable existing (p_entity p) of
             Some s \<Rightarrow> Some s
           | None \<Rightarrow> bound_variable existing (p_value p)))"

definition build_side :: "uuid_api \<Rightarrow> string \<Rightarrow> bindings list \<Rightarrow> (value \<times> bindings list) list" where
  "build_side u jvar candidates =
     fold (\<lambda>b side. case hm_get b jvar of None \<Rightarrow> side | Some v \<Rightarrow> build_push (normalize_join_value u v) b side)
       candidates []"

fun merge_row :: "uuid_api \<Rightarrow> bindings \<Rightarrow> bindings \<Rightarrow> bindings option" where
  "merge_row u merged [] = Some merged"
| "merge_row u merged ((var, v) # rest) =
     (if is_hidden var then merge_row u (hm_insert var v merged) rest
      else (case hm_get merged var of
              Some w \<Rightarrow>
                if value_eq (normalize_join_value u w) (normalize_join_value u v) then merge_row u merged rest else None
            | None \<Rightarrow> merge_row u (hm_insert var v merged) rest))"

definition probe_row :: "uuid_api \<Rightarrow> (value \<times> bindings list) list \<Rightarrow> value \<Rightarrow> bindings \<Rightarrow> bindings list" where
  "probe_row u side probe existing =
     (case build_get side (normalize_join_value u probe) of
        None \<Rightarrow> []
      | Some matches \<Rightarrow> List.map_filter (merge_row u existing) matches)"

definition join_with_pattern :: "uuid_api \<Rightarrow> pattern_matcher \<Rightarrow> bindings list \<Rightarrow> pattern \<Rightarrow> bindings list" where
  "join_with_pattern u m existing p =
     (if existing = [] then []
      else (case join_variable existing p of
              None \<Rightarrow> concat (map (match_pattern_with_bindings u m p) existing)
            | Some jvar \<Rightarrow>
                let side = build_side u jvar (match_pattern u m p) in
                concat (map (\<lambda>b. case hm_get b jvar of
                    None \<Rightarrow> match_pattern_with_bindings u m p b
                  | Some probe \<Rightarrow> probe_row u side probe b) existing)))"

definition push_scan ::
    "uuid_api \<Rightarrow> pattern_matcher \<Rightarrow> pattern \<Rightarrow> nat \<Rightarrow> bindings \<Rightarrow> bindings list \<Rightarrow> match_error + bindings list" where
  "push_scan u m p max_results b rs =
     res_bind (match_pattern_with_bindings_bounded u m p b (max_results - length rs)) (\<lambda>matches.
       res_fold (push_row max_results) matches rs)"

definition join_with_pattern_bounded ::
    "uuid_api \<Rightarrow> pattern_matcher \<Rightarrow> bindings list \<Rightarrow> pattern \<Rightarrow> nat \<Rightarrow> match_error + bindings list" where
  "join_with_pattern_bounded u m existing p max_results =
     (if existing = [] then Inr []
      else (case join_variable existing p of
              None \<Rightarrow> res_fold (push_scan u m p max_results) existing []
            | Some jvar \<Rightarrow>
                res_bind (match_pattern_bounded u m p max_results) (\<lambda>candidates.
                  let side = build_side u jvar candidates in
                  res_fold (\<lambda>b rs. case hm_get b jvar of
                      None \<Rightarrow> push_scan u m p max_results b rs
                    | Some probe \<Rightarrow> res_fold (push_row max_results) (probe_row u side probe b) rs) existing [])))"

definition match_patterns :: "uuid_api \<Rightarrow> pattern_matcher \<Rightarrow> pattern list \<Rightarrow> bindings list" where
  "match_patterns u m ps =
     (case ps of [] \<Rightarrow> [[]] | p # ps \<Rightarrow> fold (\<lambda>p rs. join_with_pattern u m rs p) ps (match_pattern u m p))"

definition match_with_hint_seeded :: "uuid_api \<Rightarrow> pattern_matcher \<Rightarrow> bindings list \<Rightarrow> pattern \<Rightarrow> bindings list" where
  "match_with_hint_seeded u m seed p =
     (if seed = [] then [] else if seed = [[]] then match_pattern u m p else join_with_pattern u m seed p)"

definition match_with_hint_seeded_bounded ::
    "uuid_api \<Rightarrow> pattern_matcher \<Rightarrow> bindings list \<Rightarrow> pattern \<Rightarrow> nat \<Rightarrow> match_error + bindings list" where
  "match_with_hint_seeded_bounded u m seed p max_results =
     (if seed = [] then Inr []
      else if max_results < length seed then Inl (TooManyRows max_results)
      else if seed = [[]] then match_pattern_bounded u m p max_results
      else join_with_pattern_bounded u m seed p max_results)"

definition match_patterns_bounded ::
    "uuid_api \<Rightarrow> pattern_matcher \<Rightarrow> pattern list \<Rightarrow> bindings list \<Rightarrow> nat \<Rightarrow> match_error + bindings list" where
  "match_patterns_bounded u m ps seed max_results =
     (if max_results < length seed then Inl (TooManyRows max_results)
      else res_fold (\<lambda>p rs. join_with_pattern_bounded u m rs p max_results) ps seed)"

definition match_patterns_seeded :: "uuid_api \<Rightarrow> pattern_matcher \<Rightarrow> pattern list \<Rightarrow> bindings list \<Rightarrow> bindings list" where
  "match_patterns_seeded u m ps seed =
     (if seed = [] then [] else fold (\<lambda>p rs. join_with_pattern u m rs p) ps seed)"

section \<open>The row limit\<close>

lemma res_fold_push_row:
  "length rs \<le> k \<Longrightarrow> res_fold (push_row k) xs rs = Inr r \<longleftrightarrow> r = rs @ xs \<and> length r \<le> k"
proof (induction xs arbitrary: rs)
  case (Cons x xs)
  then show ?case by (cases "length rs < k") (auto simp: push_row_def res_bind_Inr)
qed auto

lemma match_pattern_bounded_iff:
  "match_pattern_bounded u m p k = Inr rs \<longleftrightarrow> rs = match_pattern u m p \<and> length rs \<le> k"
proof -
  have "res_fold (\<lambda>f rs. case match_fact_against_pattern u m p f of None \<Rightarrow> Inr rs | Some b \<Rightarrow> push_row k b rs) fs =
      res_fold (push_row k) (List.map_filter (match_fact_against_pattern u m p) fs)" for fs
  proof (induction fs)
    case (Cons f fs)
    show ?case
      by (rule ext) (cases "match_fact_against_pattern u m p f"; simp add: map_filter_simps Cons)
  qed (simp add: map_filter_simps fun_eq_iff)
  then show ?thesis by (simp add: match_pattern_bounded_def match_pattern_def res_fold_push_row)
qed

lemma push_scan_iff:
  "length rs \<le> k \<Longrightarrow> push_scan u m p k b rs = Inr r \<longleftrightarrow>
     r = rs @ match_pattern_with_bindings u m p b \<and> length r \<le> k"
  by (auto simp: push_scan_def match_pattern_with_bindings_bounded_def res_bind_Inr res_fold_push_row Let_def)

text \<open>A fold whose steps append rows up to a limit appends all rows or fails.\<close>

lemma res_fold_rows:
  assumes "\<And>b rs r. length rs \<le> k \<Longrightarrow> step b rs = Inr r \<longleftrightarrow> r = rs @ rows b \<and> length r \<le> k" and "length rs \<le> k"
  shows "res_fold step bs rs = Inr r \<longleftrightarrow> r = rs @ concat (map rows bs) \<and> length r \<le> k"
  using assms(2)
proof (induction bs arbitrary: rs)
  case (Cons b bs)
  show ?case
  proof (cases "length (rs @ rows b) \<le> k")
    case True
    then have "step b rs = Inr (rs @ rows b)" using assms(1) Cons.prems by blast
    then show ?thesis using Cons.IH [OF True] by simp
  next
    case False
    then have "step b rs \<noteq> Inr x" for x using assms(1) [OF Cons.prems, of b x] by auto
    then show ?thesis using False by (auto simp: res_bind_Inr)
  qed
qed auto

lemma join_with_pattern_bounded_iff:
  "join_with_pattern_bounded u m ex p k = Inr rs \<longleftrightarrow>
     rs = join_with_pattern u m ex p \<and> length rs \<le> k \<and>
     (ex \<noteq> [] \<and> join_variable ex p \<noteq> None \<longrightarrow> length (match_pattern u m p) \<le> k)"
proof (cases "join_variable ex p")
  case None
  have "res_fold (push_scan u m p k) ex [] = Inr rs \<longleftrightarrow> rs = [] @ concat (map (match_pattern_with_bindings u m p) ex) \<and> length rs \<le> k"
    by (rule res_fold_rows) (simp_all add: push_scan_iff)
  then show ?thesis using None by (auto simp: join_with_pattern_bounded_def join_with_pattern_def)
next
  case (Some jvar)
  let ?rows = "\<lambda>side b. case hm_get b jvar of None \<Rightarrow> match_pattern_with_bindings u m p b | Some probe \<Rightarrow> probe_row u side probe b"
  have "res_fold (\<lambda>b rs. case hm_get b jvar of None \<Rightarrow> push_scan u m p k b rs
      | Some probe \<Rightarrow> res_fold (push_row k) (probe_row u side probe b) rs) ex [] = Inr rs \<longleftrightarrow>
      rs = [] @ concat (map (?rows side) ex) \<and> length rs \<le> k" for side
    by (rule res_fold_rows) (simp_all add: push_scan_iff res_fold_push_row split: option.split)
  then show ?thesis using Some
    by (auto simp: join_with_pattern_bounded_def join_with_pattern_def res_bind_Inr match_pattern_bounded_iff Let_def)
qed

text \<open>The intermediate results of a sequence of joins.\<close>

fun join_stages :: "uuid_api \<Rightarrow> pattern_matcher \<Rightarrow> pattern list \<Rightarrow> bindings list \<Rightarrow> bindings list list" where
  "join_stages u m [] seed = [seed]"
| "join_stages u m (p # ps) seed =
     (if seed \<noteq> [] \<and> join_variable seed p \<noteq> None then [match_pattern u m p] else []) @
     seed # join_stages u m ps (join_with_pattern u m seed p)"

lemma join_nil [simp]: "join_with_pattern u m [] p = []"
  by (simp add: join_with_pattern_def)

lemma seed_in_stages: "seed \<in> set (join_stages u m ps seed)"
  by (cases ps) simp_all

text \<open>C39: a row limit never truncates.  Joining patterns under a limit succeeds exactly when no intermediate
  result and no build side of a hash join has more rows than the limit, and then returns the same rows as
  joining without a limit.\<close>

theorem match_patterns_bounded_exact:
  "match_patterns_bounded u m ps seed k = Inr rs \<longleftrightarrow>
     rs = match_patterns_seeded u m ps seed \<and> list_all (\<lambda>stage. length stage \<le> k) (join_stages u m ps seed)"
proof -
  have "length seed \<le> k \<Longrightarrow> res_fold (\<lambda>p rs. join_with_pattern_bounded u m rs p k) ps seed = Inr rs \<longleftrightarrow>
      rs = fold (\<lambda>p rs. join_with_pattern u m rs p) ps seed \<and> list_all (\<lambda>stage. length stage \<le> k) (join_stages u m ps seed)" for seed
  proof (induction ps arbitrary: seed)
    case (Cons p ps)
    show ?case
    proof (cases "join_with_pattern_bounded u m seed p k")
      case (Inr rs')
      then have rs': "rs' = join_with_pattern u m seed p" and len: "length rs' \<le> k" and
          side: "seed \<noteq> [] \<and> join_variable seed p \<noteq> None \<longrightarrow> length (match_pattern u m p) \<le> k"
        using join_with_pattern_bounded_iff [of u m seed p k rs'] by blast+
      show ?thesis using Inr Cons.IH [OF len] Cons.prems side unfolding rs' by simp
    next
      case (Inl e)
      then have "\<not> (length (join_with_pattern u m seed p) \<le> k \<and>
          (seed \<noteq> [] \<and> join_variable seed p \<noteq> None \<longrightarrow> length (match_pattern u m p) \<le> k))"
        using join_with_pattern_bounded_iff [of u m seed p k "join_with_pattern u m seed p"] by simp
      then show ?thesis using Inl seed_in_stages [of "join_with_pattern u m seed p" u m ps]
        by (auto simp: list_all_iff)
    qed
  qed auto
  moreover have "fold (\<lambda>p rs. join_with_pattern u m rs p) ps [] = []" by (induction ps) simp_all
  moreover have "\<not> list_all (\<lambda>stage. length stage \<le> k) (join_stages u m ps seed)" if "k < length seed"
    using seed_in_stages [of seed u m ps] that by (auto simp: list_all_iff intro!: bexI [of _ seed])
  ultimately show ?thesis
    by (cases "length seed \<le> k") (auto simp: match_patterns_bounded_def match_patterns_seeded_def not_le)
qed

section \<open>Answers of a conjunctive query\<close>

text \<open>Values on which equality, hashing and the matching of constants agree: no doubles, and keywords from a set
  on which the derived entity is injective.\<close>

definition plain_value :: "string set \<Rightarrow> value \<Rightarrow> bool" where
  "plain_value K v \<longleftrightarrow> (case v of Float _ \<Rightarrow> False | Keyword k \<Rightarrow> k \<in> K | _ \<Rightarrow> True)"

definition is_pattern_var :: "string \<Rightarrow> bool" where
  "is_pattern_var s \<longleftrightarrow> starts_with s ''?'' \<and> \<not> is_wildcard s"

text \<open>A component against a value under a valuation: a variable is bound or compared up to the entity a keyword
  stands for.\<close>

definition comp_answer :: "uuid_api \<Rightarrow> edn_value \<Rightarrow> value \<Rightarrow> (string \<rightharpoonup> value) \<Rightarrow> (string \<rightharpoonup> value) option" where
  "comp_answer u c v \<sigma> =
     (case c of
        ESymbol s \<Rightarrow>
          if is_wildcard s then Some \<sigma>
          else if starts_with s ''?'' then
            (case \<sigma> s of
               Some w \<Rightarrow> if normalize_join_value u w = normalize_join_value u v then Some \<sigma> else None
             | None \<Rightarrow> Some (\<sigma>(s \<mapsto> v)))
          else None
      | _ \<Rightarrow> if const_matches u c v then Some \<sigma> else None)"

definition hidden_entries :: "uuid_api \<Rightarrow> pattern_matcher \<Rightarrow> fact \<Rightarrow> bindings" where
  "hidden_entries u m f =
     (if pm_retain m
      then map (\<lambda>p. (hidden_key p (uuid_string u (entity f)), pseudo_value Null f p)) [PaValidFrom, PaValidTo, PaTxCount, PaTxId]
      else [])"

definition answer :: "uuid_api \<Rightarrow> pattern_matcher \<Rightarrow> pattern \<Rightarrow> fact \<Rightarrow> (string \<rightharpoonup> value) \<Rightarrow> (string \<rightharpoonup> value) option" where
  "answer u m p f \<sigma> =
     Option.bind (comp_answer u (p_entity p) (Ref (entity f)) \<sigma>) (\<lambda>\<sigma>.
       if p_attribute p = Real (EKeyword (attr f))
       then map_option (\<lambda>\<sigma>. \<sigma> ++ map_of (hidden_entries u m f)) (comp_answer u (p_value p) (val f) \<sigma>)
       else None)"

text \<open>A constant attribute, and no variable in both positions.\<close>

definition plain_pattern :: "pattern \<Rightarrow> bool" where
  "plain_pattern p \<longleftrightarrow> (\<exists>a. p_attribute p = Real (EKeyword a)) \<and>
     (\<forall>s. is_pattern_var s \<longrightarrow> \<not> (p_entity p = ESymbol s \<and> p_value p = ESymbol s))"

definition plain_row :: "string set \<Rightarrow> (string \<rightharpoonup> value) \<Rightarrow> bool" where
  "plain_row K \<sigma> \<longleftrightarrow> (\<forall>s v. \<sigma> s = Some v \<longrightarrow> plain_value K v \<and> \<not> is_wildcard s)"

lemma normalize_Keyword [simp]: "normalize_join_value u (Keyword k) = Ref (keyword_id u k)"
  by simp

lemma const_of_value:
  assumes "inj_on (keyword_id u) K" and "plain_value K w" and "plain_value K v"
  shows "const_matches u (matcher_value_to_edn w) v \<longleftrightarrow> normalize_join_value u w = normalize_join_value u v"
  using assms by (cases w; cases v) (auto simp: plain_value_def inj_on_def)

lemma plain_eq_iff:
  "plain_value K v \<Longrightarrow> value_eq (normalize_join_value u w) (normalize_join_value u v) \<longleftrightarrow>
     normalize_join_value u w = normalize_join_value u v"
  "plain_value K v \<Longrightarrow> same_value_key (normalize_join_value u w) (normalize_join_value u v) \<longleftrightarrow>
     normalize_join_value u w = normalize_join_value u v"
  by (cases w; cases v; auto simp: plain_value_def same_value_key_def)+

lemma edn_of_value_no_symbol [simp]: "matcher_value_to_edn v \<noteq> ESymbol s"
  by (cases v) simp_all

lemma match_const: "(\<And>s. c \<noteq> ESymbol s) \<Longrightarrow> match_component u c v b = (if const_matches u c v then Some b else None)"
  by (cases c) (auto simp: match_component_def)

lemma comp_const: "(\<And>s. c \<noteq> ESymbol s) \<Longrightarrow> comp_answer u c v \<sigma> = (if const_matches u c v then Some \<sigma> else None)"
  by (cases c) (auto simp: comp_answer_def)

lemma insert_new: "hm_get b k = None \<Longrightarrow> hm_insert k v b = b @ [(k, v)]"
  by (induction b) auto

text \<open>The entries a component adds to a row.\<close>

definition new_binds :: "bindings \<Rightarrow> edn_value \<Rightarrow> value \<Rightarrow> bindings" where
  "new_binds b c v =
     (case c of ESymbol s \<Rightarrow> if is_pattern_var s \<and> hm_get b s = None then [(s, v)] else [] | _ \<Rightarrow> [])"

lemma comp_answer_new: "comp_answer u c v (map_of b) = Some \<sigma> \<Longrightarrow> \<sigma> = map_of b ++ map_of (new_binds b c v)"
  by (auto simp: comp_answer_def new_binds_def is_pattern_var_def split: edn_value.splits if_splits option.splits)

lemma scan_component:
  assumes "inj_on (keyword_id u) K" and "plain_row K (map_of b)" and "plain_value K v" and "\<And>s. c = ESymbol s \<Longrightarrow> hm_get acc s = None"
  shows "match_component u (apply_binding_to_component c b) v acc =
    (if comp_answer u c v (map_of b) = None then None else Some (acc @ new_binds b c v))"
proof (cases "\<exists>s. c = ESymbol s")
  case True
  then obtain s where c: "c = ESymbol s" by blast
  show ?thesis
  proof (cases "hm_get b s")
    case None
    then show ?thesis using assms(4) [OF c] unfolding c
      by (simp add: apply_binding_to_component_def match_component_def comp_answer_def new_binds_def is_pattern_var_def insert_new)
  next
    case (Some w)
    then have "plain_value K w" "\<not> is_wildcard s" using assms(2) by (auto simp: plain_row_def)
    then show ?thesis using Some const_of_value [OF assms(1) _ assms(3), of w] match_const [of "matcher_value_to_edn w" u v acc]
      unfolding c
      by (cases "starts_with s ''?''")
        (simp_all add: apply_binding_to_component_def comp_answer_def new_binds_def is_pattern_var_def match_component_def [of u "ESymbol s"])
  qed
next
  case False
  then have "apply_binding_to_component c b = c" "new_binds b c v = []"
    by (auto simp: apply_binding_to_component_def new_binds_def split: edn_value.split)
  then show ?thesis using False by (simp add: match_const comp_const)
qed

lemma merge_append: "merge_row u b (xs @ ys) = Option.bind (merge_row u b xs) (\<lambda>b. merge_row u b ys)"
  by (induction u b xs rule: merge_row.induct) (auto split: option.split)

lemma variable_not_hidden: "starts_with s ''?'' \<Longrightarrow> \<not> is_hidden s"
  by (cases s) (auto simp: starts_with_def is_hidden_def)

lemma probe_component:
  assumes "plain_row K (map_of b)" and "plain_value K v" and "comp_answer u c v Map.empty \<noteq> None"
  shows "map_option map_of (merge_row u b (new_binds [] c v)) = comp_answer u c v (map_of b)"
proof (cases "\<exists>s. c = ESymbol s \<and> is_pattern_var s")
  case True
  then obtain s where c: "c = ESymbol s" "is_pattern_var s" by blast
  then show ?thesis using variable_not_hidden [of s] plain_eq_iff(1) [OF assms(2)]
    by (auto simp: new_binds_def comp_answer_def is_pattern_var_def fun_eq_iff split: option.split)
next
  case False
  then have "new_binds [] c v = []" by (auto simp: new_binds_def split: edn_value.split)
  moreover have "comp_answer u c v (map_of b) = Some (map_of b)"
    using False assms(3) by (auto simp: comp_answer_def is_pattern_var_def split: edn_value.splits if_splits)
  ultimately show ?thesis by simp
qed

lemma hidden_keys: "hm_get (hidden_entries u m f) s = Some v \<Longrightarrow> is_hidden s \<and> (\<exists>i. v = Integer i)"
  by (auto simp: hidden_entries_def hidden_key_def is_hidden_def starts_with_def split: if_splits)

lemma hidden_distinct: "hm_wf (hidden_entries u m f)"
  by (simp add: hidden_entries_def hidden_key_def)

lemma extend_map: "map_of (hm_extend b xs) = map_of b ++ map_of (rev xs)"
  by (induction xs arbitrary: b) (auto simp: hm_extend_def fun_eq_iff map_add_def split: option.split)

lemma map_of_rev_distinct: "hm_wf xs \<Longrightarrow> map_of (rev xs) = map_of xs"
  by (subst map_of_inject_set) (simp_all add: rev_map [symmetric])

lemma extend_new:
  "hm_wf xs \<Longrightarrow> (\<And>k. hm_get xs k \<noteq> None \<Longrightarrow> hm_get b k = None) \<Longrightarrow> hm_extend b xs = b @ xs"
proof (induction xs arbitrary: b)
  case (Cons x xs)
  have "hm_get b (fst x) = None" using Cons.prems(2) [of "fst x"] by (cases x) simp
  then have "hm_insert (fst x) (snd x) b = b @ [x]" by (simp add: insert_new)
  moreover have "hm_get (b @ [x]) k = None" if "hm_get xs k \<noteq> None" for k
  proof -
    have "k \<in> fst ` set xs" using that by (simp add: map_of_eq_None_iff)
    then have "k \<noteq> fst x" using Cons.prems(1) by (cases "k = fst x") simp_all
    moreover have "hm_get b k = None" using Cons.prems(2) [of k] that by (cases x) auto
    ultimately show ?thesis by (cases x) simp
  qed
  moreover have "hm_extend b (x # xs) = hm_extend (hm_insert (fst x) (snd x) b) xs"
    by (cases x) (simp add: hm_extend_def)
  ultimately show ?case using Cons.IH [of "b @ [x]"] Cons.prems(1) by simp
qed (simp add: hm_extend_def)

lemma retain_metadata_append:
  assumes "\<And>s. hm_get b s \<noteq> None \<Longrightarrow> \<not> is_hidden s"
  shows "(if pm_retain m then retain_metadata u f b else b) = b @ hidden_entries u m f"
proof -
  have "(if pm_retain m then retain_metadata u f b else b) = hm_extend b (hidden_entries u m f)"
    by (simp add: retain_metadata_def hidden_entries_def hm_extend_def Let_def)
  moreover have "hm_get b k = None" if "hm_get (hidden_entries u m f) k \<noteq> None" for k
    using that assms [of k] hidden_keys [of u m f k] by (cases "hm_get b k") auto
  ultimately show ?thesis using extend_new [OF hidden_distinct] by simp
qed

text \<open>One fact against the pattern with the bound variables replaced, as the scan matches it.\<close>

lemma scan_fact:
  assumes "inj_on (keyword_id u) K" and "plain_row K (map_of b)" and "plain_value K (val f)" and "plain_pattern p"
  shows "match_fact_against_pattern u m (apply_bindings_to_pattern p b) f =
    (if answer u m p f (map_of b) = None then None
     else Some (new_binds b (p_entity p) (Ref (entity f)) @ new_binds b (p_value p) (val f) @ hidden_entries u m f))"
proof -
  let ?e = "new_binds b (p_entity p) (Ref (entity f))" and ?v = "new_binds b (p_value p) (val f)"
  obtain a where a: "p_attribute p = Real (EKeyword a)" using assms(4) by (auto simp: plain_pattern_def)
  have e: "match_component u (apply_binding_to_component (p_entity p) b) (Ref (entity f)) [] =
      (if comp_answer u (p_entity p) (Ref (entity f)) (map_of b) = None then None else Some ?e)"
    using scan_component [OF assms(1,2), of "Ref (entity f)" "p_entity p" "[]"] by (simp add: plain_value_def)
  have "hm_get ?e s = None" if "p_value p = ESymbol s" for s
    using assms(4) that by (auto simp: new_binds_def plain_pattern_def split: edn_value.split)
  then have v: "match_component u (apply_binding_to_component (p_value p) b) (val f) ?e =
      (if comp_answer u (p_value p) (val f) (map_of b) = None then None else Some (?e @ ?v))"
    using scan_component [OF assms(1,2,3), of "p_value p" ?e] by blast
  have unhidden: "\<not> is_hidden s" if "hm_get (?e @ ?v) s \<noteq> None" for s
    using that by (auto simp: new_binds_def is_pattern_var_def variable_not_hidden split: edn_value.splits if_splits)
  have "comp_answer u (p_value p) (val f) \<sigma> = None \<longleftrightarrow> comp_answer u (p_value p) (val f) (map_of b) = None"
    if "comp_answer u (p_entity p) (Ref (entity f)) (map_of b) = Some \<sigma>" for \<sigma>
  proof -
    have "\<sigma> s = map_of b s" if "p_value p = ESymbol s" for s
      using comp_answer_new [OF \<open>comp_answer u (p_entity p) (Ref (entity f)) (map_of b) = Some \<sigma>\<close>] assms(4) that
      by (auto simp: new_binds_def plain_pattern_def split: edn_value.splits if_splits)
    then show ?thesis by (cases "p_value p") (auto simp: comp_answer_def split: option.splits)
  qed
  moreover have "(if pm_retain m then retain_metadata u f (?e @ ?v) else ?e @ ?v) = (?e @ ?v) @ hidden_entries u m f"
    by (rule retain_metadata_append) (rule unhidden)
  moreover have "apply_binding_to_component (EKeyword a) b = EKeyword a" by (simp add: apply_binding_to_component_def)
  ultimately show ?thesis using e v a
    by (auto simp: match_fact_against_pattern_def apply_bindings_to_pattern_def answer_def match_attribute_component_def
      split: option.splits)
qed

lemma rev_new_binds [simp]: "rev (new_binds b c v) = new_binds b c v"
  by (simp add: new_binds_def split: edn_value.split)

lemma comp_answer_empty: "comp_answer u c v Map.empty = None \<Longrightarrow> comp_answer u c v \<sigma> = None"
  by (auto simp: comp_answer_def split: edn_value.splits if_splits)

lemma comp_answer_plain:
  "comp_answer u c v \<sigma> = Some \<sigma>' \<Longrightarrow> plain_row K \<sigma> \<Longrightarrow> plain_value K v \<Longrightarrow> plain_row K \<sigma>'"
  by (auto simp: comp_answer_def plain_row_def split: edn_value.splits if_splits option.splits)

lemma answer_new:
  assumes "plain_pattern p" and "answer u m p f (map_of b) = Some \<sigma>"
  shows "\<sigma> = map_of b ++ map_of (new_binds b (p_entity p) (Ref (entity f))) ++ map_of (new_binds b (p_value p) (val f)) ++
    map_of (hidden_entries u m f)"
proof -
  let ?e = "new_binds b (p_entity p) (Ref (entity f))"
  obtain \<sigma>1 \<sigma>2 where e: "comp_answer u (p_entity p) (Ref (entity f)) (map_of b) = Some \<sigma>1"
    and v: "comp_answer u (p_value p) (val f) \<sigma>1 = Some \<sigma>2" and \<sigma>: "\<sigma> = \<sigma>2 ++ map_of (hidden_entries u m f)"
    using assms(2) by (auto simp: answer_def bind_eq_Some_conv split: if_splits)
  have \<sigma>1: "\<sigma>1 = map_of (?e @ b)" using comp_answer_new [OF e] by simp
  have "new_binds (?e @ b) (p_value p) (val f) = new_binds b (p_value p) (val f)"
    using assms(1) by (auto simp: new_binds_def plain_pattern_def split: edn_value.splits)
  then show ?thesis using comp_answer_new [of u "p_value p" "val f" "?e @ b" \<sigma>2] v \<sigma> unfolding \<sigma>1 by simp
qed

lemma scan_row:
  assumes "inj_on (keyword_id u) K" and "plain_row K (map_of b)" and "plain_value K (val f)" and "plain_pattern p"
  shows "map_option map_of (Option.bind (match_fact_against_pattern u m (apply_bindings_to_pattern p b) f) (\<lambda>additional.
      if scan_consistent b additional then Some (hm_extend b additional) else None)) = answer u m p f (map_of b)"
proof (cases "answer u m p f (map_of b)")
  case None
  then show ?thesis using scan_fact [OF assms, of m] by simp
next
  case (Some \<sigma>)
  let ?add = "new_binds b (p_entity p) (Ref (entity f)) @ new_binds b (p_value p) (val f) @ hidden_entries u m f"
  have "is_hidden s \<or> hm_get b s = None" if "(s, v) \<in> set ?add" for s v
    using that hidden_distinct [of u m f] hidden_keys [of u m f s v]
    by (auto simp: new_binds_def split: edn_value.splits if_splits)
  then have "scan_consistent b ?add" by (fastforce simp: scan_consistent_def list_all_iff split: option.split)
  then show ?thesis using Some scan_fact [OF assms, of m] answer_new [OF assms(4) Some] map_of_rev_distinct [OF hidden_distinct, of u m f]
    by (simp add: extend_map)
qed

lemma merge_hidden: "list_all (\<lambda>(s, _). is_hidden s) xs \<Longrightarrow> merge_row u b xs = Some (hm_extend b xs)"
  by (induction u b xs rule: merge_row.induct) (auto simp: hm_extend_def)

lemma apply_nothing: "apply_bindings_to_pattern p [] = p"
proof -
  have "apply_binding_to_component c [] = c" for c
    by (simp add: apply_binding_to_component_def split: edn_value.split)
  then show ?thesis by (simp add: apply_bindings_to_pattern_def split: attribute_spec.split)
qed

lemma match_fact_plain:
  assumes "inj_on (keyword_id u) K" and "plain_value K (val f)" and "plain_pattern p"
  shows "match_fact_against_pattern u m p f =
    (if answer u m p f Map.empty = None then None
     else Some (new_binds [] (p_entity p) (Ref (entity f)) @ new_binds [] (p_value p) (val f) @ hidden_entries u m f))"
  using scan_fact [OF assms(1) _ assms(2,3), of "[]"] by (simp add: apply_nothing plain_row_def)

lemma answer_empty:
  assumes "plain_pattern p" and "answer u m p f Map.empty = None"
  shows "answer u m p f \<sigma> = None"
proof -
  have "comp_answer u (p_value p) (val f) \<sigma>1 = None"
    if e: "comp_answer u (p_entity p) (Ref (entity f)) Map.empty = Some \<sigma>0" and v: "comp_answer u (p_value p) (val f) \<sigma>0 = None" for \<sigma>0 \<sigma>1
  proof -
    have "\<sigma>0 s = None" if "p_value p = ESymbol s" for s
      using comp_answer_new [of u "p_entity p" "Ref (entity f)" "[]" \<sigma>0] e that assms(1)
      by (auto simp: new_binds_def plain_pattern_def split: edn_value.splits if_splits)
    then show ?thesis using v by (cases "p_value p") (auto simp: comp_answer_def split: if_splits option.splits)
  qed
  then show ?thesis using assms(2) comp_answer_empty [of u "p_entity p" "Ref (entity f)" \<sigma>]
    by (cases "comp_answer u (p_entity p) (Ref (entity f)) Map.empty") (auto simp: answer_def bind_eq_None_conv split: if_splits)
qed

lemma probe_fact:
  assumes "inj_on (keyword_id u) K" and "plain_row K (map_of b)" and "plain_value K (val f)" and "plain_pattern p"
  shows "map_option map_of (Option.bind (match_fact_against_pattern u m p f) (merge_row u b)) = answer u m p f (map_of b)"
proof (cases "answer u m p f Map.empty")
  case None
  then show ?thesis using match_fact_plain [OF assms(1,3,4), of m] answer_empty [OF assms(4) None, of "map_of b"] by simp
next
  case (Some \<sigma>0)
  let ?e = "new_binds [] (p_entity p) (Ref (entity f))" and ?v = "new_binds [] (p_value p) (val f)"
  have attr: "p_attribute p = Real (EKeyword (attr f))" and ne: "comp_answer u (p_entity p) (Ref (entity f)) Map.empty \<noteq> None"
    using Some by (auto simp: answer_def bind_eq_Some_conv split: if_splits)
  have nv: "comp_answer u (p_value p) (val f) Map.empty \<noteq> None"
    using Some comp_answer_empty [of u "p_value p" "val f"]
    by (cases "comp_answer u (p_value p) (val f) Map.empty") (auto simp: answer_def bind_eq_Some_conv split: if_splits)
  have e: "map_option map_of (merge_row u b ?e) = comp_answer u (p_entity p) (Ref (entity f)) (map_of b)"
    using probe_component [OF assms(2) _ ne] by (simp add: plain_value_def)
  have hid: "merge_row u b' (hidden_entries u m f) = Some (hm_extend b' (hidden_entries u m f))" for b'
  proof (rule merge_hidden, unfold list_all_iff, safe)
    fix s v assume "(s, v) \<in> set (hidden_entries u m f)"
    then show "is_hidden s" using hidden_keys [of u m f s v] map_of_is_SomeI [OF hidden_distinct] by fast
  qed
  have main: "match_fact_against_pattern u m p f = Some (?e @ ?v @ hidden_entries u m f)"
    using match_fact_plain [OF assms(1,3,4), of m] Some by simp
  show ?thesis
  proof (cases "merge_row u b ?e")
    case None
    then show ?thesis using e main by (simp add: merge_append answer_def)
  next
    case (Some b1)
    then have b1: "comp_answer u (p_entity p) (Ref (entity f)) (map_of b) = Some (map_of b1)" using e by simp
    then have "plain_row K (map_of b1)" using comp_answer_plain [OF _ assms(2)] by (simp add: plain_value_def)
    then have v: "map_option map_of (merge_row u b1 ?v) = comp_answer u (p_value p) (val f) (map_of b1)"
      using probe_component [OF _ assms(3) nv] by simp
    show ?thesis using Some b1 main attr map_of_rev_distinct [OF hidden_distinct, of u m f]
      by (simp add: merge_append answer_def v [symmetric] option.map_comp o_def bind_map_option hid extend_map map_conv_bind_option)
  qed
qed

lemma candidate_wf:
  assumes "plain_pattern p"
  shows "hm_wf (new_binds [] (p_entity p) (Ref (entity f)) @ new_binds [] (p_value p) (val f) @ hidden_entries u m f)"
proof -
  have "s \<notin> fst ` set (hidden_entries u m f)" if "is_pattern_var s" for s
    using that hidden_keys [of u m f s] variable_not_hidden [of s]
    by (auto simp: is_pattern_var_def map_of_eq_None_iff dest!: map_of_is_SomeI [OF hidden_distinct])
  then show ?thesis using assms hidden_distinct [of u m f]
    by (auto simp: new_binds_def plain_pattern_def split: edn_value.splits)
qed

section \<open>The hash join\<close>

lemma same_key_iff: "\<not> is_float_value w \<Longrightarrow> same_value_key v w \<longleftrightarrow> v = w"
  by (cases v; cases w) (auto simp: same_value_key_def)

lemma build_push_keys:
  "list_all (\<lambda>(k, _). \<not> is_float_value k) side \<Longrightarrow> \<not> is_float_value k \<Longrightarrow> list_all (\<lambda>(k, _). \<not> is_float_value k) (build_push k b side)"
  by (induction k b side rule: build_push.induct) simp_all

lemma build_push_get:
  "list_all (\<lambda>(k, _). \<not> is_float_value k) side \<Longrightarrow> \<not> is_float_value k \<Longrightarrow>
   get_or [] (build_get (build_push k b side) k') = get_or [] (build_get side k') @ (if k' = k then [b] else [])"
  by (induction k b side rule: build_push.induct) (auto simp: same_key_iff)

lemma build_fold_get:
  assumes "list_all (\<lambda>(k, _). \<not> is_float_value k) side" and "\<forall>c \<in> set cands. \<forall>v. hm_get c x = Some v \<longrightarrow> plain_value K v"
  shows "get_or [] (build_get (fold (\<lambda>b side. case hm_get b x of None \<Rightarrow> side
      | Some v \<Rightarrow> build_push (normalize_join_value u v) b side) cands side) k) =
    get_or [] (build_get side k) @ filter (\<lambda>c. map_option (normalize_join_value u) (hm_get c x) = Some k) cands"
  using assms
proof (induction cands arbitrary: side)
  case (Cons c cands)
  show ?case
  proof (cases "hm_get c x")
    case None
    then show ?thesis using Cons by simp
  next
    case (Some v)
    then have "plain_value K v" using Cons.prems(2) by simp
    then have nf: "\<not> is_float_value (normalize_join_value u v)" by (cases v) (simp_all add: plain_value_def)
    show ?thesis using Some Cons.IH [OF build_push_keys [OF Cons.prems(1) nf, of c]] Cons.prems build_push_get [OF Cons.prems(1) nf]
      by auto
  qed
qed simp

lemma merge_conflict:
  assumes "(s, v) \<in> set c" and "\<not> is_hidden s" and "hm_get b s = Some w" and "\<not> value_eq (normalize_join_value u w) (normalize_join_value u v)"
  shows "merge_row u b c = None"
  using assms(1,3)
proof (induction c arbitrary: b)
  case (Cons e c)
  obtain s' v' where e: "e = (s', v')" by fastforce
  show ?case
  proof (cases "e = (s, v)")
    case True
    then show ?thesis using assms(2,4) Cons.prems by simp
  next
    case False
    then have "(s, v) \<in> set c" using Cons.prems by simp
    then have IH: "merge_row u b' c = None" if "hm_get b' s = Some w" for b' using that Cons.IH by blast
    have "hm_get (hm_insert s' v' b) s = Some w" if "is_hidden s' \<or> hm_get b s' = None"
      using that assms(2) Cons.prems(2) by auto
    then show ?thesis unfolding e using IH [of "hm_insert s' v' b"] IH [OF Cons.prems(2)] by (auto split: option.split)
  qed
qed simp

lemma map_filter_bind: "List.map_filter g (List.map_filter f xs) = List.map_filter (\<lambda>x. Option.bind (f x) g) xs"
  by (induction xs) (auto simp: map_filter_simps split: option.split)

lemma map_map_filter: "map g (List.map_filter f xs) = List.map_filter (\<lambda>x. map_option g (f x)) xs"
  by (induction xs) (auto simp: map_filter_simps split: option.split)

lemma map_filter_filter: "(\<And>x. x \<in> set xs \<Longrightarrow> \<not> P x \<Longrightarrow> f x = None) \<Longrightarrow> List.map_filter f (filter P xs) = List.map_filter f xs"
  by (induction xs) (auto simp: map_filter_simps split: option.split)

lemma map_filter_cong: "(\<And>x. x \<in> set xs \<Longrightarrow> f x = g x) \<Longrightarrow> List.map_filter f xs = List.map_filter g xs"
  by (induction xs) (auto simp: map_filter_simps split: option.split)

definition plain_matcher :: "string set \<Rightarrow> pattern_matcher \<Rightarrow> bool" where
  "plain_matcher K m \<longleftrightarrow> (\<forall>f \<in> set (get_facts m). plain_value K (val f))"

lemma scan_rows:
  assumes "inj_on (keyword_id u) K" and "plain_matcher K m" and "plain_pattern p" and "plain_row K (map_of b)"
  shows "map map_of (match_pattern_with_bindings u m p b) = List.map_filter (\<lambda>f. answer u m p f (map_of b)) (get_facts m)"
proof -
  have "match_pattern_with_bindings u m p b = match_pattern_with_bindings_scan u m p b"
    using assms(3) by (auto simp: match_pattern_with_bindings_def plain_pattern_def)
  then show ?thesis using scan_row [OF assms(1,4) _ assms(3), of _ m] assms(2)
    by (auto simp: match_pattern_with_bindings_scan_def map_map_filter plain_matcher_def intro!: map_filter_cong)
qed

lemma match_pattern_rows:
  assumes "inj_on (keyword_id u) K" and "plain_matcher K m" and "plain_pattern p"
  shows "map map_of (match_pattern u m p) = List.map_filter (\<lambda>f. answer u m p f Map.empty) (get_facts m)"
  unfolding match_pattern_def map_map_filter
proof (rule map_filter_cong)
  fix f assume "f \<in> set (get_facts m)"
  then have v: "plain_value K (val f)" using assms(2) by (simp add: plain_matcher_def)
  have "map_of (hm_extend [] c) = map_of c" if "match_fact_against_pattern u m p f = Some c" for c
    using that match_fact_plain [OF assms(1) v assms(3), of m] map_of_rev_distinct [OF candidate_wf [OF assms(3), of f u m]]
    by (auto simp: extend_map split: if_splits)
  then show "map_option map_of (match_fact_against_pattern u m p f) = answer u m p f Map.empty"
    using scan_row [OF assms(1) _ v assms(3), of "[]" m]
    by (cases "match_fact_against_pattern u m p f")
      (auto simp: apply_nothing plain_row_def scan_consistent_def list_all_iff)
qed

lemma probe_rows:
  assumes "inj_on (keyword_id u) K" and "plain_matcher K m" and "plain_pattern p" and "plain_row K (map_of b)"
    and "hm_get b x = Some w" and "starts_with x ''?''" and "p_entity p = ESymbol x \<or> p_value p = ESymbol x"
  shows "map map_of (probe_row u (build_side u x (match_pattern u m p)) w b) =
    List.map_filter (\<lambda>f. answer u m p f (map_of b)) (get_facts m)"
proof -
  let ?cands = "match_pattern u m p" and ?k = "normalize_join_value u w"
  have w: "plain_value K w" and var: "is_pattern_var x"
    using assms(4-6) by (auto simp: plain_row_def is_pattern_var_def)
  have cand: "\<exists>v. hm_get c x = Some v \<and> plain_value K v" if c: "c \<in> set ?cands" for c
  proof -
    obtain f where f: "f \<in> set (get_facts m)" "match_fact_against_pattern u m p f = Some c"
      using c by (auto simp: match_pattern_def List.map_filter_def)
    then have v: "plain_value K (val f)" using assms(2) by (simp add: plain_matcher_def)
    have "c = new_binds [] (p_entity p) (Ref (entity f)) @ new_binds [] (p_value p) (val f) @ hidden_entries u m f"
      using match_fact_plain [OF assms(1) v assms(3), of m] f(2) by (auto split: if_splits)
    then show ?thesis using assms(7) var v
      by (cases "p_entity p") (auto simp: new_binds_def plain_value_def [of K "Ref _"] map_add_def split: option.split)
  qed
  have "get_or [] (build_get (build_side u x ?cands) ?k) =
      filter (\<lambda>c. map_option (normalize_join_value u) (hm_get c x) = Some ?k) ?cands"
    using build_fold_get [of "[]" ?cands x K u ?k] cand by (fastforce simp: build_side_def)
  then have "probe_row u (build_side u x ?cands) w b =
      List.map_filter (merge_row u b) (filter (\<lambda>c. map_option (normalize_join_value u) (hm_get c x) = Some ?k) ?cands)"
    by (auto simp: probe_row_def get_or_def map_filter_simps split: option.splits)
  also have "\<dots> = List.map_filter (merge_row u b) ?cands"
  proof (rule map_filter_filter)
    fix c assume c: "c \<in> set ?cands" "map_option (normalize_join_value u) (hm_get c x) \<noteq> Some ?k"
    then obtain v where v: "hm_get c x = Some v" "plain_value K v" using cand by blast
    then have "\<not> value_eq ?k (normalize_join_value u v)" using c(2) plain_eq_iff(1) [OF v(2)] by simp
    then show "merge_row u b c = None"
      using merge_conflict [OF map_of_SomeD [OF v(1)] variable_not_hidden [OF assms(6)] assms(5)] by blast
  qed
  also have "map map_of \<dots> = List.map_filter (\<lambda>f. answer u m p f (map_of b)) (get_facts m)"
    unfolding match_pattern_def map_filter_bind map_map_filter
    using probe_fact [OF assms(1,4) _ assms(3)] assms(2) by (intro map_filter_cong) (simp add: plain_matcher_def)
  finally show ?thesis .
qed

definition row_answers :: "uuid_api \<Rightarrow> pattern_matcher \<Rightarrow> pattern \<Rightarrow> (string \<rightharpoonup> value) \<Rightarrow> (string \<rightharpoonup> value) list" where
  "row_answers u m p \<sigma> = List.map_filter (\<lambda>f. answer u m p f \<sigma>) (get_facts m)"

lemma join_rows:
  assumes "inj_on (keyword_id u) K" and "plain_matcher K m" and "plain_pattern p" and "\<forall>b \<in> set ex. plain_row K (map_of b)"
  shows "map map_of (join_with_pattern u m ex p) = concat (map (row_answers u m p) (map map_of ex))"
proof (cases "join_variable ex p")
  case None
  then show ?thesis using scan_rows [OF assms(1-3)] assms(4)
    by (auto simp: join_with_pattern_def map_concat row_answers_def intro!: arg_cong [of _ _ concat] map_cong)
next
  case (Some x)
  then have x: "starts_with x ''?''" "p_entity p = ESymbol x \<or> p_value p = ESymbol x"
    by (auto simp: join_variable_def bound_variable_def split: attribute_spec.splits edn_value.splits option.splits if_splits)
  have "map map_of (case hm_get b x of None \<Rightarrow> match_pattern_with_bindings u m p b
      | Some probe \<Rightarrow> probe_row u (build_side u x (match_pattern u m p)) probe b) = row_answers u m p (map_of b)" if "b \<in> set ex" for b
    using scan_rows [OF assms(1-3), of b] probe_rows [OF assms(1-3) _ _ x, of b] assms(4) that
    by (auto simp: row_answers_def split: option.split)
  then show ?thesis using Some
    by (auto simp: join_with_pattern_def map_concat Let_def intro!: arg_cong [of _ _ concat] map_cong)
qed


section \<open>Soundness and completeness of joins\<close>

fun answers :: "uuid_api \<Rightarrow> pattern_matcher \<Rightarrow> pattern list \<Rightarrow> (string \<rightharpoonup> value) \<Rightarrow> (string \<rightharpoonup> value) list" where
  "answers u m [] \<sigma> = [\<sigma>]"
| "answers u m (p # ps) \<sigma> = concat (map (answers u m ps) (row_answers u m p \<sigma>))"

definition comp_sat :: "uuid_api \<Rightarrow> edn_value \<Rightarrow> value \<Rightarrow> (string \<rightharpoonup> value) \<Rightarrow> bool" where
  "comp_sat u c v \<sigma> \<longleftrightarrow>
     (case c of
        ESymbol s \<Rightarrow> is_wildcard s \<or> starts_with s ''?'' \<and> map_option (normalize_join_value u) (\<sigma> s) = Some (normalize_join_value u v)
      | _ \<Rightarrow> const_matches u c v)"

definition fact_sat :: "uuid_api \<Rightarrow> (string \<rightharpoonup> value) \<Rightarrow> pattern \<Rightarrow> fact \<Rightarrow> bool" where
  "fact_sat u \<sigma> p f \<longleftrightarrow> comp_sat u (p_entity p) (Ref (entity f)) \<sigma> \<and> p_attribute p = Real (EKeyword (attr f)) \<and>
     comp_sat u (p_value p) (val f) \<sigma>"

definition pattern_vars :: "pattern \<Rightarrow> string set" where
  "pattern_vars p = {s. is_pattern_var s \<and> (p_entity p = ESymbol s \<or> p_value p = ESymbol s)}"

lemma comp_answer_sound:
  assumes "comp_answer u c v \<sigma> = Some \<sigma>'"
  shows "\<sigma> \<subseteq>\<^sub>m \<sigma>' \<and> comp_sat u c v \<sigma>' \<and> dom \<sigma>' = dom \<sigma> \<union> {s. is_pattern_var s \<and> c = ESymbol s}"
  using assms by (auto simp: comp_answer_def comp_sat_def map_le_def is_pattern_var_def
      split: edn_value.splits if_splits option.splits)

lemma comp_sat_mono: "comp_sat u c v \<sigma> \<Longrightarrow> \<sigma> \<subseteq>\<^sub>m \<sigma>' \<Longrightarrow> comp_sat u c v \<sigma>'"
  by (auto simp: comp_sat_def map_le_def dom_def split: edn_value.splits)

lemma answer_sound:
  assumes "answer u m p f \<sigma> = Some \<sigma>'" and "\<not> pm_retain m"
  shows "\<sigma> \<subseteq>\<^sub>m \<sigma>' \<and> fact_sat u \<sigma>' p f \<and> dom \<sigma>' = dom \<sigma> \<union> pattern_vars p"
proof -
  obtain \<sigma>1 where e: "comp_answer u (p_entity p) (Ref (entity f)) \<sigma> = Some \<sigma>1"
    and v: "comp_answer u (p_value p) (val f) \<sigma>1 = Some \<sigma>'" and a: "p_attribute p = Real (EKeyword (attr f))"
    using assms by (auto simp: answer_def bind_eq_Some_conv hidden_entries_def split: if_splits)
  show ?thesis using comp_answer_sound [OF e] comp_answer_sound [OF v] a comp_sat_mono
    by (auto simp: fact_sat_def pattern_vars_def intro: map_le_trans)
qed

lemma answers_sound:
  assumes "\<sigma>' \<in> set (answers u m ps \<sigma>)" and "\<not> pm_retain m"
  shows "\<sigma> \<subseteq>\<^sub>m \<sigma>' \<and> dom \<sigma>' = dom \<sigma> \<union> \<Union> (pattern_vars ` set ps) \<and>
    (\<exists>fs. set fs \<subseteq> set (get_facts m) \<and> list_all2 (fact_sat u \<sigma>') ps fs)"
  using assms(1)
proof (induction ps arbitrary: \<sigma>)
  case (Cons p ps)
  then obtain f \<sigma>1 where f: "f \<in> set (get_facts m)" "answer u m p f \<sigma> = Some \<sigma>1" and \<sigma>': "\<sigma>' \<in> set (answers u m ps \<sigma>1)"
    by (auto simp: row_answers_def List.map_filter_def)
  obtain fs where fs: "set fs \<subseteq> set (get_facts m)" "list_all2 (fact_sat u \<sigma>') ps fs" using Cons.IH [OF \<sigma>'] by blast
  have "fact_sat u \<sigma>' p f" using answer_sound [OF f(2) assms(2)] Cons.IH [OF \<sigma>'] comp_sat_mono by (auto simp: fact_sat_def)
  then have "set (f # fs) \<subseteq> set (get_facts m) \<and> list_all2 (fact_sat u \<sigma>') (p # ps) (f # fs)" using f(1) fs by simp
  then have "\<exists>fs. set fs \<subseteq> set (get_facts m) \<and> list_all2 (fact_sat u \<sigma>') (p # ps) fs" by blast
  moreover have "\<sigma> \<subseteq>\<^sub>m \<sigma>'" "dom \<sigma>' = dom \<sigma> \<union> \<Union> (pattern_vars ` set (p # ps))"
    using answer_sound [OF f(2) assms(2)] Cons.IH [OF \<sigma>'] by (auto intro: map_le_trans)
  ultimately show ?case by blast
qed auto

text \<open>A valuation extends another up to the entities that keywords stand for.\<close>

definition agrees :: "uuid_api \<Rightarrow> (string \<rightharpoonup> value) \<Rightarrow> (string \<rightharpoonup> value) \<Rightarrow> bool" where
  "agrees u \<sigma> \<tau> \<longleftrightarrow> (\<forall>s \<in> dom \<sigma>. map_option (normalize_join_value u) (\<tau> s) = map_option (normalize_join_value u) (\<sigma> s))"

lemma comp_answer_complete:
  assumes "agrees u \<sigma> \<tau>" and "comp_sat u c v \<tau>"
  shows "\<exists>\<sigma>'. comp_answer u c v \<sigma> = Some \<sigma>' \<and> agrees u \<sigma>' \<tau>"
proof (cases "\<exists>s. c = ESymbol s")
  case True
  then obtain s where "c = ESymbol s" by blast
  then show ?thesis using assms
    by (cases "\<sigma> s") (auto simp: comp_sat_def comp_answer_def agrees_def dom_def split: if_splits)
next
  case False
  then show ?thesis using assms by (cases c) (auto simp: comp_const comp_sat_def)
qed

lemma answers_complete:
  assumes "list_all2 (fact_sat u \<tau>) ps fs" and "set fs \<subseteq> set (get_facts m)" and "agrees u \<sigma> \<tau>" and "\<not> pm_retain m"
  shows "\<exists>\<sigma>' \<in> set (answers u m ps \<sigma>). agrees u \<sigma>' \<tau>"
  using assms(1-3)
proof (induction ps fs arbitrary: \<sigma> rule: list_all2_induct)
  case (Cons p ps f fs)
  obtain \<sigma>1 where e: "comp_answer u (p_entity p) (Ref (entity f)) \<sigma> = Some \<sigma>1" "agrees u \<sigma>1 \<tau>"
    using comp_answer_complete Cons by (metis fact_sat_def)
  obtain \<sigma>2 where v: "comp_answer u (p_value p) (val f) \<sigma>1 = Some \<sigma>2" "agrees u \<sigma>2 \<tau>"
    using comp_answer_complete Cons.hyps(1) e(2) by (metis fact_sat_def)
  have "answer u m p f \<sigma> = Some \<sigma>2"
    using e v Cons.hyps(1) assms(4) by (simp add: answer_def fact_sat_def hidden_entries_def)
  moreover obtain \<sigma>' where "\<sigma>' \<in> set (answers u m ps \<sigma>2)" "agrees u \<sigma>' \<tau>" using Cons.IH [OF _ v(2)] Cons.prems by auto
  ultimately show ?case using Cons.prems(1) by (auto simp: row_answers_def List.map_filter_def image_iff) force
qed simp

lemma answer_plain:
  assumes "answer u m p f \<sigma> = Some \<sigma>'" and "plain_row K \<sigma>" and "plain_value K (val f)"
  shows "plain_row K \<sigma>'"
proof -
  obtain \<sigma>1 \<sigma>2 where e: "comp_answer u (p_entity p) (Ref (entity f)) \<sigma> = Some \<sigma>1"
    and v: "comp_answer u (p_value p) (val f) \<sigma>1 = Some \<sigma>2" and \<sigma>': "\<sigma>' = \<sigma>2 ++ map_of (hidden_entries u m f)"
    using assms(1) by (auto simp: answer_def bind_eq_Some_conv split: if_splits)
  have "plain_row K \<sigma>2"
    using comp_answer_plain [OF v comp_answer_plain [OF e assms(2)] assms(3)] by (simp add: plain_value_def)
  moreover have "\<not> is_wildcard s" if "is_hidden s" for s
    using that by (cases s) (auto simp: is_hidden_def is_wildcard_def starts_with_def)
  ultimately show ?thesis using hidden_keys [of u m f] unfolding \<sigma>' plain_row_def map_add_Some_iff
    by (fastforce simp: plain_value_def)
qed

lemma fold_join_rows:
  assumes "inj_on (keyword_id u) K" and "plain_matcher K m"
  shows "\<forall>p \<in> set ps. plain_pattern p \<Longrightarrow> \<forall>b \<in> set ex. plain_row K (map_of b) \<Longrightarrow>
    map map_of (fold (\<lambda>p rs. join_with_pattern u m rs p) ps ex) = concat (map (answers u m ps) (map map_of ex))"
proof (induction ps arbitrary: ex)
  case (Cons p ps)
  have rows: "map map_of (join_with_pattern u m ex p) = concat (map (row_answers u m p) (map map_of ex))"
    using join_rows [OF assms, of p ex] Cons.prems by simp
  have "plain_row K \<sigma>" if "\<sigma> \<in> set (map map_of (join_with_pattern u m ex p))" for \<sigma>
    using that Cons.prems(2) answer_plain [of u m p] assms(2) unfolding rows
    by (auto simp: row_answers_def List.map_filter_def plain_matcher_def)
  then have "map map_of (fold (\<lambda>p rs. join_with_pattern u m rs p) ps (join_with_pattern u m ex p)) =
      concat (map (answers u m ps) (map map_of (join_with_pattern u m ex p)))"
    using Cons.IH [of "join_with_pattern u m ex p"] Cons.prems(1) by simp
  also have "\<dots> = concat (map (answers u m (p # ps)) (map map_of ex))"
    unfolding rows by (induction ex) simp_all
  finally show ?case by (simp only: fold.simps o_apply)
qed (simp add: o_def concat_map_singleton)

lemma match_patterns_rows:
  assumes "inj_on (keyword_id u) K" and "plain_matcher K m" and "\<forall>p \<in> set ps. plain_pattern p"
  shows "map map_of (match_patterns u m ps) = answers u m ps Map.empty"
proof (cases ps)
  case (Cons p ps')
  have rows: "map map_of (match_pattern u m p) = row_answers u m p Map.empty"
    using match_pattern_rows [OF assms(1,2)] assms(3) Cons by (simp add: row_answers_def)
  have "plain_row K \<sigma>" if "\<sigma> \<in> set (map map_of (match_pattern u m p))" for \<sigma>
    using that answer_plain [of u m p _ Map.empty] assms(2) unfolding rows
    by (auto simp: row_answers_def List.map_filter_def plain_matcher_def plain_row_def)
  then have "\<forall>b \<in> set (match_pattern u m p). plain_row K (map_of b)" by simp
  then have "map map_of (fold (\<lambda>p rs. join_with_pattern u m rs p) ps' (match_pattern u m p)) =
      concat (map (answers u m ps') (map map_of (match_pattern u m p)))"
    using fold_join_rows [OF assms(1,2), of ps'] assms(3) Cons by simp
  then show ?thesis using Cons rows by (simp add: match_patterns_def)
qed (simp add: match_patterns_def)

lemma match_patterns_sound:
  assumes "inj_on (keyword_id u) K" and "plain_matcher K m" and "\<forall>p \<in> set ps. plain_pattern p" and "\<not> pm_retain m"
    and "b \<in> set (match_patterns u m ps)"
  shows "dom (map_of b) = \<Union> (pattern_vars ` set ps)"
    and "\<exists>fs. set fs \<subseteq> set (get_facts m) \<and> list_all2 (fact_sat u (map_of b)) ps fs"
proof -
  have "map_of b \<in> set (answers u m ps Map.empty)"
    using match_patterns_rows [OF assms(1-3)] assms(5) by (metis image_eqI set_map)
  then show "dom (map_of b) = \<Union> (pattern_vars ` set ps)"
    and "\<exists>fs. set fs \<subseteq> set (get_facts m) \<and> list_all2 (fact_sat u (map_of b)) ps fs"
    using answers_sound [OF _ assms(4)] by fastforce+
qed

lemma match_patterns_complete:
  assumes "inj_on (keyword_id u) K" and "plain_matcher K m" and "\<forall>p \<in> set ps. plain_pattern p" and "\<not> pm_retain m"
    and "set fs \<subseteq> set (get_facts m)" and "list_all2 (fact_sat u \<tau>) ps fs"
  shows "\<exists>b \<in> set (match_patterns u m ps). agrees u (map_of b) \<tau>"
proof -
  have "\<exists>\<sigma> \<in> set (answers u m ps Map.empty). agrees u \<sigma> \<tau>"
    using answers_complete [OF assms(6,5) _ assms(4), of Map.empty] by (simp add: agrees_def)
  moreover have "set (answers u m ps Map.empty) = map_of ` set (match_patterns u m ps)"
    using match_patterns_rows [OF assms(1-3)] by (metis set_map)
  ultimately show ?thesis by auto
qed


definition sample_uuids :: uuid_api where
  "sample_uuids = \<lparr> parse_str = (\<lambda>_. None), new_v5 = (\<lambda>bs. of_nat (length bs)), uuid_string = (\<lambda>_. []) \<rparr>"

definition sample_facts :: "fact list" where
  "sample_facts = [fact_new 1 '':friend'' (Keyword '':bob'') 0, fact_new 4 '':name'' (String ''Bob'') 0]"

definition sample_pattern :: pattern where
  "sample_pattern = pattern_new (ESymbol ''?y'') (EKeyword '':name'') (ESymbol ''?n'')"

lemma sample_plain:
  "inj_on (keyword_id sample_uuids) {'':bob''}" "plain_matcher {'':bob''} (matcher_from_slice sample_facts)" "plain_pattern sample_pattern"
  by (simp_all add: plain_matcher_def matcher_from_slice_def get_facts_def sample_facts_def fact_new_def plain_value_def
    plain_pattern_def sample_pattern_def pattern_new_def)

lemma sample_keyword: "keyword_id sample_uuids '':bob'' = 4"
  by (simp add: keyword_id_def sample_uuids_def as_bytes_def)



end
