(* ===== verification/Optimizer.thy ===== *)
theory Optimizer
  imports Matcher "HOL-Library.Multiset"
begin

text \<open>
  The query planner (\<open>query/datalog/optimizer.rs\<close>) of the native build: index hints, bundles of a fact pattern with
  the pseudo-attribute patterns that read its metadata, ordering of the bundles by selectivity, and placement of
  the expression clauses.  The lemmas show that a plan has exactly the clauses of the query, keeps bundles
  together, evaluates an expression only after the patterns that bind its variables, and does not change the
  answers of the patterns.
\<close>

section \<open>Index selection\<close>

datatype index_hint = HintEavt | HintAevt | HintAvet | HintVaet

fun attr_is_index_bound :: "attribute_spec \<Rightarrow> bool" where
  "attr_is_index_bound (Real a) = (\<not> is_variable a)"
| "attr_is_index_bound (Pseudo _) = False"

fun is_entity_literal :: "edn_value \<Rightarrow> bool" where
  "is_entity_literal (EUuid _) = True"
| "is_entity_literal _ = False"

definition selectivity_score :: "pattern \<Rightarrow> nat" where
  "selectivity_score p =
     of_bool (\<not> is_variable (p_entity p)) + of_bool (attr_is_index_bound (p_attribute p)) + of_bool (\<not> is_variable (p_value p))"

definition select_index :: "pattern \<Rightarrow> index_hint" where
  "select_index p =
     (let e_bound = \<not> is_variable (p_entity p); a_bound = attr_is_index_bound (p_attribute p); v_bound = \<not> is_variable (p_value p) in
      if e_bound then HintEavt
      else if a_bound \<and> v_bound then HintAvet
      else if a_bound then HintAevt
      else if v_bound \<and> is_entity_literal (p_value p) then HintVaet
      else HintEavt)"

fun expr_vars :: "expr \<Rightarrow> string list" where
  "expr_vars (XVar s) = [s]"
| "expr_vars (XLit _) = []"
| "expr_vars (XSlot _) = []"
| "expr_vars (XBin _ l r) = expr_vars l @ expr_vars r"
| "expr_vars (XUn _ e) = expr_vars e"

definition var_of :: "edn_value \<Rightarrow> string list" where
  "var_of c = (case c of ESymbol s \<Rightarrow> if is_variable c then [s] else [] | _ \<Rightarrow> [])"

definition pattern_bound_vars :: "pattern \<Rightarrow> string list" where
  "pattern_bound_vars p =
     var_of (p_entity p) @ (case p_attribute p of Real a \<Rightarrow> var_of a | Pseudo _ \<Rightarrow> []) @ var_of (p_value p)"

section \<open>Bundles\<close>

record fact_bundle =
  bd_entries :: "(pattern \<times> index_hint) list"
  bd_fact_entity :: "edn_value option"

definition bundle_new :: "pattern \<Rightarrow> index_hint \<Rightarrow> fact_bundle" where
  "bundle_new p hint =
     \<lparr> bd_entries = [(p, hint)],
       bd_fact_entity = (case p_attribute p of Real _ \<Rightarrow> Some (p_entity p) | Pseudo _ \<Rightarrow> None) \<rparr>"

definition accepts_per_fact_pseudo :: "fact_bundle \<Rightarrow> pattern \<Rightarrow> bool" where
  "accepts_per_fact_pseudo b p \<longleftrightarrow>
     (case p_attribute p of Pseudo pa \<Rightarrow> is_per_fact pa | Real _ \<Rightarrow> False) \<and>
     (case bd_fact_entity b of Some e \<Rightarrow> edn_eq e (p_entity p) | None \<Rightarrow> False)"

definition bundle_selectivity :: "fact_bundle \<Rightarrow> nat" where
  "bundle_selectivity b = (case bd_entries b of [] \<Rightarrow> 0 | (p, _) # _ \<Rightarrow> selectivity_score p)"

definition push_entry :: "pattern \<times> index_hint \<Rightarrow> fact_bundle \<Rightarrow> fact_bundle" where
  "push_entry e b = b\<lparr> bd_entries := bd_entries b @ [e] \<rparr>"

text \<open>The loop over the clauses: the bundles so far, the index of the open one, and the expressions.\<close>

fun collect_bundles ::
    "where_clause list \<Rightarrow> fact_bundle list \<Rightarrow> nat option \<Rightarrow> (expr \<times> string option) list \<Rightarrow> fact_bundle list \<times> (expr \<times> string option) list" where
  "collect_bundles [] bundles opened exprs = (bundles, exprs)"
| "collect_bundles (WPattern p # cs) bundles opened exprs =
     (let hint = select_index p in
      case opened of
        Some i \<Rightarrow>
          if i < length bundles \<and> accepts_per_fact_pseudo (bundles ! i) p
          then collect_bundles cs (bundles[i := push_entry (p, hint) (bundles ! i)]) opened exprs
          else collect_bundles cs (bundles @ [bundle_new p hint])
            (if bd_fact_entity (bundle_new p hint) \<noteq> None then Some (length bundles) else None) exprs
      | None \<Rightarrow> collect_bundles cs (bundles @ [bundle_new p hint])
            (if bd_fact_entity (bundle_new p hint) \<noteq> None then Some (length bundles) else None) exprs)"
| "collect_bundles (WExpr e out # cs) bundles opened exprs = collect_bundles cs bundles opened (exprs @ [(e, out)])"
| "collect_bundles (_ # cs) bundles opened exprs = collect_bundles cs bundles None exprs"

section \<open>Placement of expressions\<close>

fun scan_entries :: "string list \<Rightarrow> nat \<Rightarrow> (pattern \<times> index_hint) list \<Rightarrow> string list \<Rightarrow> nat option \<times> string list" where
  "scan_entries vars i [] bound = (None, bound)"
| "scan_entries vars i ((p, _) # es) bound =
     (let bound = bound @ pattern_bound_vars p in
      if list_all (\<lambda>v. v \<in> set bound) vars then (Some i, bound) else scan_entries vars (Suc i) es bound)"

fun scan_bundles :: "string list \<Rightarrow> nat \<Rightarrow> fact_bundle list \<Rightarrow> string list \<Rightarrow> (nat \<times> nat) option" where
  "scan_bundles vars i [] bound = None"
| "scan_bundles vars i (b # bs) bound =
     (case scan_entries vars 0 (bd_entries b) bound of
        (Some j, _) \<Rightarrow> Some (i, j)
      | (None, bound) \<Rightarrow> scan_bundles vars (Suc i) bs bound)"

definition insertion_point :: "fact_bundle list \<Rightarrow> expr \<Rightarrow> (nat \<times> nat) option" where
  "insertion_point bundles e = (if expr_vars e = [] then None else scan_bundles (expr_vars e) 0 bundles [])"

type_synonym placed = "(expr \<times> string option) list list list \<times> (expr \<times> string option) list"

definition place_expr :: "fact_bundle list \<Rightarrow> expr \<times> string option \<Rightarrow> placed \<Rightarrow> placed" where
  "place_expr bundles x = (\<lambda>(scheduled, trailing).
     case insertion_point bundles (fst x) of
       Some (i, j) \<Rightarrow>
         if i < length scheduled \<and> j < length (scheduled ! i)
         then (scheduled[i := (scheduled ! i)[j := scheduled ! i ! j @ [x]]], trailing)
         else (scheduled, trailing @ [x])
     | None \<Rightarrow> (scheduled, trailing @ [x]))"

definition expr_entry :: "expr \<times> string option \<Rightarrow> where_clause \<times> index_hint option" where
  "expr_entry x = (WExpr (fst x) (snd x), None)"

definition emit_bundle :: "fact_bundle \<Rightarrow> (expr \<times> string option) list list \<Rightarrow> (where_clause \<times> index_hint option) list" where
  "emit_bundle b after =
     concat (map (\<lambda>((p, hint), xs). (WPattern p, Some hint) # map expr_entry xs) (zip (bd_entries b) after))"

definition sort_bundles :: "fact_bundle list \<Rightarrow> fact_bundle list" where
  "sort_bundles bundles = sort_key (\<lambda>b. - int (bundle_selectivity b)) bundles"

definition plan :: "where_clause list \<Rightarrow> (where_clause \<times> index_hint option) list" where
  "plan clauses =
     (let (bundles0, exprs) = collect_bundles clauses [] None [];
          bundles = sort_bundles bundles0;
          (scheduled, trailing) = fold (place_expr bundles) exprs (map (\<lambda>b. replicate (length (bd_entries b)) []) bundles, [])
      in concat (map (\<lambda>(b, after). emit_bundle b after) (zip bundles scheduled)) @ map expr_entry trailing)"

section \<open>Costs\<close>

definition pattern_cost :: "pattern \<Rightarrow> nat" where
  "pattern_cost p =
     (let n = of_bool (\<not> is_variable (p_entity p)) + of_bool (attr_is_index_bound (p_attribute p)) + of_bool (\<not> is_variable (p_value p)) :: nat
      in if n = 3 then 1 else if n = 2 then 10 else if n = 1 then 100 else 10000)"

definition branch_cost :: "where_clause list \<Rightarrow> nat" where
  "branch_cost cs =
     (case List.map_filter (\<lambda>c. case c of WPattern p \<Rightarrow> Some (pattern_cost p) | _ \<Rightarrow> None) cs of
        [] \<Rightarrow> 0
      | n # ns \<Rightarrow> fold min ns n)"

fun clause_cost :: "where_clause \<Rightarrow> nat" where
  "clause_cost (WPattern p) = pattern_cost p"
| "clause_cost (WExpr _ _) = 0"
| "clause_cost (WNot cs) = branch_cost cs"
| "clause_cost (WNotJoin _ cs) = branch_cost cs"
| "clause_cost (WOr branches) = sum_list (map branch_cost branches)"
| "clause_cost (WOrJoin _ branches) = sum_list (map branch_cost branches)"
| "clause_cost (WRule _ _) = 2 ^ 64 - 1"

section \<open>Bundles and source order\<close>

definition patterns_of :: "where_clause list \<Rightarrow> pattern list" where
  "patterns_of cs = List.map_filter (\<lambda>c. case c of WPattern p \<Rightarrow> Some p | _ \<Rightarrow> None) cs"

definition exprs_of :: "where_clause list \<Rightarrow> (expr \<times> string option) list" where
  "exprs_of cs = List.map_filter (\<lambda>c. case c of WExpr e out \<Rightarrow> Some (e, out) | _ \<Rightarrow> None) cs"

lemma patterns_of_simps [simp]:
  "patterns_of [] = []" "patterns_of (WPattern p # cs) = p # patterns_of cs" "patterns_of (WExpr e out # cs) = patterns_of cs"
  "patterns_of (cs @ ds) = patterns_of cs @ patterns_of ds"
  by (simp_all add: patterns_of_def List.map_filter_def)

lemma exprs_of_simps [simp]:
  "exprs_of [] = []" "exprs_of (WPattern p # cs) = exprs_of cs" "exprs_of (WExpr e out # cs) = (e, out) # exprs_of cs"
  "exprs_of (cs @ ds) = exprs_of cs @ exprs_of ds"
  by (simp_all add: exprs_of_def List.map_filter_def)

definition plan_clause :: "where_clause \<Rightarrow> bool" where
  "plan_clause c \<longleftrightarrow> (case c of WPattern _ \<Rightarrow> True | WExpr _ _ \<Rightarrow> True | _ \<Rightarrow> False)"

definition bundle_patterns :: "fact_bundle \<Rightarrow> pattern list" where
  "bundle_patterns b = map fst (bd_entries b)"

text \<open>A pseudo-attribute pattern reads the metadata of a fact pattern on the same entity.\<close>

definition reads_fact :: "pattern \<Rightarrow> pattern \<Rightarrow> bool" where
  "reads_fact q p \<longleftrightarrow> (\<exists>a. p_attribute q = Real a) \<and> (\<exists>pa. p_attribute p = Pseudo pa \<and> is_per_fact pa) \<and> edn_eq (p_entity q) (p_entity p)"

definition wf_bundle :: "fact_bundle \<Rightarrow> bool" where
  "wf_bundle b \<longleftrightarrow> bd_entries b \<noteq> [] \<and> (\<forall>(p, hint) \<in> set (bd_entries b). hint = select_index p) \<and>
     list_all (reads_fact (hd (bundle_patterns b))) (tl (bundle_patterns b)) \<and>
     bd_fact_entity b = (case p_attribute (hd (bundle_patterns b)) of Real _ \<Rightarrow> Some (p_entity (hd (bundle_patterns b))) | Pseudo _ \<Rightarrow> None)"

lemma wf_bundle_new: "wf_bundle (bundle_new p (select_index p))"
  by (simp add: wf_bundle_def bundle_new_def bundle_patterns_def split: attribute_spec.split)

lemma accepts_iff: "wf_bundle b \<Longrightarrow> accepts_per_fact_pseudo b p \<longleftrightarrow> reads_fact (hd (bundle_patterns b)) p"
  by (auto simp: wf_bundle_def accepts_per_fact_pseudo_def reads_fact_def split: attribute_spec.splits)

lemma wf_push:
  assumes "wf_bundle b" and "accepts_per_fact_pseudo b p"
  shows "wf_bundle (push_entry (p, select_index p) b)" "hd (bundle_patterns (push_entry (p, select_index p) b)) = hd (bundle_patterns b)"
    "bundle_patterns (push_entry (p, select_index p) b) = bundle_patterns b @ [p]"
proof -
  have ne: "bundle_patterns b \<noteq> []" using assms(1) by (simp add: wf_bundle_def bundle_patterns_def)
  show app: "bundle_patterns (push_entry (p, select_index p) b) = bundle_patterns b @ [p]"
    by (simp add: bundle_patterns_def push_entry_def)
  then show hd: "hd (bundle_patterns (push_entry (p, select_index p) b)) = hd (bundle_patterns b)" using ne by simp
  have "bd_entries (push_entry (p, select_index p) b) = bd_entries b @ [(p, select_index p)]"
    "bd_fact_entity (push_entry (p, select_index p) b) = bd_fact_entity b" by (simp_all add: push_entry_def)
  then show "wf_bundle (push_entry (p, select_index p) b)"
    using assms accepts_iff [OF assms(1)] ne unfolding wf_bundle_def hd app by (auto split: attribute_spec.split)
qed

text \<open>Collecting keeps the source order: the bundles are consecutive pieces of the patterns, each as long as
  possible.\<close>

definition no_split :: "fact_bundle list \<Rightarrow> bool" where
  "no_split bs \<longleftrightarrow> (\<forall>i. Suc i < length bs \<longrightarrow> \<not> reads_fact (hd (bundle_patterns (bs ! i))) (hd (bundle_patterns (bs ! Suc i))))"

definition open_ok :: "fact_bundle list \<Rightarrow> nat option \<Rightarrow> bool" where
  "open_ok bs opened \<longleftrightarrow>
     (case opened of
        None \<Rightarrow> bs = [] \<or> bd_fact_entity (last bs) = None
      | Some i \<Rightarrow> bs \<noteq> [] \<and> i = length bs - 1)"

lemma fact_entity_None: "wf_bundle b \<Longrightarrow> bd_fact_entity b = None \<Longrightarrow> \<not> reads_fact (hd (bundle_patterns b)) p"
  by (auto simp: wf_bundle_def reads_fact_def split: attribute_spec.splits)

lemma no_split_snoc:
  "no_split (bs @ [b]) \<longleftrightarrow> no_split bs \<and> (bs \<noteq> [] \<longrightarrow> \<not> reads_fact (hd (bundle_patterns (last bs))) (hd (bundle_patterns b)))"
  (is "?l \<longleftrightarrow> ?r")
proof
  assume l: ?l
  then show ?r
    unfolding no_split_def by (auto simp: nth_append last_conv_nth less_Suc_eq split: if_splits)
next
  assume ?r
  then show ?l by (auto simp: no_split_def nth_append last_conv_nth less_Suc_eq) (metis diff_Suc_1 One_nat_def)
qed

lemma collect_bundles_inv:
  assumes "collect_bundles cs bs opened xs = (bs', xs')" and "list_all plan_clause cs"
    and "\<forall>b \<in> set bs. wf_bundle b" and "open_ok bs opened" and "no_split bs"
  shows "(\<forall>b \<in> set bs'. wf_bundle b) \<and> no_split bs' \<and>
    concat (map bundle_patterns bs') = concat (map bundle_patterns bs) @ patterns_of cs \<and> xs' = xs @ exprs_of cs"
  using assms
proof (induction cs arbitrary: bs opened xs)
  case (Cons c cs)
  consider p where "c = WPattern p" | e out where "c = WExpr e out"
    using Cons.prems(2) by (cases c) (simp_all add: plan_clause_def)
  then show ?case
  proof cases
  case p: (1 p)
  let ?new = "bundle_new p (select_index p)"
  have new: "hd (bundle_patterns ?new) = p" "bundle_patterns ?new = [p]" by (simp_all add: bundle_patterns_def bundle_new_def)
  show ?thesis
  proof (cases "\<exists>i. opened = Some i \<and> accepts_per_fact_pseudo (bs ! i) p")
    case True
    then obtain i where i: "opened = Some i" "accepts_per_fact_pseudo (bs ! i) p" by blast
    then have bs: "bs \<noteq> []" "i = length bs - 1" using Cons.prems(4) by (simp_all add: open_ok_def)
    then obtain ds b where ds: "bs = ds @ [b]" by (metis append_butlast_last_id)
    let ?b = "push_entry (p, select_index p) b"
    have upd: "bs[i := push_entry (p, select_index p) (bs ! i)] = ds @ [?b]" "bs ! i = b" "i < length bs" using bs ds by simp_all
    have b: "wf_bundle b" "accepts_per_fact_pseudo b p" using Cons.prems(3) i(2) upd(2) ds by auto
    have "collect_bundles cs (ds @ [?b]) (Some i) xs = (bs', xs')" using Cons.prems(1) i upd p by simp
    moreover have "no_split (ds @ [?b])" using Cons.prems(5) wf_push(2) [OF b] unfolding ds no_split_snoc by simp
    ultimately show ?thesis using Cons.IH [of "ds @ [?b]" "Some i"] Cons.prems(2,3) wf_push [OF b] ds bs p by (simp add: open_ok_def)
  next
    case False
    let ?o = "if bd_fact_entity ?new \<noteq> None then Some (length bs) else None"
    have run: "collect_bundles cs (bs @ [?new]) ?o xs = (bs', xs')" using Cons.prems(1) False p by (auto simp: Let_def split: option.splits)
    have "\<not> reads_fact (hd (bundle_patterns (last bs))) p" if "bs \<noteq> []"
    proof (cases opened)
      case None
      then show ?thesis using Cons.prems(3,4) that fact_entity_None [of "last bs"] by (simp add: open_ok_def)
    next
      case (Some i)
      then have "bs ! i = last bs" using Cons.prems(4) by (simp add: open_ok_def last_conv_nth)
      then show ?thesis using Some False accepts_iff [of "last bs" p] Cons.prems(3) that by auto
    qed
    then have "no_split (bs @ [?new])" using Cons.prems(5) by (simp add: no_split_snoc new)
    moreover have "open_ok (bs @ [?new]) ?o" by (simp add: open_ok_def)
    ultimately show ?thesis using Cons.IH [OF run] Cons.prems(2,3) wf_bundle_new [of p] new p by auto
  qed
  next
    case (2 e out)
    then show ?thesis using Cons.IH [of bs opened "xs @ [(e, out)]"] Cons.prems by simp
  qed
qed simp

section \<open>Placement\<close>

definition entry_vars :: "(pattern \<times> index_hint) list \<Rightarrow> string set" where
  "entry_vars es = (\<Union>(p, _) \<in> set es. set (pattern_bound_vars p))"

definition bundles_vars :: "fact_bundle list \<Rightarrow> string set" where
  "bundles_vars bs = (\<Union>b \<in> set bs. entry_vars (bd_entries b))"

lemma vars_simps [simp]:
  "entry_vars [] = {}" "entry_vars ((p, h) # es) = set (pattern_bound_vars p) \<union> entry_vars es"
  "entry_vars (es @ fs) = entry_vars es \<union> entry_vars fs"
  "bundles_vars [] = {}" "bundles_vars (b # bs) = entry_vars (bd_entries b) \<union> bundles_vars bs"
  by (auto simp: entry_vars_def bundles_vars_def)

lemma scan_entries_Some:
  "scan_entries vars i es bound = (Some j, b) \<Longrightarrow>
     i \<le> j \<and> j < i + length es \<and> set vars \<subseteq> set bound \<union> entry_vars (take (Suc (j - i)) es)"
proof (induction vars i es bound rule: scan_entries.induct)
  case (2 vars i p h es bound)
  show ?case
  proof (cases "list_all (\<lambda>v. v \<in> set (bound @ pattern_bound_vars p)) vars")
    case True
    then show ?thesis using "2.prems" by (auto simp: list_all_iff Let_def)
  next
    case False
    then have "scan_entries vars (Suc i) es (bound @ pattern_bound_vars p) = (Some j, b)" using "2.prems" by (simp add: Let_def)
    then have IH: "Suc i \<le> j" "j < Suc i + length es"
      "set vars \<subseteq> set (bound @ pattern_bound_vars p) \<union> entry_vars (take (Suc (j - Suc i)) es)" using 2 False by auto
    then have "Suc (j - i) = Suc (Suc (j - Suc i))" by simp
    then show ?thesis using IH by auto
  qed
qed simp

lemma scan_entries_None:
  "scan_entries vars i es bound = (None, b) \<Longrightarrow> set b = set bound \<union> entry_vars es \<and> (es \<noteq> [] \<longrightarrow> \<not> set vars \<subseteq> set b)"
  by (induction vars i es bound rule: scan_entries.induct) (auto simp: Let_def list_all_iff split: if_splits)

lemma scan_bundles_Some:
  "scan_bundles vars i bs bound = Some (k, j) \<Longrightarrow>
     i \<le> k \<and> k < i + length bs \<and> j < length (bd_entries (bs ! (k - i))) \<and>
     set vars \<subseteq> set bound \<union> bundles_vars (take (k - i) bs) \<union> entry_vars (take (Suc j) (bd_entries (bs ! (k - i))))"
proof (induction vars i bs bound rule: scan_bundles.induct)
  case (2 vars i b bs bound)
  show ?case
  proof (cases "scan_entries vars 0 (bd_entries b) bound")
    case (Pair r bound')
    show ?thesis
    proof (cases r)
      case None
      then have "scan_bundles vars (Suc i) bs bound' = Some (k, j)" using 2 Pair by simp
      then have IH: "Suc i \<le> k" "k < Suc i + length bs" "j < length (bd_entries (bs ! (k - Suc i)))"
        "set vars \<subseteq> set bound' \<union> bundles_vars (take (k - Suc i) bs) \<union> entry_vars (take (Suc j) (bd_entries (bs ! (k - Suc i))))"
        using 2 Pair None by auto
      moreover have "k - i = Suc (k - Suc i)" using IH(1) by simp
      moreover have "set bound' = set bound \<union> entry_vars (bd_entries b)" using scan_entries_None Pair None by blast
      ultimately show ?thesis by auto
    next
      case (Some j')
      then show ?thesis using 2 Pair scan_entries_Some [of vars 0 "bd_entries b" bound j' bound'] by simp
    qed
  qed
qed simp

text \<open>An expression that is not scheduled has no variables, or one that no pattern binds.\<close>

lemma scan_bundles_None:
  "scan_bundles vars i bs bound = None \<Longrightarrow> \<forall>b \<in> set bs. bd_entries b \<noteq> [] \<Longrightarrow> bs \<noteq> [] \<Longrightarrow>
     \<not> set vars \<subseteq> set bound \<union> bundles_vars bs"
proof (induction vars i bs bound rule: scan_bundles.induct)
  case (2 vars i b bs bound)
  then obtain bound' where none: "scan_entries vars 0 (bd_entries b) bound = (None, bound')" "scan_bundles vars (Suc i) bs bound' = None"
    by (auto split: prod.splits option.splits)
  then have "set bound' = set bound \<union> entry_vars (bd_entries b)" "\<not> set vars \<subseteq> set bound'"
    using scan_entries_None [OF none(1)] "2.prems"(2) by auto
  then show ?case using 2 none by (cases "bs = []") auto
qed simp

definition schedule_ok :: "fact_bundle list \<Rightarrow> placed \<Rightarrow> bool" where
  "schedule_ok bs st \<longleftrightarrow>
     length (fst st) = length bs \<and> (\<forall>i < length bs. length (fst st ! i) = length (bd_entries (bs ! i))) \<and>
     (\<forall>i j x. i < length bs \<and> j < length (bd_entries (bs ! i)) \<and> x \<in> set (fst st ! i ! j) \<longrightarrow> insertion_point bs (fst x) = Some (i, j)) \<and>
     (\<forall>x \<in> set (snd st). insertion_point bs (fst x) = None)"

lemma mset_concat_map_update:
  assumes "i < length xs" and "mset (f y) = add_mset a (mset (f (xs ! i)))"
  shows "mset (concat (map f (xs[i := y]))) = add_mset a (mset (concat (map f xs)))"
proof -
  have "xs[i := y] = take i xs @ y # drop (Suc i) xs" "xs = take i xs @ xs ! i # drop (Suc i) xs"
    using assms(1) by (simp_all add: upd_conv_take_nth_drop id_take_nth_drop)
  then have "mset (concat (map f (xs[i := y]))) = mset (concat (map f (take i xs))) + mset (f y) + mset (concat (map f (drop (Suc i) xs)))"
    "mset (concat (map f xs)) = mset (concat (map f (take i xs))) + mset (f (xs ! i)) + mset (concat (map f (drop (Suc i) xs)))"
    by (metis append.assoc concat.simps(2) concat_append list.simps(9) map_append mset_append)+
  then show ?thesis using assms(2) by simp
qed

lemma place_expr_ok:
  assumes "schedule_ok bs st"
  shows "schedule_ok bs (place_expr bs x st)"
    and "mset (concat (map concat (fst (place_expr bs x st)))) + mset (snd (place_expr bs x st)) =
      add_mset x (mset (concat (map concat (fst st))) + mset (snd st))"
proof -
  obtain sch tr where st: "st = (sch, tr)" by fastforce
  have "schedule_ok bs (place_expr bs x st) \<and> mset (concat (map concat (fst (place_expr bs x st)))) + mset (snd (place_expr bs x st)) =
      add_mset x (mset (concat (map concat (fst st))) + mset (snd st))"
  proof (cases "insertion_point bs (fst x)")
    case None
    then show ?thesis using assms by (auto simp: st place_expr_def schedule_ok_def)
  next
    case (Some ij)
    then obtain i j where ij: "insertion_point bs (fst x) = Some (i, j)" by (cases ij) simp
    then have lt: "i < length bs" "j < length (bd_entries (bs ! i))"
      using scan_bundles_Some [of "expr_vars (fst x)" 0 bs "[]" i j] by (auto simp: insertion_point_def split: if_splits)
    then have lt': "i < length sch" "j < length (sch ! i)" using assms by (simp_all add: st schedule_ok_def)
    let ?row = "(sch ! i)[j := sch ! i ! j @ [x]]"
    have place: "place_expr bs x st = (sch[i := ?row], tr)" using ij lt' by (simp add: st place_expr_def)
    have "mset (concat (map id ?row)) = add_mset x (mset (concat (map id (sch ! i))))"
      using mset_concat_map_update [OF lt'(2), of id "sch ! i ! j @ [x]" x] by simp
    then have "mset (concat (map concat (sch[i := ?row]))) = add_mset x (mset (concat (map concat sch)))"
      using mset_concat_map_update [OF lt'(1), of concat ?row x] by simp
    moreover have "schedule_ok bs (sch[i := ?row], tr)"
      using assms ij lt lt' by (auto simp: st schedule_ok_def nth_list_update split: if_splits) blast
    ultimately show ?thesis unfolding place by (simp add: st)
  qed
  then show "schedule_ok bs (place_expr bs x st)"
    and "mset (concat (map concat (fst (place_expr bs x st)))) + mset (snd (place_expr bs x st)) =
      add_mset x (mset (concat (map concat (fst st))) + mset (snd st))" by blast+
qed

lemma schedule_all:
  assumes "schedule_ok bs st"
  shows "schedule_ok bs (fold (place_expr bs) xs st) \<and>
    mset (concat (map concat (fst (fold (place_expr bs) xs st)))) + mset (snd (fold (place_expr bs) xs st)) =
      mset xs + (mset (concat (map concat (fst st))) + mset (snd st))"
  using assms
proof (induction xs arbitrary: st)
  case (Cons x xs)
  then show ?case using Cons.IH [OF place_expr_ok(1) [OF Cons.prems, of x]] place_expr_ok(2) [OF Cons.prems, of x] by simp
qed simp

section \<open>The plan\<close>

lemma expr_entry_simps [simp]:
  "patterns_of (map (fst \<circ> expr_entry) xs) = []" "exprs_of (map (fst \<circ> expr_entry) xs) = xs"
  by (induction xs) (simp_all add: expr_entry_def)

lemma emit_bundle_parts:
  assumes "length after = length (bd_entries b)"
  shows "patterns_of (map fst (emit_bundle b after)) = bundle_patterns b" and "exprs_of (map fst (emit_bundle b after)) = concat after"
proof -
  have "length after = length es \<Longrightarrow>
      patterns_of (map fst (concat (map (\<lambda>((p, hint), xs). (WPattern p, Some hint) # map expr_entry xs) (zip es after)))) = map fst es \<and>
      exprs_of (map fst (concat (map (\<lambda>((p, hint), xs). (WPattern p, Some hint) # map expr_entry xs) (zip es after)))) = concat after" for es
    by (induction after es rule: list_induct2) auto
  from this [OF assms] show "patterns_of (map fst (emit_bundle b after)) = bundle_patterns b" and "exprs_of (map fst (emit_bundle b after)) = concat after"
    by (simp_all add: emit_bundle_def bundle_patterns_def)
qed

lemma emit_all_parts:
  assumes "length sch = length bs" and "\<forall>i < length bs. length (sch ! i) = length (bd_entries (bs ! i))"
  shows "patterns_of (map fst (concat (map (\<lambda>(b, after). emit_bundle b after) (zip bs sch)))) = concat (map bundle_patterns bs) \<and>
    exprs_of (map fst (concat (map (\<lambda>(b, after). emit_bundle b after) (zip bs sch)))) = concat (map concat sch)"
  using assms
proof (induction sch bs rule: list_induct2)
  case (Cons row sch b bs)
  have "length row = length (bd_entries b)" "\<forall>i < length bs. length (sch ! i) = length (bd_entries (bs ! i))"
    using Cons.prems by fastforce+
  then show ?case using Cons.IH emit_bundle_parts [of row b] by simp
qed simp

text \<open>Every expression over the variables \<open>A\<close> comes after patterns that bind its variables, if \<open>B\<close> are bound
  before.\<close>

fun well_placed :: "string set \<Rightarrow> string set \<Rightarrow> (where_clause \<times> index_hint option) list \<Rightarrow> bool" where
  "well_placed A B [] = True"
| "well_placed A B ((c, _) # cs) =
     (case c of
        WPattern p \<Rightarrow> well_placed A (B \<union> set (pattern_bound_vars p)) cs
      | WExpr e _ \<Rightarrow> (set (expr_vars e) \<subseteq> A \<longrightarrow> set (expr_vars e) \<subseteq> B) \<and> well_placed A B cs
      | _ \<Rightarrow> well_placed A B cs)"

definition plan_vars :: "(where_clause \<times> index_hint option) list \<Rightarrow> string set" where
  "plan_vars cs = (\<Union>p \<in> set (patterns_of (map fst cs)). set (pattern_bound_vars p))"

lemma plan_vars_simps [simp]: "plan_vars [] = {}" "plan_vars (cs @ ds) = plan_vars cs \<union> plan_vars ds"
  "plan_vars ((WPattern p, h) # cs) = set (pattern_bound_vars p) \<union> plan_vars cs" "plan_vars (map expr_entry xs) = {}"
  by (simp_all add: plan_vars_def)

lemma well_placed_append: "well_placed A B (cs @ ds) \<longleftrightarrow> well_placed A B cs \<and> well_placed A (B \<union> plan_vars cs) ds"
  by (induction A B cs rule: well_placed.induct)
    (auto simp: plan_vars_def patterns_of_def List.map_filter_def Un_assoc split: where_clause.splits)

lemma well_placed_exprs: "well_placed A B (map expr_entry xs) \<longleftrightarrow> (\<forall>x \<in> set xs. set (expr_vars (fst x)) \<subseteq> A \<longrightarrow> set (expr_vars (fst x)) \<subseteq> B)"
  by (induction xs) (auto simp: expr_entry_def)

lemma emit_bundle_placed:
  assumes "length after = length es" and "\<forall>j < length es. \<forall>x \<in> set (after ! j). set (expr_vars (fst x)) \<subseteq> B \<union> entry_vars (take (Suc j) es)"
  shows "well_placed A B (concat (map (\<lambda>((p, hint), xs). (WPattern p, Some hint) # map expr_entry xs) (zip es after))) \<and>
    plan_vars (concat (map (\<lambda>((p, hint), xs). (WPattern p, Some hint) # map expr_entry xs) (zip es after))) = entry_vars es"
  using assms
proof (induction after es arbitrary: B rule: list_induct2)
  case (Cons xs after e es)
  obtain p h where e: "e = (p, h)" by fastforce
  have "\<forall>j < length es. \<forall>x \<in> set (after ! j). set (expr_vars (fst x)) \<subseteq> (B \<union> set (pattern_bound_vars p)) \<union> entry_vars (take (Suc j) es)"
    using Cons.prems by (fastforce simp: e)
  then have IH: "well_placed A (B \<union> set (pattern_bound_vars p)) (concat (map (\<lambda>((p, hint), xs). (WPattern p, Some hint) # map expr_entry xs) (zip es after)))"
    "plan_vars (concat (map (\<lambda>((p, hint), xs). (WPattern p, Some hint) # map expr_entry xs) (zip es after))) = entry_vars es"
    using Cons.IH by blast+
  have "\<forall>x \<in> set xs. set (expr_vars (fst x)) \<subseteq> B \<union> set (pattern_bound_vars p)" using Cons.prems by (fastforce simp: e)
  then show ?case using IH by (simp add: e well_placed_append well_placed_exprs)
qed simp

lemma emit_all_placed:
  assumes "length sch = length bs" and "\<forall>i < length bs. length (sch ! i) = length (bd_entries (bs ! i))"
    and "\<forall>i < length bs. \<forall>j < length (bd_entries (bs ! i)). \<forall>x \<in> set (sch ! i ! j).
      set (expr_vars (fst x)) \<subseteq> B \<union> bundles_vars (take i bs) \<union> entry_vars (take (Suc j) (bd_entries (bs ! i)))"
  shows "well_placed A B (concat (map (\<lambda>(b, after). emit_bundle b after) (zip bs sch)))"
  using assms
proof (induction sch bs arbitrary: B rule: list_induct2)
  case (Cons row sch b bs)
  let ?B = "B \<union> entry_vars (bd_entries b)"
  have len: "length row = length (bd_entries b)" "\<forall>i < length bs. length (sch ! i) = length (bd_entries (bs ! i))"
    using Cons.prems(1) by fastforce+
  have "\<forall>i < length bs. \<forall>j < length (bd_entries (bs ! i)). \<forall>x \<in> set (sch ! i ! j).
      set (expr_vars (fst x)) \<subseteq> ?B \<union> bundles_vars (take i bs) \<union> entry_vars (take (Suc j) (bd_entries (bs ! i)))"
    using Cons.prems(2) by (fastforce simp: Un_assoc)
  then have "well_placed A ?B (concat (map (\<lambda>(b, after). emit_bundle b after) (zip bs sch)))" using Cons.IH [OF len(2)] by blast
  moreover have "\<forall>j < length (bd_entries b). \<forall>x \<in> set (row ! j). set (expr_vars (fst x)) \<subseteq> B \<union> entry_vars (take (Suc j) (bd_entries b))"
    using Cons.prems(2) by fastforce
  ultimately show ?case using emit_bundle_placed [OF len(1), of B] by (simp add: emit_bundle_def well_placed_append)
qed simp

lemma insort_key_map: "insort_key f (g x) (map g xs) = map g (insort_key (\<lambda>x. f (g x)) x xs)"
  by (induction xs) simp_all

lemma sort_key_map: "sort_key f (map g xs) = map g (sort_key (\<lambda>x. f (g x)) xs)"
  by (induction xs) (simp_all add: insort_key_map)

lemma insort_key_same: "f x = g x \<Longrightarrow> \<forall>y \<in> set xs. f y = g y \<Longrightarrow> insort_key f x xs = insort_key g x xs"
  by (induction xs) auto

lemma sort_key_same: "\<forall>y \<in> set xs. f y = g y \<Longrightarrow> sort_key f xs = sort_key g xs"
proof (induction xs)
  case (Cons x xs)
  then show ?case using insort_key_same [of f x g "sort_key g xs"] by simp
qed simp

lemma plan_parts:
  assumes "list_all plan_clause cs"
  obtains bs st where "\<forall>b \<in> set bs. wf_bundle b" "no_split bs" "concat (map bundle_patterns bs) = patterns_of cs"
    "schedule_ok (sort_bundles bs) st" "mset (concat (map concat (fst st))) + mset (snd st) = mset (exprs_of cs)"
    "plan cs = concat (map (\<lambda>(b, after). emit_bundle b after) (zip (sort_bundles bs) (fst st))) @ map expr_entry (snd st)"
proof -
  obtain bs xs where run: "collect_bundles cs [] None [] = (bs, xs)" by fastforce
  let ?bs = "sort_bundles bs"
  let ?init = "(map (\<lambda>b. replicate (length (bd_entries b)) []) ?bs, [])"
  have coll: "\<forall>b \<in> set bs. wf_bundle b" "no_split bs" "concat (map bundle_patterns bs) = patterns_of cs" "xs = exprs_of cs"
    using collect_bundles_inv [OF run assms] by (simp_all add: open_ok_def no_split_def)
  have "schedule_ok ?bs ?init" by (auto simp: schedule_ok_def)
  moreover have "mset (concat (map concat (fst ?init))) + mset (snd ?init) = {#}" by (auto simp: concat_eq_Nil_conv)
  ultimately have "schedule_ok ?bs (fold (place_expr ?bs) xs ?init)"
    "mset (concat (map concat (fst (fold (place_expr ?bs) xs ?init)))) + mset (snd (fold (place_expr ?bs) xs ?init)) = mset xs"
    using schedule_all [of ?bs ?init xs] by simp_all
  moreover have "plan cs = concat (map (\<lambda>(b, after). emit_bundle b after) (zip ?bs (fst (fold (place_expr ?bs) xs ?init)))) @
      map expr_entry (snd (fold (place_expr ?bs) xs ?init))"
    by (simp add: plan_def run Let_def split: prod.split)
  ultimately show ?thesis using that coll by blast
qed

text \<open>C15: a plan has exactly the patterns and expressions of the query.  The patterns are cut into consecutive groups,
  each a pattern with all following pseudo-attribute patterns that read its fact, and the plan has the groups
  unbroken, ordered by decreasing selectivity and otherwise in source order.\<close>

theorem plan_structure:
  assumes "list_all plan_clause cs"
  shows "mset (exprs_of (map fst (plan cs))) = mset (exprs_of cs) \<and>
    (\<exists>groups. concat groups = patterns_of cs \<and>
      patterns_of (map fst (plan cs)) = concat (sort_key (\<lambda>g. - int (selectivity_score (hd g))) groups) \<and>
      (\<forall>g \<in> set groups. g \<noteq> [] \<and> list_all (reads_fact (hd g)) (tl g)) \<and>
      (\<forall>i. Suc i < length groups \<longrightarrow> \<not> reads_fact (hd (groups ! i)) (hd (groups ! Suc i))))"
proof -
  obtain bs st where bs: "\<forall>b \<in> set bs. wf_bundle b" "no_split bs" "concat (map bundle_patterns bs) = patterns_of cs"
    and st: "schedule_ok (sort_bundles bs) st" "mset (concat (map concat (fst st))) + mset (snd st) = mset (exprs_of cs)"
    and plan: "plan cs = concat (map (\<lambda>(b, after). emit_bundle b after) (zip (sort_bundles bs) (fst st))) @ map expr_entry (snd st)"
    using plan_parts [OF assms] .
  have parts: "patterns_of (map fst (plan cs)) = concat (map bundle_patterns (sort_bundles bs))"
    "exprs_of (map fst (plan cs)) = concat (map concat (fst st)) @ snd st"
    using emit_all_parts [of "fst st" "sort_bundles bs"] st(1) by (simp_all add: plan schedule_ok_def)
  have "bundle_selectivity b = selectivity_score (hd (bundle_patterns b))" if "b \<in> set bs" for b
    using bs(1) that by (auto simp: wf_bundle_def bundle_selectivity_def bundle_patterns_def split: list.split)
  then have "sort_bundles bs = sort_key (\<lambda>b. - int (selectivity_score (hd (bundle_patterns b)))) bs"
    unfolding sort_bundles_def by (intro sort_key_same) simp
  then have "map bundle_patterns (sort_bundles bs) = sort_key (\<lambda>g. - int (selectivity_score (hd g))) (map bundle_patterns bs)"
    by (simp add: sort_key_map)
  moreover have "\<forall>g \<in> set (map bundle_patterns bs). g \<noteq> [] \<and> list_all (reads_fact (hd g)) (tl g)"
    using bs(1) by (auto simp: wf_bundle_def bundle_patterns_def)
  ultimately show ?thesis using bs(2,3) st(2) parts
    by (intro conjI exI [of _ "map bundle_patterns bs"]) (auto simp: no_split_def)
qed

lemma plan_well_placed:
  assumes "list_all plan_clause cs"
  shows "well_placed (\<Union>p \<in> set (patterns_of cs). set (pattern_bound_vars p)) {} (plan cs)"
proof -
  obtain bs st where bs: "\<forall>b \<in> set bs. wf_bundle b" "no_split bs" "concat (map bundle_patterns bs) = patterns_of cs"
    and st: "schedule_ok (sort_bundles bs) st" "mset (concat (map concat (fst st))) + mset (snd st) = mset (exprs_of cs)"
    and plan: "plan cs = concat (map (\<lambda>(b, after). emit_bundle b after) (zip (sort_bundles bs) (fst st))) @ map expr_entry (snd st)"
    using plan_parts [OF assms] .
  let ?main = "concat (map (\<lambda>(b, after). emit_bundle b after) (zip (sort_bundles bs) (fst st)))"
  let ?A = "\<Union>p \<in> set (patterns_of cs). set (pattern_bound_vars p)"
  have "patterns_of (map fst ?main) = concat (map bundle_patterns (sort_bundles bs))"
    using emit_all_parts [of "fst st" "sort_bundles bs"] st(1) by (simp add: schedule_ok_def)
  moreover have "set (concat (map bundle_patterns (sort_bundles bs))) = set (patterns_of cs)"
    by (simp add: bs(3) [symmetric] sort_bundles_def)
  ultimately have "plan_vars ?main = ?A" by (simp add: plan_vars_def)
  moreover have "set (expr_vars (fst x)) \<subseteq> bundles_vars (take i (sort_bundles bs)) \<union> entry_vars (take (Suc j) (bd_entries (sort_bundles bs ! i)))"
    if "i < length (sort_bundles bs)" "j < length (bd_entries (sort_bundles bs ! i))" "x \<in> set (fst st ! i ! j)" for i j x
  proof -
    have "insertion_point (sort_bundles bs) (fst x) = Some (i, j)" using st(1) that by (auto simp: schedule_ok_def) (metis prod.collapse)
    then show ?thesis using scan_bundles_Some [of "expr_vars (fst x)" 0 "sort_bundles bs" "[]" i j]
      by (auto simp: insertion_point_def split: if_splits)
  qed
  then have "well_placed ?A {} ?main"
    using st(1) by (intro emit_all_placed) (auto simp: schedule_ok_def)
  ultimately show ?thesis by (auto simp: plan well_placed_append well_placed_exprs)
qed

text \<open>C16: an expression whose variables the patterns of the query bind is placed after patterns that bind all of
  them.\<close>

theorem plan_binds_before_use:
  assumes "list_all plan_clause cs" and "plan cs = before @ (WExpr e out, hint) # rest"
    and "set (expr_vars e) \<subseteq> (\<Union>p \<in> set (patterns_of cs). set (pattern_bound_vars p))"
  shows "set (expr_vars e) \<subseteq> (\<Union>p \<in> set (patterns_of (map fst before)). set (pattern_bound_vars p))"
  using plan_well_placed [OF assms(1)] assms(2,3) by (simp add: well_placed_append plan_vars_def)

section \<open>Join order\<close>

lemma mset_concat_map: "mset (concat (map f xs)) = (\<Sum>x \<in># mset xs. mset (f x))"
  by (induction xs) simp_all

lemma plan_patterns_mset:
  assumes "list_all plan_clause cs"
  shows "mset (patterns_of (map fst (plan cs))) = mset (patterns_of cs)"
proof -
  obtain bs st where bs: "concat (map bundle_patterns bs) = patterns_of cs" and st: "schedule_ok (sort_bundles bs) st"
    and plan: "plan cs = concat (map (\<lambda>(b, after). emit_bundle b after) (zip (sort_bundles bs) (fst st))) @ map expr_entry (snd st)"
    using plan_parts [OF assms] .
  have "patterns_of (map fst (plan cs)) = concat (map bundle_patterns (sort_bundles bs))"
    using emit_all_parts [of "fst st" "sort_bundles bs"] st by (simp add: plan schedule_ok_def)
  then show ?thesis by (simp add: bs [symmetric] mset_concat_map sort_bundles_def)
qed

text \<open>Reordering patterns does not change the answers.\<close>

lemma match_patterns_reorder:
  assumes "inj_on (keyword_id u) K" and "plain_matcher K m" and "\<forall>p \<in> set ps. plain_pattern p" and "\<not> pm_retain m"
    and "mset qs = mset ps" and "b \<in> set (match_patterns u m ps)"
  shows "\<exists>b' \<in> set (match_patterns u m qs). dom (map_of b') = dom (map_of b) \<and> agrees u (map_of b') (map_of b)"
proof -
  have set: "set qs = set ps" using assms(5) by (metis set_mset_mset)
  obtain fs where fs: "set fs \<subseteq> set (get_facts m)" "list_all2 (fact_sat u (map_of b)) ps fs"
    using match_patterns_sound(2) [OF assms(1-4,6)] by blast
  obtain gs where gs: "list_all2 (fact_sat u (map_of b)) qs gs" "mset gs = mset fs"
    using list_all2_reorder_left_invariance [OF fs(2) assms(5)] by blast
  have "set gs \<subseteq> set (get_facts m)" using fs(1) gs(2) by (metis set_mset_mset)
  then obtain b' where b': "b' \<in> set (match_patterns u m qs)" "agrees u (map_of b') (map_of b)"
    using match_patterns_complete [OF assms(1,2) _ assms(4) _ gs(1)] assms(3) set by auto
  moreover have "dom (map_of b') = dom (map_of b)"
    using match_patterns_sound(1) [OF assms(1,2) _ assms(4) b'(1)] match_patterns_sound(1) [OF assms(1-4,6)] assms(3) set by simp
  ultimately show ?thesis by blast
qed


definition sample_query :: "where_clause list" where
  "sample_query =
     [WExpr (XBin OpEq (XVar ''?n'') (XLit (String ''Bob''))) None,
      WPattern (pattern_new (ESymbol ''?x'') (EKeyword '':friend'') (ESymbol ''?y'')), WPattern sample_pattern]"

lemma sample_query_ok: "list_all plan_clause sample_query" "\<forall>p \<in> set (patterns_of sample_query). plain_pattern p"
  using sample_plain(3) by (simp_all add: sample_query_def plan_clause_def plain_pattern_def pattern_new_def)

theorem plan_structure_witness: "mset (exprs_of (map fst (plan sample_query))) = mset (exprs_of sample_query)"
  using plan_structure [OF sample_query_ok(1)] by blast

lemma sample_plan:
  "plan sample_query =
     [(WPattern (pattern_new (ESymbol ''?x'') (EKeyword '':friend'') (ESymbol ''?y'')), Some HintAevt),
      (WPattern sample_pattern, Some HintAevt), (WExpr (XBin OpEq (XVar ''?n'') (XLit (String ''Bob''))) None, None)]"
  by (simp add: plan_def sample_query_def sample_pattern_def pattern_new_def select_index_def bundle_new_def starts_with_def
    accepts_per_fact_pseudo_def sort_bundles_def bundle_selectivity_def selectivity_score_def place_expr_def insertion_point_def
    pattern_bound_vars_def var_of_def emit_bundle_def expr_entry_def)

theorem plan_binds_before_use_witness:
  "set (expr_vars (XBin OpEq (XVar ''?n'') (XLit (String ''Bob'')))) \<subseteq>
   (\<Union>p \<in> set (patterns_of (map fst (take 2 (plan sample_query)))). set (pattern_bound_vars p))"
proof (rule plan_binds_before_use [OF sample_query_ok(1)])
  show "plan sample_query = take 2 (plan sample_query) @ (WExpr (XBin OpEq (XVar ''?n'') (XLit (String ''Bob''))) None, None) # []"
    by (simp add: sample_plan)
  show "set (expr_vars (XBin OpEq (XVar ''?n'') (XLit (String ''Bob'')))) \<subseteq> (\<Union>p \<in> set (patterns_of sample_query). set (pattern_bound_vars p))"
    by (simp add: sample_query_def sample_pattern_def pattern_new_def pattern_bound_vars_def var_of_def starts_with_def)
qed

text \<open>A query whose second pattern is the more selective one.\<close>

definition friend_pattern :: pattern where
  "friend_pattern = pattern_new (ESymbol ''?x'') (EKeyword '':friend'') (ESymbol ''?y'')"

definition bob_pattern :: pattern where
  "bob_pattern = pattern_new (ESymbol ''?y'') (EKeyword '':name'') (EString ''Bob'')"

lemma friends_plan: "patterns_of (map fst (plan [WPattern friend_pattern, WPattern bob_pattern])) = [bob_pattern, friend_pattern]"
  by (simp add: plan_def friend_pattern_def bob_pattern_def pattern_new_def select_index_def bundle_new_def starts_with_def
    accepts_per_fact_pseudo_def sort_bundles_def bundle_selectivity_def selectivity_score_def emit_bundle_def patterns_of_def
    map_filter_simps)

lemma friends_row: "\<exists>b. b \<in> set (match_patterns sample_uuids (matcher_from_slice sample_facts) [friend_pattern, bob_pattern])"
proof -
  let ?\<tau> = "[''?x'' \<mapsto> Ref 1, ''?y'' \<mapsto> Ref 4] :: string \<rightharpoonup> value" and ?m = "matcher_from_slice sample_facts"
  have "list_all2 (fact_sat sample_uuids ?\<tau>) [friend_pattern, bob_pattern] sample_facts"
    by (simp add: sample_facts_def fact_sat_def friend_pattern_def bob_pattern_def pattern_new_def fact_new_def comp_sat_def
      starts_with_def is_wildcard_def sample_keyword)
  moreover have "\<forall>p \<in> set [friend_pattern, bob_pattern]. plain_pattern p"
    by (simp add: plain_pattern_def friend_pattern_def bob_pattern_def pattern_new_def)
  moreover have "set sample_facts \<subseteq> set (get_facts ?m)" "\<not> pm_retain ?m"
    by (simp_all add: get_facts_def matcher_from_slice_def)
  ultimately show ?thesis using match_patterns_complete [OF sample_plain(1,2)] by blast
qed


end
