(* ===== verification/Rule_Eval.thy ===== *)
theory Rule_Eval
  imports Stratification Matcher
begin

text \<open>
  Evaluation of recursive rules (\<open>RecursiveEvaluator\<close> in \<open>query/datalog/evaluator.rs\<close>): the rule head, one
  rule, one round over all rules, and the fixed-point loop with its limits; and the test of a \<open>not-join\<close> body.
  The clock read by the transaction with a given count is the function \<open>clock\<close>.  The lemmas show that the loop
  computes exactly the facts derivable from the base facts, and that it ends with a result when the limits are
  large enough.
\<close>

section \<open>Heads and bodies\<close>

datatype eval_error = MaxIterations nat | MaxDerivedFacts nat | MaxQueryResults nat | EvalStore store_error
  | BadInvocation string nat | NegationInRule | DisjunctionInRule | HeadTooShort | HeadNoPredicate | HeadUnbound string
  | HeadConvert convert_error | EvalPanic

text \<open>This conversion differs from the matcher's on \<open>Null\<close>.\<close>

fun value_to_edn :: "value \<Rightarrow> edn_value" where
  "value_to_edn (String s) = EString s"
| "value_to_edn (Integer i) = EInteger i"
| "value_to_edn (Float f) = EFloat f"
| "value_to_edn (Boolean b) = EBoolean b"
| "value_to_edn (Ref i) = EUuid i"
| "value_to_edn (Keyword k) = EKeyword k"
| "value_to_edn Null = ESymbol ''nil''"

definition rule_invocation_to_pattern :: "string \<Rightarrow> edn_value list \<Rightarrow> eval_error + pattern" where
  "rule_invocation_to_pattern predicate args =
     (case args of
        [a] \<Rightarrow> Inr (pattern_new a (EKeyword ('':'' @ predicate)) (ESymbol ''?_rule_value''))
      | [a, b] \<Rightarrow> Inr (pattern_new a (EKeyword ('':'' @ predicate)) b)
      | _ \<Rightarrow> Inl (BadInvocation predicate (length args)))"

definition substitute_variable :: "edn_value \<Rightarrow> bindings \<Rightarrow> eval_error + edn_value" where
  "substitute_variable e b =
     (case e of
        ESymbol s \<Rightarrow>
          if starts_with s ''?'' then (case hm_get b s of Some v \<Rightarrow> Inr (value_to_edn v) | None \<Rightarrow> Inl (HeadUnbound s)) else Inr e
      | _ \<Rightarrow> Inr e)"

definition instantiate_head :: "uuid_api \<Rightarrow> edn_value list \<Rightarrow> bindings \<Rightarrow> eval_error + fact" where
  "instantiate_head u head b =
     (case head of
        x # h1 # rest \<Rightarrow>
          res_bind (case x of ESymbol predicate \<Rightarrow> Inr predicate | _ \<Rightarrow> Inl HeadNoPredicate) (\<lambda>predicate.
          res_bind (substitute_variable h1 b) (\<lambda>e.
          res_bind (map_err HeadConvert (edn_to_entity_id u e)) (\<lambda>ent.
          res_bind (case rest of
              h2 # _ \<Rightarrow> res_bind (substitute_variable h2 b) (\<lambda>v. map_err HeadConvert (edn_to_value v))
            | [] \<Rightarrow> Inr (Boolean True)) (\<lambda>v.
          Inr (fact_new ent ('':'' @ predicate) v 0)))))
      | _ \<Rightarrow> Inl HeadTooShort)"

fun split_body :: "where_clause list \<Rightarrow> pattern list \<Rightarrow> where_clause list \<Rightarrow> eval_error + (pattern list \<times> where_clause list)" where
  "split_body [] ps xs = Inr (ps, xs)"
| "split_body (c # cs) ps xs =
     (case c of
        WPattern p \<Rightarrow> split_body cs (ps @ [p]) xs
      | WRule predicate args \<Rightarrow> res_bind (rule_invocation_to_pattern predicate args) (\<lambda>p. split_body cs (ps @ [p]) xs)
      | WExpr _ _ \<Rightarrow> split_body cs ps (xs @ [c])
      | WNot _ \<Rightarrow> Inl NegationInRule
      | WNotJoin _ _ \<Rightarrow> Inl NegationInRule
      | WOr _ \<Rightarrow> Inl DisjunctionInRule
      | WOrJoin _ _ \<Rightarrow> Inl DisjunctionInRule)"

section \<open>Rounds\<close>

record 'u recursive_evaluator =
  re_storage :: fact_store
  re_rules :: rule_registry
  re_functions :: "'u function_registry"
  re_regex :: "string \<Rightarrow> string \<Rightarrow> bool"
  re_uuids :: uuid_api
  re_max_iterations :: nat
  re_max_derived_facts :: nat
  re_max_results :: nat

fun from_outcome :: "'a outcome \<Rightarrow> eval_error + 'a" where
  "from_outcome (Ok x) = Inr x"
| "from_outcome Err = Inl EvalPanic"
| "from_outcome Panic = Inl EvalPanic"

definition evaluate_rule :: "'u recursive_evaluator \<Rightarrow> fact_store \<Rightarrow> rule \<Rightarrow> eval_error + fact list" where
  "evaluate_rule ev current r =
     res_bind (split_body (r_body r) [] []) (\<lambda>(ps, xs).
       if ps = [] \<and> xs = [] then Inr []
       else
         let rows = (if ps = [] then [[]] else match_patterns (re_uuids ev) (matcher_new current) ps) in
         res_bind (from_outcome (apply_expr_clauses_in_evaluator (re_regex ev) (re_functions ev) rows xs)) (\<lambda>rows.
           res_map (instantiate_head (re_uuids ev) (r_head r)) rows))"

definition evaluate_iteration :: "'u recursive_evaluator \<Rightarrow> string list \<Rightarrow> fact_store \<Rightarrow> eval_error + fact list" where
  "evaluate_iteration ev predicates current =
     res_bind (res_map (evaluate_rule ev current) (concat (map (get_rules (re_rules ev)) predicates))) (\<lambda>fss. Inr (concat fss))"

section \<open>The fixed-point loop\<close>

type_synonym fact_key = "uuid \<times> attribute \<times> bytes"

definition fact_key :: "fact \<Rightarrow> fact_key" where
  "fact_key f = (entity f, attr f, encode_value (val f))"

fun compute_delta :: "nat \<Rightarrow> fact list \<Rightarrow> fact_key list \<Rightarrow> fact list \<Rightarrow> eval_error + (fact_key list \<times> fact list)" where
  "compute_delta max_results [] seen delta = Inr (seen, delta)"
| "compute_delta max_results (f # fs) seen delta =
     (if fact_key f \<in> set seen then compute_delta max_results fs seen delta
      else if max_results \<le> length seen then Inl (MaxQueryResults max_results)
      else compute_delta max_results fs (fact_key f # seen) (delta @ [f]))"

definition transact_one ::
    "(fact_identity \<Rightarrow> u64) \<Rightarrow> (u64 \<Rightarrow> u64) \<Rightarrow> fact \<Rightarrow> fact_store \<Rightarrow> eval_error + fact_store" where
  "transact_one h clock f s =
     (case transact h (clock (fs_tx_counter s)) s [(entity f, attr f, val f)] None of
        (_, Inl e) \<Rightarrow> Inl (EvalStore e)
      | (s', Inr _) \<Rightarrow> Inr s')"

text \<open>The first argument is the number of iterations left.\<close>

fun fixpoint_loop ::
    "nat \<Rightarrow> (fact_identity \<Rightarrow> u64) \<Rightarrow> (u64 \<Rightarrow> u64) \<Rightarrow> 'u recursive_evaluator \<Rightarrow> string list \<Rightarrow> fact_store \<Rightarrow> fact_key list \<Rightarrow>
     eval_error + fact_store" where
  "fixpoint_loop 0 h clock ev predicates derived seen = Inl (MaxIterations (re_max_iterations ev))"
| "fixpoint_loop (Suc n) h clock ev predicates derived seen =
     res_bind (evaluate_iteration ev predicates derived) (\<lambda>new_facts.
       if re_max_derived_facts ev < length new_facts then Inl (MaxDerivedFacts (re_max_derived_facts ev))
       else
         res_bind (compute_delta (re_max_results ev) new_facts seen []) (\<lambda>(seen', delta).
           if delta = [] then Inr derived
           else res_bind (res_fold (transact_one h clock) delta derived) (\<lambda>derived'.
             fixpoint_loop n h clock ev predicates derived' seen')))"

text \<open>\<open>collect\<close> into the set of seen keys.\<close>

definition evaluate_recursive_rules ::
    "(fact_identity \<Rightarrow> u64) \<Rightarrow> (u64 \<Rightarrow> u64) \<Rightarrow> 'u recursive_evaluator \<Rightarrow> string list \<Rightarrow> eval_error + fact_store" where
  "evaluate_recursive_rules h clock ev predicates =
     res_bind (map_err EvalStore (get_asserted_facts (re_storage ev))) (\<lambda>base.
     res_bind (res_fold (transact_one h clock) base fs_new) (\<lambda>derived.
     fixpoint_loop (re_max_iterations ev) h clock ev predicates derived (remdups (map fact_key base))))"

section \<open>Negated bodies\<close>

definition substitute_value :: "edn_value \<Rightarrow> bindings \<Rightarrow> edn_value" where
  "substitute_value e b =
     (case as_variable e of
        Some s \<Rightarrow> (case hm_get b s of Some v \<Rightarrow> value_to_edn v | None \<Rightarrow> e)
      | None \<Rightarrow> e)"

definition substitute_pattern :: "pattern \<Rightarrow> bindings \<Rightarrow> pattern" where
  "substitute_pattern p b =
     p\<lparr> p_entity := substitute_value (p_entity p) b,
        p_attribute := (case p_attribute p of Real a \<Rightarrow> Real (substitute_value a b) | Pseudo pa \<Rightarrow> Pseudo pa),
        p_value := substitute_value (p_value p) b \<rparr>"

definition restrict_row :: "string list \<Rightarrow> bindings \<Rightarrow> bindings" where
  "restrict_row vars b = fold (\<lambda>v r. case hm_get b v of Some x \<Rightarrow> hm_insert v x r | None \<Rightarrow> r) vars []"

fun body_pattern :: "bindings \<Rightarrow> where_clause \<Rightarrow> pattern option" where
  "body_pattern b (WPattern p) = Some (substitute_pattern p b)"
| "body_pattern b (WRule predicate args) =
     (case rule_invocation_to_pattern predicate args of Inr p \<Rightarrow> Some (substitute_pattern p b) | Inl _ \<Rightarrow> None)"
| "body_pattern b _ = None"

fun is_expr_clause :: "where_clause \<Rightarrow> bool" where
  "is_expr_clause (WExpr _ _) = True"
| "is_expr_clause _ = False"

definition fill_row :: "bindings \<Rightarrow> bindings \<Rightarrow> bindings" where
  "fill_row partial row = fold (\<lambda>(k, v) r. case hm_get r k of Some _ \<Rightarrow> r | None \<Rightarrow> hm_insert k v r) partial row"

definition evaluate_not_join ::
    "uuid_api \<Rightarrow> (string \<Rightarrow> string \<Rightarrow> bool) \<Rightarrow> 'u function_registry \<Rightarrow> string list \<Rightarrow> where_clause list \<Rightarrow> bindings \<Rightarrow> fact list \<Rightarrow>
     bool outcome" where
  "evaluate_not_join u re reg join_vars clauses b facts =
     (let partial = restrict_row join_vars b;
          ps = List.map_filter (body_pattern partial) clauses;
          rows = (if ps = [] then [partial] else map (fill_row partial) (match_patterns u (matcher_from_slice facts) ps))
      in out_bind (apply_expr_clauses_in_evaluator re reg rows (filter is_expr_clause clauses)) (\<lambda>rows. Ok (rows \<noteq> [])))"

section \<open>Stores of derived facts\<close>

type_synonym triple = "uuid \<times> attribute \<times> value"

definition triple :: "fact \<Rightarrow> triple" where
  "triple f = (entity f, attr f, val f)"

text \<open>A store filled by transactions of one fact each.\<close>

definition derived_store :: "(fact_identity \<Rightarrow> u64) \<Rightarrow> fact_store \<Rightarrow> bool" where
  "derived_store h s \<longleftrightarrow> store_inv h s \<and> (\<forall>f \<in> set (store_facts s). asserted f) \<and> fs_tx_counter s = of_nat (length (store_facts s))"

lemma derived_store_new: "derived_store h fs_new" "store_facts fs_new = []"
  by (simp_all add: derived_store_def store_inv_new) (simp_all add: fs_new_def store_facts_def get_all_facts_def)

lemma transact_one_ok:
  assumes "derived_store h s" and "length (store_facts s) < 2 ^ 32"
  shows "\<exists>s' g. transact_one h clock f s = Inr s' \<and> derived_store h s' \<and> store_facts s' = store_facts s @ [g] \<and> triple g = triple f"
proof -
  let ?g = "assertion_of (clock (fs_tx_counter s)) (fs_tx_counter s + 1) no_options (entity f) (attr f) (val f)"
  have inv: "store_inv h s" and cnt: "fs_tx_counter s = of_nat (length (store_facts s))" using assms(1) by (simp_all add: derived_store_def)
  have "unat (fs_tx_counter s) = length (store_facts s)" using assms(2) unfolding cnt by (intro unat_of_nat_eq) simp
  then have ne: "fs_tx_counter s \<noteq> -1" using assms(2) by (auto simp: unsigned_minus_1_eq_mask mask_eq_exp_minus_1)
  have "length (get_pending_facts s) \<le> length (store_facts s)" using inv pending_le_all by (simp add: store_inv_def)
  then have room: "room_for s (length [?g])" using assms(2) ne by (simp add: room_for_def)
  obtain s' where s': "append_facts h (fst (allocate_tx_count s)) [?g] = (s', Inr ())" "store_inv h s'"
    "store_facts s' = store_facts s @ [?g]" "fs_tx_counter s' = fs_tx_counter s + 1"
    using append_facts_ok [OF inv room] by auto
  have "transact_one h clock f s = Inr s'"
    using s'(1) allocate_unsaturated [OF ne] by (simp add: transact_one_def transact_def Let_def case_prod_unfold)
  moreover have "derived_store h s'" using assms(1) s' by (auto simp: derived_store_def)
  moreover have "triple ?g = triple f" by (simp add: triple_def assertion_of_def fact_with_valid_time_def)
  ultimately show ?thesis using s'(3) by blast
qed

lemma transact_all_ok:
  assumes "derived_store h s" and "length (store_facts s) + length fs \<le> 2 ^ 32"
  shows "\<exists>s'. res_fold (transact_one h clock) fs s = Inr s' \<and> derived_store h s' \<and>
    map triple (store_facts s') = map triple (store_facts s) @ map triple fs"
  using assms
proof (induction fs arbitrary: s)
  case (Cons f fs)
  obtain s1 g where s1: "transact_one h clock f s = Inr s1" "derived_store h s1" "store_facts s1 = store_facts s @ [g]" "triple g = triple f"
    using transact_one_ok [OF Cons.prems(1), of clock f] Cons.prems(2) by fastforce
  then show ?case using Cons.IH [OF s1(2)] Cons.prems(2) by auto
qed auto

lemma derived_facts: "derived_store h s \<Longrightarrow> get_facts (matcher_new s) = store_facts s"
  by (auto simp: derived_store_def store_inv_def get_facts_def matcher_new_def get_asserted_facts_def filter_id_conv)

section \<open>New facts of a round\<close>

lemma compute_delta_ok:
  assumes "compute_delta k fs seen delta = Inr (seen', delta')" and "distinct seen"
  shows "\<exists>new. delta' = delta @ new \<and> set new \<subseteq> set fs \<and> seen' = rev (map fact_key new) @ seen \<and> distinct seen' \<and>
    set seen' = set seen \<union> fact_key ` set fs \<and> (new \<noteq> [] \<longrightarrow> length seen' \<le> k)"
  using assms
proof (induction k fs seen delta rule: compute_delta.induct)
  case (2 k f fs seen delta)
  show ?case
  proof (cases "fact_key f \<in> set seen")
    case True
    then show ?thesis using 2 by (auto simp: insert_absorb)
  next
    case False
    then have "compute_delta k fs (fact_key f # seen) (delta @ [f]) = Inr (seen', delta')" "length seen < k"
      using "2.prems"(1) by (auto split: if_splits)
    then obtain new where new: "delta' = (delta @ [f]) @ new" "set new \<subseteq> set fs" "seen' = rev (map fact_key new) @ fact_key f # seen"
      "distinct seen'" "set seen' = insert (fact_key f) (set seen) \<union> fact_key ` set fs" "new \<noteq> [] \<longrightarrow> length seen' \<le> k"
      using "2.IH"(2) [OF False] "2.prems"(2) False by auto
    then show ?thesis using \<open>length seen < k\<close> by (intro exI [of _ "f # new"]) auto
  qed
qed auto

lemma compute_delta_succeeds:
  "distinct seen \<Longrightarrow> card (set seen \<union> fact_key ` set fs) \<le> k \<Longrightarrow> \<exists>r. compute_delta k fs seen delta = Inr r"
proof (induction k fs seen delta rule: compute_delta.induct)
  case (2 k f fs seen delta)
  show ?case
  proof (cases "fact_key f \<in> set seen")
    case True
    then show ?thesis using 2 by (simp add: insert_absorb)
  next
    case False
    then have "length (fact_key f # seen) = card (insert (fact_key f) (set seen))" using "2.prems"(1) by (simp add: distinct_card)
    also have "\<dots> \<le> card (set seen \<union> fact_key ` set (f # fs))" by (intro card_mono) auto
    finally have "length seen < k" using "2.prems"(2) by simp
    then show ?thesis using 2 False by simp
  qed
qed simp

section \<open>Derivable facts\<close>

text \<open>The row that a choice of one fact per pattern gives.\<close>

fun chain :: "uuid_api \<Rightarrow> pattern list \<Rightarrow> fact list \<Rightarrow> (string \<rightharpoonup> value) \<Rightarrow> (string \<rightharpoonup> value) option" where
  "chain u [] [] \<sigma> = Some \<sigma>"
| "chain u (p # ps) (f # fs) \<sigma> = Option.bind (answer u (matcher_from_slice []) p f \<sigma>) (chain u ps fs)"
| "chain u _ _ \<sigma> = None"

lemma answer_retain: "pm_retain m = pm_retain m' \<Longrightarrow> answer u m p f \<sigma> = answer u m' p f \<sigma>"
  by (simp only: answer_def hidden_entries_def)

lemma answer_triple: "triple f = triple g \<Longrightarrow> \<not> pm_retain m \<Longrightarrow> answer u m p f \<sigma> = answer u m p g \<sigma>"
  by (simp only: answer_def hidden_entries_def triple_def prod.inject if_False)

lemma answers_chain:
  assumes "\<not> pm_retain m"
  shows "\<sigma>' \<in> set (answers u m ps \<sigma>) \<longleftrightarrow> (\<exists>fs. set fs \<subseteq> set (get_facts m) \<and> chain u ps fs \<sigma> = Some \<sigma>')"
proof (induction ps arbitrary: \<sigma>)
  case Nil
  have "chain u [] fs \<sigma> = Some \<sigma>' \<longleftrightarrow> fs = [] \<and> \<sigma>' = \<sigma>" for fs by (cases fs) auto
  then show ?case by auto
next
  case (Cons p ps)
  have same: "answer u (matcher_from_slice []) p f \<sigma> = answer u m p f \<sigma>" for f
    using assms by (intro answer_retain) (simp add: matcher_from_slice_def)
  have "(\<exists>fs. set fs \<subseteq> set (get_facts m) \<and> chain u (p # ps) fs \<sigma> = Some \<sigma>') \<longleftrightarrow>
      (\<exists>f fs \<sigma>1. f \<in> set (get_facts m) \<and> set fs \<subseteq> set (get_facts m) \<and> answer u m p f \<sigma> = Some \<sigma>1 \<and> chain u ps fs \<sigma>1 = Some \<sigma>')"
    (is "?l \<longleftrightarrow> ?r")
  proof
    assume ?l
    then obtain fs where fs: "set fs \<subseteq> set (get_facts m)" "chain u (p # ps) fs \<sigma> = Some \<sigma>'" by blast
    then obtain f gs where "fs = f # gs" by (cases fs) auto
    then show ?r using fs by (auto simp: same bind_eq_Some_conv)
  next
    assume ?r
    then obtain f fs \<sigma>1 where "f \<in> set (get_facts m)" "set fs \<subseteq> set (get_facts m)" "answer u m p f \<sigma> = Some \<sigma>1" "chain u ps fs \<sigma>1 = Some \<sigma>'"
      by blast
    then show ?l by (intro exI [of _ "f # fs"]) (simp add: same)
  qed
  moreover have "set (row_answers u m p \<sigma>) = {\<sigma>1. \<exists>f \<in> set (get_facts m). answer u m p f \<sigma> = Some \<sigma>1}"
    by (force simp: row_answers_def List.map_filter_def)
  then have "\<sigma>' \<in> set (answers u m (p # ps) \<sigma>) \<longleftrightarrow>
      (\<exists>f \<in> set (get_facts m). \<exists>\<sigma>1. answer u m p f \<sigma> = Some \<sigma>1 \<and> \<sigma>' \<in> set (answers u m ps \<sigma>1))" by auto
  ultimately show ?case unfolding Cons.IH by blast
qed

lemma chain_triple: "map triple fs = map triple gs \<Longrightarrow> chain u ps fs \<sigma> = chain u ps gs \<sigma>"
proof (induction u ps fs \<sigma> arbitrary: gs rule: chain.induct)
  case (2 u p ps f fs \<sigma>)
  then obtain g gs' where gs: "gs = g # gs'" "triple f = triple g" "map triple fs = map triple gs'" by (cases gs) auto
  then have "answer u (matcher_from_slice []) p f \<sigma> = answer u (matcher_from_slice []) p g \<sigma>"
    by (intro answer_triple) (simp_all add: matcher_from_slice_def)
  then show ?case using 2 gs by (cases "answer u (matcher_from_slice []) p g \<sigma>") simp_all
qed (auto simp: Cons_eq_map_conv)

text \<open>A triple follows by one rule from triples with a property.\<close>

definition follows :: "'u recursive_evaluator \<Rightarrow> rule \<Rightarrow> (triple \<Rightarrow> bool) \<Rightarrow> triple \<Rightarrow> bool" where
  "follows ev r X t \<longleftrightarrow>
     (\<exists>ps xs fs b b' f. split_body (r_body r) [] [] = Inr (ps, xs) \<and> (ps \<noteq> [] \<or> xs \<noteq> []) \<and> list_all X (map triple fs) \<and>
        chain (re_uuids ev) ps fs Map.empty = Some (map_of b) \<and> expr_chain (re_regex ev) (re_functions ev) xs b = Ok (Some b') \<and>
        instantiate_head (re_uuids ev) (r_head r) b' = Inr f \<and> t = triple f)"

lemma followsI:
  "split_body (r_body r) [] [] = Inr (ps, xs) \<Longrightarrow> ps \<noteq> [] \<or> xs \<noteq> [] \<Longrightarrow> list_all X (map triple fs) \<Longrightarrow>
   chain (re_uuids ev) ps fs Map.empty = Some (map_of b) \<Longrightarrow> expr_chain (re_regex ev) (re_functions ev) xs b = Ok (Some b') \<Longrightarrow>
   instantiate_head (re_uuids ev) (r_head r) b' = Inr f \<Longrightarrow> follows ev r X (triple f)"
  unfolding follows_def by blast

lemma follows_mono [mono]:
  assumes "\<And>x. X x \<longrightarrow> Y x"
  shows "follows ev r X t \<longrightarrow> follows ev r Y t"
  unfolding follows_def using assms
  by (intro ex_mono allI) (auto simp: list_all_iff)

definition rules_for :: "'u recursive_evaluator \<Rightarrow> string list \<Rightarrow> rule set" where
  "rules_for ev predicates = (\<Union>p \<in> set predicates. set (get_rules (re_rules ev) p))"

inductive derivable :: "'u recursive_evaluator \<Rightarrow> string list \<Rightarrow> triple set \<Rightarrow> triple \<Rightarrow> bool"
  for ev predicates base where
  given: "t \<in> base \<Longrightarrow> derivable ev predicates base t"
| by_rule: "r \<in> rules_for ev predicates \<Longrightarrow> follows ev r (derivable ev predicates base) t \<Longrightarrow> derivable ev predicates base t"

section \<open>One round\<close>

lemma eval_expr_map: "map_of b = map_of c \<Longrightarrow> eval_expr re reg e b = eval_expr re reg e c"
  by (induction e) simp_all

lemma expr_row_map:
  assumes "map_of b = map_of c"
  shows "map_outcome (map_option map_of) (expr_row re reg e out b) = map_outcome (map_option map_of) (expr_row re reg e out c)"
proof -
  have "map_of (hm_insert s v b) = map_of (hm_insert s v c)" for s v using assms by (simp add: fun_eq_iff)
  then show ?thesis using eval_expr_map [OF assms, of re "Some reg" e] assms
    by (cases "eval_expr re (Some reg) e c") (simp_all add: expr_row_def split: option.split)
qed

lemma out_bind_Ok_iff: "out_bind x f = Ok y \<longleftrightarrow> (\<exists>z. x = Ok z \<and> f z = Ok y)"
  by (cases x) simp_all

lemma expr_chain_skip: "\<nexists>e out. x = WExpr e out \<Longrightarrow> expr_chain re reg (x # xs) b = expr_chain re reg xs b"
  by (cases x) simp_all

lemma expr_chain_map:
  "map_of b = map_of c \<Longrightarrow> expr_chain re reg xs b = Ok (Some b') \<Longrightarrow>
     \<exists>c'. expr_chain re reg xs c = Ok (Some c') \<and> map_of c' = map_of b'"
proof (induction xs arbitrary: b c)
  case (Cons x xs)
  show ?case
  proof (cases "\<exists>e out. x = WExpr e out")
    case True
    then obtain e out where x: "x = WExpr e out" by blast
    obtain b1 where b1: "expr_row re reg e out b = Ok (Some b1)" "expr_chain re reg xs b1 = Ok (Some b')"
      using Cons.prems(2) unfolding x by (auto simp: out_bind_Ok_iff split: option.splits)
    have "map_outcome (map_option map_of) (expr_row re reg e out c) = Ok (Some (map_of b1))"
      using expr_row_map [OF Cons.prems(1), of re reg e out] b1(1) by simp
    then obtain c1 where c1: "expr_row re reg e out c = Ok (Some c1)" "map_of c1 = map_of b1"
      by (cases "expr_row re reg e out c") auto
    then show ?thesis using Cons.IH [OF c1(2) [symmetric] b1(2)] x by simp
  next
    case False
    then show ?thesis using Cons expr_chain_skip [of x re reg xs] by metis
  qed
qed simp

lemma instantiate_head_map: "map_of b = map_of c \<Longrightarrow> instantiate_head u h b = instantiate_head u h c"
proof -
  assume "map_of b = map_of c"
  then have eq: "substitute_variable e b = substitute_variable e c" for e by (simp only: substitute_variable_def)
  show ?thesis unfolding instantiate_head_def eq ..
qed

lemma evaluator_rows:
  "apply_expr_clauses_in_evaluator re reg rows xs = Ok rs \<Longrightarrow> set rs = {b'. \<exists>b \<in> set rows. expr_chain re reg xs b = Ok (Some b')}"
proof (induction rows arbitrary: rs)
  case (Cons b rows)
  obtain r rs' where r: "expr_chain re reg xs b = Ok r" "apply_expr_clauses_in_evaluator re reg rows xs = Ok rs'"
    "rs = (case r of Some b' \<Rightarrow> b' # rs' | None \<Rightarrow> rs')"
    using Cons.prems by (auto simp: out_bind_Ok_iff)
  have "{b'. \<exists>c \<in> set (b # rows). expr_chain re reg xs c = Ok (Some b')} =
      {b'. r = Some b'} \<union> {b'. \<exists>b \<in> set rows. expr_chain re reg xs b = Ok (Some b')}" using r(1) by auto
  also have "\<dots> = {b'. r = Some b'} \<union> set rs'" using Cons.IH [OF r(2)] by simp
  also have "\<dots> = set rs" unfolding r(3) by (cases r) auto
  finally show ?case by simp
qed simp

lemma res_map_set: "res_map f xs = Inr ys \<Longrightarrow> set ys = {y. \<exists>x \<in> set xs. f x = Inr y}"
proof -
  assume "res_map f xs = Inr ys"
  then have "f ` set xs = Inr ` set ys" by (metis res_map_Inr_iff set_map)
  then show ?thesis by (auto simp: image_iff set_eq_iff) (metis image_eqI sum.inject(2))+
qed

lemma res_map_total: "(\<And>x. x \<in> set xs \<Longrightarrow> \<exists>y. f x = Inr y) \<Longrightarrow> \<exists>ys. res_map f xs = Inr ys"
proof (induction xs)
  case (Cons x xs)
  then obtain y ys where "f x = Inr y" "res_map f xs = Inr ys" by (meson list.set_intros)
  then show ?case by simp
qed simp

definition plain_rules :: "'u recursive_evaluator \<Rightarrow> string list \<Rightarrow> bool" where
  "plain_rules ev predicates \<longleftrightarrow>
     (\<forall>r \<in> rules_for ev predicates. \<forall>ps xs. split_body (r_body r) [] [] = Inr (ps, xs) \<longrightarrow> (\<forall>p \<in> set ps. plain_pattern p))"

lemma lift_triples: "list_all (\<lambda>t. t \<in> triple ` A) (map triple fs) \<Longrightarrow> \<exists>gs. set gs \<subseteq> A \<and> map triple gs = map triple fs"
proof (induction fs)
  case (Cons f fs)
  then obtain gs g where "set gs \<subseteq> A" "map triple gs = map triple fs" "g \<in> A" "triple g = triple f" by auto
  then show ?case by (intro exI [of _ "g # gs"]) simp
qed simp

lemma from_outcome_Inr: "from_outcome x = Inr y \<longleftrightarrow> x = Ok y"
  by (cases x) simp_all

lemma evaluate_rule_follows:
  assumes "derived_store h s" and "inj_on (keyword_id (re_uuids ev)) K" and "\<forall>f \<in> set (store_facts s). plain_value K (val f)"
    and "\<And>ps xs. split_body (r_body r) [] [] = Inr (ps, xs) \<Longrightarrow> \<forall>p \<in> set ps. plain_pattern p" and "evaluate_rule ev s r = Inr new"
  shows "triple ` set new = Collect (follows ev r (\<lambda>t. t \<in> triple ` set (store_facts s)))"
proof -
  let ?u = "re_uuids ev" and ?m = "matcher_new s"
  obtain ps xs where body: "split_body (r_body r) [] [] = Inr (ps, xs)" using assms(5) by (auto simp: evaluate_rule_def res_bind_Inr)
  show ?thesis
  proof (cases "ps = [] \<and> xs = []")
    case True
    then have "new = []" "\<not> follows ev r X t" for X t using assms(5) body by (simp_all add: evaluate_rule_def follows_def)
    then show ?thesis by simp
  next
    case False
    define rows where "rows = (if ps = [] then [[]] else match_patterns ?u ?m ps)"
    obtain rs where rs: "apply_expr_clauses_in_evaluator (re_regex ev) (re_functions ev) rows xs = Ok rs"
      and new: "res_map (instantiate_head ?u (r_head r)) rs = Inr new"
      using assms(5) body False unfolding rows_def
      by (auto simp: evaluate_rule_def res_bind_Inr Let_def from_outcome_Inr)
    have facts: "get_facts ?m = store_facts s" by (rule derived_facts [OF assms(1)])
    then have "plain_matcher K ?m" using assms(3) by (simp add: plain_matcher_def)
    then have "map map_of rows = answers ?u ?m ps Map.empty"
      using match_patterns_rows [OF assms(2) _ assms(4) [OF body]] by (simp add: rows_def)
    then have "map_of ` set rows = set (answers ?u ?m ps Map.empty)" by (metis set_map)
    then have row: "\<sigma> \<in> map_of ` set rows \<longleftrightarrow> (\<exists>fs. set fs \<subseteq> set (store_facts s) \<and> chain ?u ps fs Map.empty = Some \<sigma>)" for \<sigma>
      using answers_chain [of ?m \<sigma> ?u ps Map.empty] facts by (simp add: matcher_new_def)
    have mem: "f \<in> set new \<longleftrightarrow> (\<exists>b \<in> set rows. \<exists>b'. expr_chain (re_regex ev) (re_functions ev) xs b = Ok (Some b') \<and>
        instantiate_head ?u (r_head r) b' = Inr f)" for f
      using res_map_set [OF new] evaluator_rows [OF rs] by auto
    show ?thesis
    proof (intro set_eqI iffI)
      fix t assume "t \<in> triple ` set new"
      then obtain f b b' where f: "t = triple f" "b \<in> set rows" "expr_chain (re_regex ev) (re_functions ev) xs b = Ok (Some b')"
        "instantiate_head ?u (r_head r) b' = Inr f" using mem by blast
      then obtain fs where fs: "set fs \<subseteq> set (store_facts s)" "chain ?u ps fs Map.empty = Some (map_of b)" using row by blast
      have "list_all (\<lambda>t. t \<in> triple ` set (store_facts s)) (map triple fs)" using fs(1) by (auto simp: list_all_iff)
      moreover have "ps \<noteq> [] \<or> xs \<noteq> []" using False by blast
      ultimately show "t \<in> Collect (follows ev r (\<lambda>t. t \<in> triple ` set (store_facts s)))"
        using followsI [OF body _ _ fs(2) f(3,4)] f(1) by simp
    next
      fix t assume "t \<in> Collect (follows ev r (\<lambda>t. t \<in> triple ` set (store_facts s)))"
      then obtain fs b b' f where f: "list_all (\<lambda>t. t \<in> triple ` set (store_facts s)) (map triple fs)" "chain ?u ps fs Map.empty = Some (map_of b)"
        "expr_chain (re_regex ev) (re_functions ev) xs b = Ok (Some b')" "instantiate_head ?u (r_head r) b' = Inr f" "t = triple f"
        using body unfolding mem_Collect_eq follows_def by (metis Pair_inject sum.inject(2))
      obtain gs where gs: "set gs \<subseteq> set (store_facts s)" "map triple gs = map triple fs" using lift_triples [OF f(1)] by blast
      have "chain ?u ps gs Map.empty = Some (map_of b)" using chain_triple [OF gs(2)] f(2) by simp
      then have "map_of b \<in> map_of ` set rows" using row [of "map_of b"] gs(1) by blast
      then obtain c where c: "c \<in> set rows" "map_of c = map_of b" by auto
      then obtain c' where c': "expr_chain (re_regex ev) (re_functions ev) xs c = Ok (Some c')" "map_of c' = map_of b'"
        using expr_chain_map [OF c(2) [symmetric] f(3)] by blast
      have "instantiate_head ?u (r_head r) c' = Inr f" using instantiate_head_map [OF c'(2)] f(4) by simp
      then have "f \<in> set new" using mem c(1) c'(1) by blast
      then show "t \<in> triple ` set new" using f(5) by blast
    qed
  qed
qed

lemma iteration_follows:
  assumes "derived_store h s" and "inj_on (keyword_id (re_uuids ev)) K" and "\<forall>f \<in> set (store_facts s). plain_value K (val f)"
    and "plain_rules ev predicates" and "evaluate_iteration ev predicates s = Inr new"
  shows "triple ` set new = {t. \<exists>r \<in> rules_for ev predicates. follows ev r (\<lambda>t. t \<in> triple ` set (store_facts s)) t}"
proof -
  obtain fss where fss: "res_map (evaluate_rule ev s) (concat (map (get_rules (re_rules ev)) predicates)) = Inr fss" "new = concat fss"
    using assms(5) by (auto simp: evaluate_iteration_def res_bind_Inr)
  have rules: "set (concat (map (get_rules (re_rules ev)) predicates)) = rules_for ev predicates" by (auto simp: rules_for_def)
  have rule: "triple ` set fs = Collect (follows ev r (\<lambda>t. t \<in> triple ` set (store_facts s)))"
    if "r \<in> rules_for ev predicates" "evaluate_rule ev s r = Inr fs" for r fs
    using evaluate_rule_follows [OF assms(1-3) _ that(2)] assms(4) that(1) by (auto simp: plain_rules_def)
  have all: "\<exists>fs. evaluate_rule ev s r = Inr fs" if "r \<in> rules_for ev predicates" for r
    using that rules arg_cong [OF fss(1) [unfolded res_map_Inr_iff], of set] by auto
  have "triple ` set new = (\<Union>fs \<in> set fss. triple ` set fs)" by (auto simp: fss(2))
  also have "\<dots> = (\<Union>r \<in> rules_for ev predicates. Collect (follows ev r (\<lambda>t. t \<in> triple ` set (store_facts s))))"
  proof (intro set_eqI iffI)
    fix t assume "t \<in> (\<Union>fs \<in> set fss. triple ` set fs)"
    then obtain r fs where "r \<in> rules_for ev predicates" "evaluate_rule ev s r = Inr fs" "t \<in> triple ` set fs"
      unfolding res_map_set [OF fss(1)] rules by blast
    then show "t \<in> (\<Union>r \<in> rules_for ev predicates. Collect (follows ev r (\<lambda>t. t \<in> triple ` set (store_facts s))))"
      using rule by blast
  next
    fix t assume "t \<in> (\<Union>r \<in> rules_for ev predicates. Collect (follows ev r (\<lambda>t. t \<in> triple ` set (store_facts s))))"
    then obtain r where r: "r \<in> rules_for ev predicates" "t \<in> Collect (follows ev r (\<lambda>t. t \<in> triple ` set (store_facts s)))" by blast
    then obtain fs where "evaluate_rule ev s r = Inr fs" using all by blast
    then show "t \<in> (\<Union>fs \<in> set fss. triple ` set fs)"
      unfolding res_map_set [OF fss(1)] rules using rule r by blast
  qed
  finally show ?thesis by auto
qed

section \<open>The loop computes the derivable facts\<close>

lemma plain_key:
  "plain_value K (val f) \<Longrightarrow> plain_value K (val g) \<Longrightarrow> fact_key f = fact_key g \<longleftrightarrow> triple f = triple g"
  by (cases "val f"; cases "val g")
    (auto simp: fact_key_def triple_def plain_value_def to_be_bytes_eq_iff integer_bits_eq_iff)

lemma key_of_triple: "triple ` A = triple ` B \<Longrightarrow> fact_key ` A = fact_key ` B"
proof -
  assume "triple ` A = triple ` B"
  then have "(\<lambda>(e, a, v). (e, a, encode_value v)) ` triple ` A = (\<lambda>(e, a, v). (e, a, encode_value v)) ` triple ` B" by simp
  then show ?thesis by (simp add: image_image triple_def fact_key_def)
qed

text \<open>What holds of the store and of the seen keys at the head of the loop, for a set of triples \<open>D\<close> that contains
  the derivable ones.\<close>

definition loop_inv :: "(fact_identity \<Rightarrow> u64) \<Rightarrow> (triple \<Rightarrow> bool) \<Rightarrow> triple set \<Rightarrow> nat \<Rightarrow> fact_store \<Rightarrow> fact_key list \<Rightarrow> bool" where
  "loop_inv h D base n s seen \<longleftrightarrow>
     derived_store h s \<and> base \<subseteq> triple ` set (store_facts s) \<and> (\<forall>f \<in> set (store_facts s). D (triple f)) \<and>
     distinct seen \<and> set seen = fact_key ` set (store_facts s) \<and> length (store_facts s) \<le> n + length seen"

lemma loop_step:
  assumes "loop_inv h D base n s seen" and "n + re_max_results ev \<le> 2 ^ 32"
    and "compute_delta (re_max_results ev) new seen [] = Inr (seen', delta)" and "\<forall>f \<in> set new. D (triple f)" and "delta \<noteq> []"
  shows "\<exists>s'. res_fold (transact_one h clock) delta s = Inr s' \<and> loop_inv h D base n s' seen'"
proof -
  have inv: "derived_store h s" "base \<subseteq> triple ` set (store_facts s)" "\<forall>f \<in> set (store_facts s). D (triple f)" "distinct seen"
    "set seen = fact_key ` set (store_facts s)" "length (store_facts s) \<le> n + length seen"
    using assms(1) by (simp_all add: loop_inv_def)
  obtain d0 where "delta = [] @ d0" "set d0 \<subseteq> set new" "seen' = rev (map fact_key d0) @ seen" "distinct seen'"
    "d0 \<noteq> [] \<longrightarrow> length seen' \<le> re_max_results ev"
    using compute_delta_ok [OF assms(3) inv(4)] by blast
  then have d: "set delta \<subseteq> set new" "seen' = rev (map fact_key delta) @ seen" "distinct seen'" "length seen' \<le> re_max_results ev"
    using assms(5) by (metis append_Nil)+
  have "length (store_facts s) + length delta \<le> 2 ^ 32" using inv(6) d(2,4) assms(2) by simp
  then obtain s' where s': "res_fold (transact_one h clock) delta s = Inr s'" "derived_store h s'"
    "map triple (store_facts s') = map triple (store_facts s) @ map triple delta"
    using transact_all_ok [OF inv(1)] by blast
  have trip: "triple ` set (store_facts s') = triple ` set (store_facts s @ delta)" using arg_cong [OF s'(3), of set] by (simp add: image_Un)
  have "set seen' = fact_key ` set (store_facts s')" using key_of_triple [OF trip] d(2) inv(5) by (auto simp: image_Un)
  moreover have "D (triple f)" if "f \<in> set (store_facts s')" for f
  proof -
    have "triple f \<in> triple ` set (store_facts s @ delta)" using that trip by blast
    then show ?thesis using inv(3) assms(4) d(1) by auto
  qed
  moreover have "length (store_facts s') = length (store_facts s) + length delta" using arg_cong [OF s'(3), of length] by simp
  moreover have "base \<subseteq> triple ` set (store_facts s')" using inv(2) trip by auto
  ultimately show ?thesis using s'(1,2) d inv(6) by (auto simp: loop_inv_def)
qed

lemma round_derivable:
  assumes "derived_store h s" and "inj_on (keyword_id (re_uuids ev)) K" and "plain_rules ev predicates"
    and "\<And>t. derivable ev predicates base t \<Longrightarrow> plain_value K (snd (snd t))"
    and "\<forall>f \<in> set (store_facts s). derivable ev predicates base (triple f)" and "evaluate_iteration ev predicates s = Inr new"
  shows "triple ` set new = {t. \<exists>r \<in> rules_for ev predicates. follows ev r (\<lambda>t. t \<in> triple ` set (store_facts s)) t}"
    and "\<forall>f \<in> set new. derivable ev predicates base (triple f)"
proof -
  have "\<forall>f \<in> set (store_facts s). plain_value K (val f)" using assms(4,5) by (auto simp: triple_def)
  then show round: "triple ` set new = {t. \<exists>r \<in> rules_for ev predicates. follows ev r (\<lambda>t. t \<in> triple ` set (store_facts s)) t}"
    using iteration_follows [OF assms(1,2) _ assms(3,6)] by blast
  show "\<forall>f \<in> set new. derivable ev predicates base (triple f)"
  proof
    fix f assume "f \<in> set new"
    then obtain r where r: "r \<in> rules_for ev predicates" "follows ev r (\<lambda>t. t \<in> triple ` set (store_facts s)) (triple f)"
      using round by blast
    have "t \<in> triple ` set (store_facts s) \<longrightarrow> derivable ev predicates base t" for t using assms(5) by auto
    from mp [OF follows_mono [of "\<lambda>t. t \<in> triple ` set (store_facts s)", OF this] r(2)]
    show "derivable ev predicates base (triple f)" by (rule by_rule [OF r(1)])
  qed
qed

lemma loop_result:
  assumes "inj_on (keyword_id (re_uuids ev)) K" and "plain_rules ev predicates"
    and "\<And>t. derivable ev predicates base t \<Longrightarrow> plain_value K (snd (snd t))" and "n + re_max_results ev \<le> 2 ^ 32"
    and "fixpoint_loop k h clock ev predicates s seen = Inr s'" and "loop_inv h (derivable ev predicates base) base n s seen"
  shows "triple ` set (store_facts s') = Collect (derivable ev predicates base)"
  using assms(5,6)
proof (induction k arbitrary: s seen)
  case (Suc k)
  obtain new where new: "evaluate_iteration ev predicates s = Inr new" using Suc.prems(1) by (auto simp: res_bind_Inr)
  obtain seen' delta where delta: "compute_delta (re_max_results ev) new seen [] = Inr (seen', delta)"
    using Suc.prems(1) new by (auto simp: res_bind_Inr split: if_splits)
  have store: "derived_store h s" "\<forall>f \<in> set (store_facts s). derivable ev predicates base (triple f)" "distinct seen"
    "set seen = fact_key ` set (store_facts s)" "base \<subseteq> triple ` set (store_facts s)"
    using Suc.prems(2) by (simp_all add: loop_inv_def)
  note round = round_derivable [OF store(1) assms(1-3) store(2) new]
  show ?case
  proof (cases "delta = []")
    case True
    then have s': "s' = s" using Suc.prems(1) new delta by (simp split: if_splits)
    obtain d0 where "delta = [] @ d0" "seen' = rev (map fact_key d0) @ seen" "set seen' = set seen \<union> fact_key ` set new"
      using compute_delta_ok [OF delta store(3)] by blast
    then have keys: "fact_key ` set new \<subseteq> fact_key ` set (store_facts s)" using True store(4) by auto
    have closed: "triple ` set new \<subseteq> triple ` set (store_facts s)"
    proof
      fix t assume "t \<in> triple ` set new"
      then obtain f where f: "f \<in> set new" "t = triple f" by blast
      then obtain g where g: "g \<in> set (store_facts s)" "fact_key f = fact_key g" using keys by blast
      have "plain_value K (val f)" "plain_value K (val g)"
        using assms(3) [of "triple f"] assms(3) [of "triple g"] round(2) store(2) f(1) g(1) by (simp_all add: triple_def)
      then show "t \<in> triple ` set (store_facts s)" using plain_key g f(2) by blast
    qed
    have "derivable ev predicates base t \<Longrightarrow> t \<in> triple ` set (store_facts s)" for t
    proof (induction rule: derivable.induct)
      case (given t)
      then show ?case using store(5) by blast
    next
      case (by_rule r t)
      have "derivable ev predicates base x \<and> x \<in> triple ` set (store_facts s) \<longrightarrow> x \<in> triple ` set (store_facts s)" for x by blast
      from mp [OF follows_mono [OF this] by_rule(2)] show ?case using round(1) by_rule(1) closed by blast
    qed
    then show ?thesis using store(2) s' by auto
  next
    case False
    obtain s1 where s1: "res_fold (transact_one h clock) delta s = Inr s1" "loop_inv h (derivable ev predicates base) base n s1 seen'"
      using loop_step [OF Suc.prems(2) assms(4) delta round(2) False] by blast
    have "fixpoint_loop k h clock ev predicates s1 seen' = Inr s'"
      using Suc.prems(1) new delta False s1(1) by (simp split: if_splits)
    then show ?thesis using Suc.IH s1(2) by blast
  qed
qed simp

lemma loop_inv_start:
  assumes "res_fold (transact_one h clock) base fs_new = Inr s" and "length base \<le> 2 ^ 32" and "\<forall>f \<in> set base. D (triple f)"
  shows "loop_inv h D (triple ` set base) (length base) s (remdups (map fact_key base))"
proof -
  obtain s' where "res_fold (transact_one h clock) base fs_new = Inr s'" "derived_store h s'" "map triple (store_facts s') = map triple base"
    using transact_all_ok [OF derived_store_new(1) [of h], of base clock] assms(2) derived_store_new(2) by auto
  then have s: "derived_store h s" "map triple (store_facts s) = map triple base" using assms(1) by auto
  have trip: "triple ` set (store_facts s) = triple ` set base" using arg_cong [OF s(2), of set] by simp
  have "D (triple f)" if "f \<in> set (store_facts s)" for f
  proof -
    have "triple f \<in> triple ` set base" using that trip by blast
    then show ?thesis using assms(3) by auto
  qed
  then show ?thesis using s(1) trip key_of_triple [OF trip] arg_cong [OF s(2), of length] by (simp add: loop_inv_def)
qed

section \<open>The loop ends\<close>

lemma keys_card:
  assumes "\<forall>f \<in> A. plain_value K (val f)"
  shows "card (fact_key ` A) = card (triple ` A)"
proof -
  let ?k = "\<lambda>(e, a, v). (e, a, encode_value v)"
  have "inj_on ?k (triple ` A)"
  proof (rule inj_onI, elim imageE)
    fix t t' f g assume "?k t = ?k t'" "t = triple f" "t' = triple g" "f \<in> A" "g \<in> A"
    then show "t = t'" using plain_key [of K f g] assms by (simp add: triple_def fact_key_def)
  qed
  then have "card (?k ` triple ` A) = card (triple ` A)" by (rule card_image)
  then show ?thesis by (simp add: image_image triple_def fact_key_def)
qed

lemma seen_bound:
  assumes "loop_inv h D base n s seen" and "\<And>t. D t \<Longrightarrow> plain_value K (snd (snd t))" and "finite (Collect D)"
  shows "length seen \<le> card (Collect D)"
proof -
  have inv: "\<forall>f \<in> set (store_facts s). D (triple f)" "distinct seen" "set seen = fact_key ` set (store_facts s)"
    using assms(1) by (simp_all add: loop_inv_def)
  have "\<forall>f \<in> set (store_facts s). plain_value K (val f)" using inv(1) assms(2) by (auto simp: triple_def)
  then have "length seen = card (triple ` set (store_facts s))" using keys_card inv(2,3) by (metis distinct_card)
  also have "\<dots> \<le> card (Collect D)" using inv(1) by (intro card_mono assms(3)) auto
  finally show ?thesis .
qed

lemma loop_ends:
  assumes "inj_on (keyword_id (re_uuids ev)) K" and "plain_rules ev predicates"
    and "\<And>t. derivable ev predicates base t \<Longrightarrow> plain_value K (snd (snd t))" and "n + re_max_results ev \<le> 2 ^ 32"
    and "finite (Collect (derivable ev predicates base))" and "card (Collect (derivable ev predicates base)) \<le> re_max_results ev"
    and "\<And>s. derived_store h s \<Longrightarrow> \<forall>f \<in> set (store_facts s). derivable ev predicates base (triple f) \<Longrightarrow>
      length (store_facts s) \<le> n + re_max_results ev \<Longrightarrow>
      \<exists>new. evaluate_iteration ev predicates s = Inr new \<and> length new \<le> re_max_derived_facts ev"
    and "loop_inv h (derivable ev predicates base) base n s seen"
    and "card (Collect (derivable ev predicates base)) < k + length seen"
  shows "\<exists>s'. fixpoint_loop k h clock ev predicates s seen = Inr s'"
  using assms(8,9)
proof (induction k arbitrary: s seen)
  case 0
  then show ?case using seen_bound [OF _ assms(3,5)] by fastforce
next
  let ?D = "Collect (derivable ev predicates base)"
  case (Suc k)
  have inv: "derived_store h s" "\<forall>f \<in> set (store_facts s). derivable ev predicates base (triple f)" "distinct seen"
    "set seen = fact_key ` set (store_facts s)" "length (store_facts s) \<le> n + length seen"
    using Suc.prems(1) by (simp_all add: loop_inv_def)
  have "length (store_facts s) \<le> n + re_max_results ev" using seen_bound [OF Suc.prems(1) assms(3,5)] inv(5) assms(6) by simp
  then obtain new where new: "evaluate_iteration ev predicates s = Inr new" "length new \<le> re_max_derived_facts ev"
    using assms(7) [OF inv(1,2)] by blast
  note round = round_derivable [OF inv(1) assms(1-3) inv(2) new(1)]
  have "\<forall>f \<in> set (store_facts s @ new). plain_value K (val f)"
    using round(2) inv(2) assms(3) by (auto simp: triple_def)
  then have "card (fact_key ` set (store_facts s @ new)) = card (triple ` set (store_facts s @ new))" by (rule keys_card)
  also have "\<dots> \<le> card ?D" using inv(2) round(2) by (intro card_mono assms(5)) auto
  finally have "card (set seen \<union> fact_key ` set new) \<le> re_max_results ev" using inv(4) assms(6) by (simp add: image_Un)
  then obtain seen' delta where delta: "compute_delta (re_max_results ev) new seen [] = Inr (seen', delta)"
    using compute_delta_succeeds [OF inv(3)] by fastforce
  show ?case
  proof (cases "delta = []")
    case True
    then show ?thesis using new delta by simp
  next
    case False
    obtain s1 where s1: "res_fold (transact_one h clock) delta s = Inr s1" "loop_inv h (derivable ev predicates base) base n s1 seen'"
      using loop_step [OF Suc.prems(1) assms(4) delta round(2) False] by blast
    obtain d0 where "delta = [] @ d0" "seen' = rev (map fact_key d0) @ seen"
      using compute_delta_ok [OF delta inv(3)] by blast
    then have "length seen < length seen'" using False by simp
    then have "card ?D < k + length seen'" using Suc.prems(2) by simp
    then obtain s' where "fixpoint_loop k h clock ev predicates s1 seen' = Inr s'" using Suc.IH [OF s1(2)] by blast
    then show ?thesis using new delta False s1(1) by simp
  qed
qed

lemma evaluation_returns:
  assumes "get_asserted_facts (re_storage ev) = Inr base" and "length base + re_max_results ev \<le> 2 ^ 32"
    and "inj_on (keyword_id (re_uuids ev)) K" and "plain_rules ev predicates"
    and "\<And>t. derivable ev predicates (triple ` set base) t \<Longrightarrow> plain_value K (snd (snd t))"
    and "finite (Collect (derivable ev predicates (triple ` set base)))"
    and "card (Collect (derivable ev predicates (triple ` set base))) \<le> re_max_results ev"
    and "card (Collect (derivable ev predicates (triple ` set base))) < re_max_iterations ev"
    and "\<And>s. derived_store h s \<Longrightarrow> \<forall>f \<in> set (store_facts s). derivable ev predicates (triple ` set base) (triple f) \<Longrightarrow>
      length (store_facts s) \<le> length base + re_max_results ev \<Longrightarrow>
      \<exists>new. evaluate_iteration ev predicates s = Inr new \<and> length new \<le> re_max_derived_facts ev"
  shows "\<exists>s. evaluate_recursive_rules h clock ev predicates = Inr s"
proof -
  obtain s0 where s0: "res_fold (transact_one h clock) base fs_new = Inr s0"
    using transact_all_ok [OF derived_store_new(1) [of h], of base clock] assms(2) derived_store_new(2) by auto
  have "loop_inv h (derivable ev predicates (triple ` set base)) (triple ` set base) (length base) s0 (remdups (map fact_key base))"
    using assms(2) by (intro loop_inv_start [OF s0]) (auto intro: given)
  then obtain s where "fixpoint_loop (re_max_iterations ev) h clock ev predicates s0 (remdups (map fact_key base)) = Inr s"
    using loop_ends [OF assms(3,4,5,2,6,7,9)] assms(8) by fastforce
  then show ?thesis using assms(1) s0 by (simp add: evaluate_recursive_rules_def map_err_def)
qed

section \<open>A symmetric closure\<close>

definition edge_pattern :: "attribute \<Rightarrow> pattern" where
  "edge_pattern a = pattern_new (ESymbol ''?x'') (EKeyword a) (ESymbol ''?y'')"

definition sym_head :: "edn_value list" where
  "sym_head = [ESymbol ''sym'', ESymbol ''?y'', ESymbol ''?x'']"

definition sym_evaluator :: "unit recursive_evaluator" where
  "sym_evaluator =
     \<lparr> re_storage = fst (transact_batch (\<lambda>_. 0) 5 fs_new [(1, '':edge'', Ref 2, None)] None),
       re_rules = [(''sym'', [\<lparr> r_head = sym_head, r_body = [WPattern (edge_pattern '':edge'')] \<rparr>,
                             \<lparr> r_head = sym_head, r_body = [WRule ''sym'' [ESymbol ''?x'', ESymbol ''?y'']] \<rparr>])],
       re_functions = with_builtins, re_regex = (\<lambda>_ _. False), re_uuids = sample_uuids,
       re_max_iterations = 10, re_max_derived_facts = 100, re_max_results = 10 \<rparr>"

abbreviation sym_base :: "triple set" where
  "sym_base \<equiv> {(1, '':edge'', Ref 2)}"

abbreviation sym_model :: "triple set" where
  "sym_model \<equiv> {(1, '':edge'', Ref 2), (2, '':sym'', Ref 1), (1, '':sym'', Ref 2)}"

lemma sym_storage: "\<exists>f. get_asserted_facts (re_storage sym_evaluator) = Inr [f] \<and> triple f = (1, '':edge'', Ref 2)"
proof -
  let ?f = "assertion_of 5 1 no_options 1 '':edge'' (Ref 2)"
  have room: "room_for fs_new (length [(1 :: uuid, '':edge'', Ref 2, None :: transact_options option)])"
    by (simp add: room_for_def get_pending_facts_def fs_new_def)
  obtain s where s: "transact_batch (\<lambda>_. 0) 5 fs_new [(1, '':edge'', Ref 2, None)] None = (s, Inr (5, fs_tx_counter fs_new + 1))"
    "store_inv (\<lambda>_. 0) s" "store_facts s = store_facts fs_new @ batch_assertions 5 fs_new None [(1, '':edge'', Ref 2, None)]"
    using transact_batch_ok [OF store_inv_new room] by blast
  have "store_facts s = [?f]" using s(3) by (simp add: derived_store_new(2) batch_assertions_def) (simp add: fs_new_def)
  then have "get_asserted_facts s = Inr [?f]" using s(2) by (simp add: store_inv_def get_asserted_facts_def)
  moreover have "triple ?f = (1, '':edge'', Ref 2)" by (simp add: triple_def assertion_of_def fact_with_valid_time_def)
  ultimately show ?thesis using s(1) by (auto simp: sym_evaluator_def)
qed

lemma sym_rules:
  "rules_for sym_evaluator [''sym''] =
     {\<lparr> r_head = sym_head, r_body = [WPattern (edge_pattern '':edge'')] \<rparr>,
      \<lparr> r_head = sym_head, r_body = [WRule ''sym'' [ESymbol ''?x'', ESymbol ''?y'']] \<rparr>}"
  by (simp add: rules_for_def get_rules_def sym_evaluator_def get_or_def)

lemma sym_body:
  assumes "r \<in> rules_for sym_evaluator [''sym'']"
  obtains a where "split_body (r_body r) [] [] = Inr ([edge_pattern a], [])" "r_head r = sym_head"
  using assms unfolding sym_rules
  by (auto simp: rule_invocation_to_pattern_def edge_pattern_def)

lemma edge_plain: "plain_pattern (edge_pattern a)"
  by (simp add: plain_pattern_def edge_pattern_def pattern_new_def)

lemma edge_answer:
  "answer u (matcher_from_slice []) (edge_pattern a) f Map.empty =
     (if attr f = a then Some [''?x'' \<mapsto> Ref (entity f), ''?y'' \<mapsto> val f] else None)"
  by (auto simp: answer_def edge_pattern_def pattern_new_def comp_answer_def is_wildcard_def starts_with_def hidden_entries_def
    matcher_from_slice_def)

lemma sym_instantiate:
  "map_of b = [''?x'' \<mapsto> Ref e, ''?y'' \<mapsto> Ref i] \<Longrightarrow> instantiate_head u sym_head b = Inr (fact_new i '':sym'' (Ref e) 0)"
  by (simp add: instantiate_head_def sym_head_def substitute_variable_def starts_with_def map_err_def)

lemma edge_chain:
  "chain u [edge_pattern a] fs Map.empty = Some \<sigma> \<longleftrightarrow> (\<exists>f. fs = [f] \<and> attr f = a \<and> \<sigma> = [''?x'' \<mapsto> Ref (entity f), ''?y'' \<mapsto> val f])"
proof (cases fs)
  case (Cons f gs)
  then show ?thesis by (cases gs) (auto simp: edge_answer)
qed simp

lemma sym_follows:
  assumes "r \<in> rules_for sym_evaluator [''sym'']" and "\<And>t. X t \<Longrightarrow> t \<in> sym_model" and "follows sym_evaluator r X t"
  shows "t \<in> sym_model"
proof -
  obtain a where r: "split_body (r_body r) [] [] = Inr ([edge_pattern a], [])" "r_head r = sym_head" using sym_body [OF assms(1)] .
  obtain fs b f where f: "list_all X (map triple fs)" "chain (re_uuids sym_evaluator) [edge_pattern a] fs Map.empty = Some (map_of b)"
    "instantiate_head (re_uuids sym_evaluator) sym_head b = Inr f" "t = triple f"
    using assms(3) r unfolding follows_def by auto
  obtain g where g: "fs = [g]" "map_of b = [''?x'' \<mapsto> Ref (entity g), ''?y'' \<mapsto> val g]" using f(2) edge_chain by metis
  have "triple g \<in> sym_model" using f(1) g(1) assms(2) by simp
  then obtain i where i: "val g = Ref i" "(entity g, i) \<in> {(1, 2), (2, 1)}" by (auto simp: triple_def)
  then have "f = fact_new i '':sym'' (Ref (entity g)) 0" using sym_instantiate [of b "entity g" i] g(2) f(3) by simp
  then show ?thesis using i(2) f(4) by (auto simp: triple_def fact_new_def)
qed

lemma sym_derivable_model: "derivable sym_evaluator [''sym''] sym_base t \<Longrightarrow> t \<in> sym_model"
proof (induction rule: derivable.induct)
  case (by_rule r t)
  show ?case by (rule sym_follows [OF by_rule(1) _ by_rule(2)]) (erule conjunct2)
qed simp

lemma sym_round:
  assumes "derived_store h s" and "\<forall>f \<in> set (store_facts s). derivable sym_evaluator [''sym''] sym_base (triple f)" and "length (store_facts s) \<le> 11"
  shows "\<exists>new. evaluate_iteration sym_evaluator [''sym''] s = Inr new \<and> length new \<le> re_max_derived_facts sym_evaluator"
proof -
  let ?u = "re_uuids sym_evaluator" and ?m = "matcher_new s"
  have facts: "get_facts ?m = store_facts s" by (rule derived_facts [OF assms(1)])
  have vals: "\<exists>i. val f = Ref i" if "f \<in> set (store_facts s)" for f
    using sym_derivable_model [of "triple f"] assms(2) that by (auto simp: triple_def)
  have plain: "inj_on (keyword_id ?u) {}" "plain_matcher {} ?m"
    using vals facts by (fastforce simp: plain_matcher_def plain_value_def)+
  have rule: "\<exists>new. evaluate_rule sym_evaluator s r = Inr new \<and> length new \<le> 11" if r_in: "r \<in> rules_for sym_evaluator [''sym'']" for r
  proof -
    obtain a where r: "split_body (r_body r) [] [] = Inr ([edge_pattern a], [])" "r_head r = sym_head" using sym_body [OF r_in] .
    have rows: "map map_of (match_pattern ?u ?m (edge_pattern a)) = List.map_filter (\<lambda>f. answer ?u ?m (edge_pattern a) f Map.empty) (store_facts s)"
      using match_pattern_rows [OF plain edge_plain] facts by simp
    have "\<exists>f. instantiate_head ?u sym_head b = Inr f" if "b \<in> set (match_pattern ?u ?m (edge_pattern a))" for b
    proof -
      have "map_of b \<in> set (map map_of (match_pattern ?u ?m (edge_pattern a)))" using that by simp
      then obtain f where f: "f \<in> set (store_facts s)" "answer ?u (matcher_from_slice []) (edge_pattern a) f Map.empty = Some (map_of b)"
        unfolding rows using answer_retain [of ?m "matcher_from_slice []"]
        by (auto simp: List.map_filter_def matcher_new_def matcher_from_slice_def)
      obtain i where i: "val f = Ref i" using vals [OF f(1)] by blast
      then have "map_of b = [''?x'' \<mapsto> Ref (entity f), ''?y'' \<mapsto> Ref i]" using f(2) by (simp add: edge_answer split: if_splits)
      then show ?thesis using sym_instantiate by blast
    qed
    then obtain new where new: "res_map (instantiate_head ?u sym_head) (match_pattern ?u ?m (edge_pattern a)) = Inr new"
      using res_map_total by blast
    moreover have "length (match_pattern ?u ?m (edge_pattern a)) \<le> length (store_facts s)"
      using facts by (simp add: match_pattern_def List.map_filter_def)
    ultimately show ?thesis using r assms(3) res_map_length [OF new]
      by (simp add: evaluate_rule_def Let_def match_patterns_def evaluator_no_exprs)
  qed
  obtain n1 where n1: "evaluate_rule sym_evaluator s \<lparr> r_head = sym_head, r_body = [WPattern (edge_pattern '':edge'')] \<rparr> = Inr n1" "length n1 \<le> 11"
    using rule [of "\<lparr> r_head = sym_head, r_body = [WPattern (edge_pattern '':edge'')] \<rparr>"] unfolding sym_rules by fast
  obtain n2 where n2: "evaluate_rule sym_evaluator s \<lparr> r_head = sym_head, r_body = [WRule ''sym'' [ESymbol ''?x'', ESymbol ''?y'']] \<rparr> = Inr n2" "length n2 \<le> 11"
    using rule [of "\<lparr> r_head = sym_head, r_body = [WRule ''sym'' [ESymbol ''?x'', ESymbol ''?y'']] \<rparr>"] unfolding sym_rules by fast
  have registered: "get_rules (re_rules sym_evaluator) ''sym'' =
      [\<lparr> r_head = sym_head, r_body = [WPattern (edge_pattern '':edge'')] \<rparr>, \<lparr> r_head = sym_head, r_body = [WRule ''sym'' [ESymbol ''?x'', ESymbol ''?y'']] \<rparr>]"
    by (simp add: sym_evaluator_def get_rules_def get_or_def)
  have "evaluate_iteration sym_evaluator [''sym''] s = Inr (n1 @ n2)"
    using n1(1) n2(1) by (simp add: evaluate_iteration_def registered)
  moreover have "re_max_derived_facts sym_evaluator = 100" by (simp add: sym_evaluator_def)
  ultimately show ?thesis using n1(2) n2(2) by simp
qed

lemma sym_rule:
  assumes "a \<in> {'':edge'', '':sym''}"
  shows "\<exists>r \<in> rules_for sym_evaluator [''sym'']. split_body (r_body r) [] [] = Inr ([edge_pattern a], []) \<and> r_head r = sym_head"
  using assms unfolding sym_rules by (auto simp: rule_invocation_to_pattern_def edge_pattern_def)

lemma sym_step:
  assumes "derivable sym_evaluator [''sym''] sym_base (i, a, Ref j)" and "a \<in> {'':edge'', '':sym''}"
  shows "derivable sym_evaluator [''sym''] sym_base (j, '':sym'', Ref i)"
proof -
  let ?D = "derivable sym_evaluator [''sym''] sym_base" and ?f = "fact_new i a (Ref j) 0" and ?g = "fact_new j '':sym'' (Ref i) 0"
  let ?b = "[(''?x'', Ref i), (''?y'', Ref j)]"
  obtain r where r: "r \<in> rules_for sym_evaluator [''sym'']" "split_body (r_body r) [] [] = Inr ([edge_pattern a], [])" "r_head r = sym_head"
    using sym_rule [OF assms(2)] by blast
  have f: "entity ?f = i" "attr ?f = a" "val ?f = Ref j" by (simp_all add: fact_new_def)
  have b: "map_of ?b = [''?x'' \<mapsto> Ref i, ''?y'' \<mapsto> Ref j]" by (rule ext) simp
  have c: "chain (re_uuids sym_evaluator) [edge_pattern a] [?f] Map.empty = Some (map_of ?b)"
    by (subst edge_chain, rule exI [of _ ?f]) (simp only: f b simp_thms)
  have k: "list_all ?D (map triple [?f])" using assms(1) f by (simp add: triple_def)
  have h: "instantiate_head (re_uuids sym_evaluator) (r_head r) ?b = Inr ?g"
    unfolding r(3) by (rule sym_instantiate [OF b])
  have "follows sym_evaluator r ?D (triple ?g)"
    by (rule followsI [OF r(2) _ k c _ h]) simp_all
  then show ?thesis using by_rule [OF r(1)] by (simp add: triple_def fact_new_def)
qed

lemma sym_model_derivable: "Collect (derivable sym_evaluator [''sym''] sym_base) = sym_model"
proof
  have edge: "derivable sym_evaluator [''sym''] sym_base (1, '':edge'', Ref 2)" by (rule given) simp
  have reverse: "derivable sym_evaluator [''sym''] sym_base (2, '':sym'', Ref 1)" by (rule sym_step [OF edge]) simp
  have again: "derivable sym_evaluator [''sym''] sym_base (1, '':sym'', Ref 2)" by (rule sym_step [OF reverse]) simp
  show "sym_model \<subseteq> Collect (derivable sym_evaluator [''sym''] sym_base)" using edge reverse again by simp
qed (rule subsetI, drule CollectD, erule sym_derivable_model)

lemma sym_hypotheses:
  "inj_on (keyword_id (re_uuids sym_evaluator)) {}" "plain_rules sym_evaluator [''sym'']"
  "derivable sym_evaluator [''sym''] sym_base t \<Longrightarrow> plain_value {} (snd (snd t))"
  "re_max_results sym_evaluator = 10" "re_max_iterations sym_evaluator = 10"
proof -
  show "plain_rules sym_evaluator [''sym'']"
    unfolding plain_rules_def using edge_plain by (auto elim!: sym_body)
  show "derivable sym_evaluator [''sym''] sym_base t \<Longrightarrow> plain_value {} (snd (snd t))"
    using sym_derivable_model [of t] by (auto simp: plain_value_def)
qed (simp_all add: sym_evaluator_def)





end
