(* ===== verification/Spec2Isabelle.thy ===== *)
theory Spec2Isabelle
  imports Page_Integrity Page_Cache File_Lock Write_Path Stratification Aggregates Optimizer Rule_Eval
begin

text \<open>
  A verification development for the embedded bi-temporal graph database under \<open>src/src\<close>.

  \<^bold>\<open>The program.\<close>  A database holds facts: an entity, an attribute and a value with a validity window, stamped
  with the transaction that asserted or retracted them.  Facts are never changed; every view of the data is
  computed from the records.  A write is stamped, appended to a write-ahead log, and then put into an
  in-memory overlay beside the committed pages of the main file; a checkpoint moves the overlay into the main
  file and retires the log; opening the database replays the log.  Queries are Datalog: patterns over facts,
  rules with stratified negation, expressions, and aggregates.

  \<^bold>\<open>Shared vocabulary.\<close>  \<open>Vicia_Prelude\<close> has machine integers as words, byte layouts, checked slices, three-way
  comparisons (locale \<open>total_cmp\<close>) and the collection of the facts about them.  \<open>Rust_Std\<close> has results as
  sums, checked arithmetic, files with a position, hash maps and saturating counters.

  \<^bold>\<open>Facts in memory.\<close>
  \<^item> \<open>Graph_Types\<close> (\<open>graph/types.rs\<close>): values, facts, equality, order and hashing of values; doubles are bit
    patterns.  The order is total although equality of doubles is not reflexive.
  \<^item> \<open>Value_Encoding\<close> (\<open>encode_value\<close> of \<open>storage/index.rs\<close>, \<open>decode_index_value\<close> of \<open>graph/storage.rs\<close>): the
    encoding is injective up to the two zeros and the NaNs, decodes back, and agrees with the value order
    exactly where stated.
  \<^item> \<open>Net_Facts\<close> (\<open>graph/storage.rs\<close>): as-of and valid-at filters, the net view \<open>net_asserted_facts\<close> and
    point-in-time coalescing, each shown equal to a declarative specification.
  \<^item> \<open>Index_Keys\<close> (\<open>storage/index.rs\<close>): the keys of the four covering indexes, their wire comparisons, the
    in-memory indexes and their range lookups.
  \<^item> \<open>Ordered_Runs\<close> and \<open>Pending_Overlay\<close> (\<open>graph/pending_overlay.rs\<close>): runs merged by size class, duplicate
    detection by hash, range reads by k-way merge; the locale \<open>strict_cmp\<close> is what merging needs of an order and
    is interpreted for each index.
  \<^item> \<open>Fact_Store\<close> (\<open>graph/storage.rs\<close>): the store with its overlay and its committed readers, the writers, the
    indexed and unindexed readers.

  \<^bold>\<open>Facts on disk.\<close>
  \<^item> \<open>File_Header\<close> (\<open>storage/mod.rs\<close>) and \<open>Header_Extension\<close> (\<open>storage/header_extension.rs\<close>): page 0, its
    versions, and the two manifest slots whose alternation makes publishing atomic.
  \<^item> \<open>Page_Integrity\<close> (\<open>storage/page_integrity.rs\<close>): the catalog of page checksums.
  \<^item> \<open>Storage_Backends\<close> (\<open>storage/backend/memory.rs\<close>, \<open>file.rs\<close>): page stores; the locale \<open>page_store\<close> is their
    contract, interpreted for both.  \<open>File_Lock\<close> is the advisory lock file, as sequential operations and as an
    interleaving step relation.
  \<^item> \<open>Page_Cache\<close> (\<open>storage/cache.rs\<close>): the cache with its eviction order, transparent for reads.
  \<^item> \<open>Packed_Pages\<close> (\<open>storage/packed_pages.rs\<close>): packing facts into pages and scanning them back.
  \<^item> \<open>Wal\<close> (\<open>wal.rs\<close>): log entries, torn tails, and reopening; the visit loop ends because every entry advances
    the file position.
  \<^item> \<open>Write_Path\<close> (\<open>db.rs\<close>): batches, transactions, checkpoints and recovery, composed from the log and the fact
    store.

  \<^bold>\<open>Queries.\<close>
  \<^item> \<open>Datalog_Types\<close> (\<open>query/datalog/types.rs\<close>): the syntax trees.
  \<^item> \<open>Stratification\<close> (\<open>stratification.rs\<close>, \<open>rules.rs\<close>): dependency edges, the relaxation loop and the registry.
    The loop is a total function: a pass that changes something raises the sum of the strata, which the number
    of predicates bounds.
  \<^item> \<open>Float64\<close>: addition, multiplication, division, comparison and conversion of binary64, rounding to nearest
    even.  \<open>Functions\<close> (\<open>functions.rs\<close>): built-in and user-defined aggregates and predicates.  \<open>Expressions\<close>
    (\<open>executor.rs\<close>, \<open>evaluator.rs\<close>): evaluation of expressions and of expression clauses.
  \<^item> \<open>Aggregates\<close> (\<open>executor.rs\<close>): streaming accumulators and grouping.
  \<^item> \<open>Matcher\<close> (\<open>matcher.rs\<close>): a fact against a pattern, the nested-loop and the hash join, and their variants with
    a limit on the rows.  A join returns the answers of the conjunctive query, by either method.  The theorems are
    about values without doubles, which the two methods compare differently, and about keywords that stand for
    different entities.
  \<^item> \<open>Optimizer\<close> (\<open>optimizer.rs\<close>): index hints, bundles of a fact pattern with the patterns that read its metadata,
    their order, and the placement of expressions.  Planning does not change the answers.
  \<^item> \<open>Rule_Eval\<close> (\<open>RecursiveEvaluator\<close> and \<open>evaluate_not_join\<close> of \<open>evaluator.rs\<close>): rule heads and bodies, one round,
    and the fixed-point loop.  The number of iterations the code allows is the argument on which the loop recurses.
    The loop returns the least model of the rules, and it does return when the limits admit all derivable facts.

  \<^bold>\<open>Parameters.\<close>  Code outside the sources is an argument of the definitions that use it: the checksum \<open>crc\<close>, fact
  serialisation \<open>ser\<close> and \<open>de\<close>, the hash \<open>h\<close>, the clock \<open>now\<close> (or \<open>clock\<close>, by transaction
  count), the regular expressions \<open>re\<close>, parsing, derivation and printing of UUIDs (\<open>uuid_api\<close>).  Where a theorem
  relies on them, it says how (for instance that \<open>de\<close> reads back what \<open>ser\<close> wrote).

  \<^bold>\<open>Not modelled.\<close>  Locks and threads other than the lock file (every operation runs under the write lock it takes);
  the browser and IndexedDB code (asynchronous platform calls); the command line, the session protocol and the
  benchmarks (input and output); the conversion of a checkpoint into base or delta pages
  (\<open>persistent_facts.rs\<close>, an argument of the checkpoint driver); the parser (the model starts from syntax trees);
  the dispatch of commands in the executor, its index access paths, window functions and the magic-set rewriting;
  \<open>StratifiedEvaluator\<close>, which runs the rules with negation or disjunction of each stratum through the executor.
\<close>

end
